(* ===== verification/GoPrelude.thy ===== *)
theory GoPrelude
  imports Main "HOL-Library.Word"
begin

text \<open>
  What every component of the development shares: the outcome of a Go call (a value, an error
  value, a run-time panic, or a call that never returns), the bounds-checked slice operations of
  the language, the gRPC status codes the handlers return, and generic lemmas about them.

  A Go function of type \<open>func(...) (T, error)\<close> is a function into \<open>('e, 'a) go_result\<close>:
  \<open>Return x\<close> is \<open>(x, nil)\<close>, \<open>Fails e\<close> is \<open>(nil, e)\<close>, \<open>Panics p\<close> is a run-time panic and
  \<open>Blocks\<close> is a call that blocks forever. For the gRPC handlers the error is a status, and the
  type is \<open>'a outcome\<close>.
\<close>

type_synonym u8 = "8 word"
type_synonym u32 = "32 word"
type_synonym u64 = "64 word"
type_synonym i32 = "32 word"
type_synonym bytes = "8 word list"

section \<open>Outcomes of a call\<close>

datatype go_panic =
    IndexOutOfRange
  | SliceBoundsOutOfRange
  | IntegerDivideByZero
  | NilPointerDereference
  | MakeSliceCapOutOfRange
  | InvalidRandArgument
  | SendOnClosedChannel
  | CloseOfClosedChannel
  | NegativeWaitGroupCounter
  | PanicWithError
  | LogFatal

datatype code =
    InvalidArgument
  | NotFound
  | Internal
  | Unavailable
  | OtherCode nat

text \<open>A gRPC status: its code, and the message handed to \<open>status.Error\<close>.\<close>

datatype grpc_status = Status (st_code: code) (st_message: string)

datatype ('e, 'a) go_result =
    Return 'a
  | Fails 'e
  | Panics go_panic
  | Blocks

type_synonym 'a outcome = "(grpc_status, 'a) go_result"

named_theorems go_simps
named_theorems invar_intros

fun bind_go :: "('e, 'a) go_result \<Rightarrow> ('a \<Rightarrow> ('e, 'b) go_result) \<Rightarrow> ('e, 'b) go_result" where
  "bind_go (Return x) f = f x"
| "bind_go (Fails e) f = Fails e"
| "bind_go (Panics p) f = Panics p"
| "bind_go Blocks f = Blocks"

lemma bind_go_Return_iff:
  "bind_go m f = Return y \<longleftrightarrow> (\<exists>x. m = Return x \<and> f x = Return y)"
  by (cases m) auto

lemma bind_go_assoc:
  "bind_go (bind_go m f) g = bind_go m (\<lambda>x. bind_go (f x) g)"
  by (cases m) auto

lemma bind_go_cong [fundef_cong]:
  assumes "m = m'" and "\<And>x. m' = Return x \<Longrightarrow> f x = g x"
  shows "bind_go m f = bind_go m' g"
  using assms by (cases m') auto

definition returns :: "('e, 'a) go_result \<Rightarrow> bool" where
  "returns m \<longleftrightarrow> (case m of Return _ \<Rightarrow> True | _ \<Rightarrow> False)"

lemma returns_simps [simp]:
  "returns (Return x)" "\<not> returns (Fails e)" "\<not> returns (Panics p)" "\<not> returns Blocks"
  by (simp_all add: returns_def)

lemma returnsE:
  assumes "returns m"
  obtains x where "m = Return x"
  using assms by (cases m) auto

text \<open>A call that neither panics nor blocks: it returns a value or an error.\<close>

definition safe :: "('e, 'a) go_result \<Rightarrow> bool" where
  "safe m \<longleftrightarrow> (case m of Panics _ \<Rightarrow> False | Blocks \<Rightarrow> False | _ \<Rightarrow> True)"

lemma safe_simps [simp]:
  "safe (Return x)" "safe (Fails e)" "\<not> safe (Panics p)" "\<not> safe Blocks"
  by (simp_all add: safe_def)

lemma safe_bind [invar_intros]:
  "safe m \<Longrightarrow> (\<And>x. m = Return x \<Longrightarrow> safe (f x)) \<Longrightarrow> safe (bind_go m f)"
  by (cases m) auto

text \<open>A \<open>for\<close> loop whose body may end the call; the loop variable runs over a list.\<close>

fun for_go :: "('x \<Rightarrow> 's \<Rightarrow> ('e, 's) go_result) \<Rightarrow> 'x list \<Rightarrow> 's \<Rightarrow> ('e, 's) go_result" where
  "for_go body [] s = Return s"
| "for_go body (x # xs) s = bind_go (body x s) (for_go body xs)"

lemma for_go_append: "for_go body (xs @ ys) s = bind_go (for_go body xs s) (for_go body ys)"
proof (induction xs arbitrary: s)
  case (Cons x xs)
  then show ?case by (cases "body x s") simp_all
qed simp

text \<open>What the body keeps, the loop keeps.\<close>

lemma for_go_invariant:
  assumes "for_go body xs s = Return t" and "P s"
    and "\<And>x s t. x \<in> set xs \<Longrightarrow> P s \<Longrightarrow> body x s = Return t \<Longrightarrow> P t"
  shows "P t"
  using assms
proof (induction xs arbitrary: s)
  case (Cons x xs)
  obtain u where u: "body x s = Return u" "for_go body xs u = Return t"
    using Cons.prems(1) by (auto simp: bind_go_Return_iff)
  have "P u" using Cons.prems(3) [OF _ Cons.prems(2) u(1)] by simp
  then show ?case by (rule Cons.IH [OF u(2)]) (auto intro: Cons.prems(3))
qed simp

section \<open>Slices\<close>

text \<open>
  Indexing and reslicing check their bounds at run time. Every slice here has its capacity equal
  to its length, so the upper bound of a reslice is the length.
\<close>

definition idx_get :: "'a list \<Rightarrow> nat \<Rightarrow> ('e, 'a) go_result" where
  "idx_get xs i = (if i < length xs then Return (xs ! i) else Panics IndexOutOfRange)"

definition idx_set :: "'a list \<Rightarrow> nat \<Rightarrow> 'a \<Rightarrow> ('e, 'a list) go_result" where
  "idx_set xs i v = (if i < length xs then Return (xs[i := v]) else Panics IndexOutOfRange)"

definition go_slice :: "'a list \<Rightarrow> nat \<Rightarrow> nat \<Rightarrow> ('e, 'a list) go_result" where
  "go_slice xs lo hi =
     (if lo \<le> hi \<and> hi \<le> length xs then Return (take (hi - lo) (drop lo xs))
      else Panics SliceBoundsOutOfRange)"

text \<open>\<open>copy(dst[lo:hi], src)\<close>: copies the shorter of the two lengths.\<close>

definition go_copy :: "'a list \<Rightarrow> nat \<Rightarrow> nat \<Rightarrow> 'a list \<Rightarrow> ('e, 'a list) go_result" where
  "go_copy dst lo hi src =
     (if lo \<le> hi \<and> hi \<le> length dst
      then let k = min (hi - lo) (length src) in Return (take lo dst @ take k src @ drop (lo + k) dst)
      else Panics SliceBoundsOutOfRange)"

definition go_mod :: "nat \<Rightarrow> nat \<Rightarrow> ('e, nat) go_result" where
  "go_mod a b = (if b = 0 then Panics IntegerDivideByZero else Return (a mod b))"

lemma idx_get_ok [go_simps]: "i < length xs \<Longrightarrow> idx_get xs i = Return (xs ! i)"
  by (simp add: idx_get_def)

lemma idx_set_ok [go_simps]: "i < length xs \<Longrightarrow> idx_set xs i v = Return (xs[i := v])"
  by (simp add: idx_set_def)

lemma go_slice_ok [go_simps]:
  "lo \<le> hi \<Longrightarrow> hi \<le> length xs \<Longrightarrow> go_slice xs lo hi = Return (take (hi - lo) (drop lo xs))"
  by (simp add: go_slice_def)

lemma go_slice_tail: "length xs = n \<Longrightarrow> go_slice (xs @ ys) n (length (xs @ ys)) = Return ys"
  by (simp add: go_slice_def)

lemma go_slice_front: "length xs = n \<Longrightarrow> go_slice (xs @ ys) 0 n = Return xs"
  by (auto simp: go_slice_def)

lemma go_mod_ok [go_simps]: "0 < b \<Longrightarrow> go_mod a b = Return (a mod b)"
  by (simp add: go_mod_def)

lemma go_copy_ok [go_simps]:
  assumes "lo \<le> hi" and "hi \<le> length dst" and "length src = hi - lo"
  shows "go_copy dst lo hi src = Return (take lo dst @ src @ drop hi dst)"
  using assms by (simp add: go_copy_def Let_def)

lemma length_go_copy:
  "go_copy dst lo hi src = Return r \<Longrightarrow> length r = length dst"
  by (auto simp: go_copy_def Let_def split: if_splits)

lemma safe_idx_get: "i < length xs \<Longrightarrow> safe (idx_get xs i)"
  by (simp add: idx_get_def)

lemma safe_idx_set: "i < length xs \<Longrightarrow> safe (idx_set xs i v)"
  by (simp add: idx_set_def)

lemma safe_go_slice: "lo \<le> hi \<Longrightarrow> hi \<le> length xs \<Longrightarrow> safe (go_slice xs lo hi)"
  by (simp add: go_slice_def)

lemma safe_go_copy: "lo \<le> hi \<Longrightarrow> hi \<le> length dst \<Longrightarrow> safe (go_copy dst lo hi src)"
  by (simp add: go_copy_def Let_def)

lemma length_idx_set: "idx_set xs i v = Return ys \<Longrightarrow> length ys = length xs"
  by (auto simp: idx_set_def split: if_splits)

lemma length_go_slice: "go_slice xs lo hi = Return ys \<Longrightarrow> length ys = hi - lo"
  by (auto simp: go_slice_def split: if_splits)

section \<open>Duplicate removal by a seen-set\<close>

text \<open>
  The loop shared by both copies of \<open>deduplicateIds\<close>: \<open>seen\<close> is the \<open>set\<close> map of the source, the
  result the \<open>deduped\<close> slice from here on.
\<close>

fun dedup_loop :: "'a set \<Rightarrow> 'a list \<Rightarrow> 'a list" where
  "dedup_loop seen [] = []"
| "dedup_loop seen (x # xs) =
     (if x \<in> seen then dedup_loop seen xs else x # dedup_loop (insert x seen) xs)"

lemma set_dedup_loop [simp]: "set (dedup_loop seen xs) = set xs - seen"
  by (induction seen xs rule: dedup_loop.induct) auto

lemma distinct_dedup_loop [simp]: "distinct (dedup_loop seen xs)"
  by (induction seen xs rule: dedup_loop.induct) auto

lemma length_dedup_loop_le: "length (dedup_loop seen xs) \<le> length xs"
  by (induction seen xs rule: dedup_loop.induct) auto

lemma dedup_loop_id:
  "distinct xs \<Longrightarrow> set xs \<inter> seen = {} \<Longrightarrow> dedup_loop seen xs = xs"
  by (induction seen xs rule: dedup_loop.induct) auto

lemma length_dedup_loop_eq:
  "length (dedup_loop seen xs) = length xs \<Longrightarrow> distinct xs \<and> set xs \<inter> seen = {}"
proof (induction seen xs rule: dedup_loop.induct)
  case (2 seen x xs)
  show ?case
  proof (cases "x \<in> seen")
    case True
    then show ?thesis
      using "2.prems" length_dedup_loop_le [of seen xs] by simp
  next
    case False
    then show ?thesis using "2.IH"(2) [OF False] "2.prems" by auto
  qed
qed simp

text \<open>The order of first occurrences is kept: removing duplicates of a prefix gives a prefix.\<close>

lemma dedup_loop_append:
  "dedup_loop seen (xs @ ys) = dedup_loop seen xs @ dedup_loop (seen \<union> set xs) ys"
proof (induction seen xs rule: dedup_loop.induct)
  case (2 seen x xs)
  then show ?case by (simp add: insert_absorb)
qed simp

section \<open>Counting goroutines\<close>

text \<open>How the number of goroutines at certain control points changes when one of them moves.\<close>

lemma finite_where_update:
  assumes "finite {k. P (f k)}"
  shows "finite {k. P ((f(g := y)) k)}"
proof (rule finite_subset)
  show "{k. P ((f(g := y)) k)} \<subseteq> insert g {k. P (f k)}" by auto
  show "finite (insert g {k. P (f k)})" using assms by simp
qed

lemma card_where_update:
  assumes "finite {k. P (f k)}"
  shows "(of_nat (card {k. P ((f(g := y)) k)}) :: 'r :: ring_1) =
    of_nat (card {k. P (f k)}) + of_bool (P y) - of_bool (P (f g))"
proof -
  let ?A = "{k. P (f k)}"
  have set: "{k. P ((f(g := y)) k)} = (if P y then insert g (?A - {g}) else ?A - {g})" by auto
  have rest: "(of_nat (card ?A) :: 'r) = of_nat (card (?A - {g})) + of_bool (P (f g))"
    using card.remove [OF assms, of g] by (cases "P (f g)") simp_all
  have "card (insert g (?A - {g})) = Suc (card (?A - {g}))"
    by (rule card_insert_disjoint) (use assms in simp_all)
  then have "(of_nat (card {k. P ((f(g := y)) k)}) :: 'r) = of_nat (card (?A - {g})) + of_bool (P y)"
    unfolding set by (cases "P y") (simp_all only: if_True if_False of_nat_Suc, simp_all)
  then show ?thesis unfolding rest by simp
qed

section \<open>Unsigned wrap-around\<close>

lemma word_add_minus_one: "(x :: u64) + 1 + not 0 = x"
  by simp

end
