(* ===== verification/FifoQueue.thy ===== *)
theory FifoQueue
  imports GoPrelude
begin

text \<open>
  lab0/queue.go: the unbounded ring-buffer queue \<open>Queue[T]\<close>, refined to a list, and the
  mutex-protected \<open>ConcurrentQueue[T]\<close> as a step relation of any number of goroutines.

  Every index, reslice, copy and remainder of the source is the checked operation of GoPrelude, so
  a panic would be visible. Go's \<open>int\<close> fields are natural numbers: the invariant keeps them
  non-negative, and the doubling of \<open>size\<close> overflows 64 bits only with 2^62 elements in memory.
  The zero value of the type parameter is the argument \<open>z\<close>.
\<close>

section \<open>The ring buffer\<close>

record 'a Queue =
  head :: nat
  firstEmpty :: nat
  numElements :: nat
  buf :: "'a list"
  qsize :: nat

definition NewQueue :: "'a \<Rightarrow> 'a Queue" where
  "NewQueue z = \<lparr>head = 0, firstEmpty = 0, numElements = 0, buf = replicate 8 z, qsize = 8\<rparr>"

definition Push :: "'a \<Rightarrow> 'a \<Rightarrow> 'a Queue \<Rightarrow> 'a Queue outcome" where
  "Push z t q =
     (if numElements q < qsize q then
        bind_go (idx_set (buf q) (firstEmpty q) t) (\<lambda>b.
        bind_go (go_mod (firstEmpty q + 1) (qsize q)) (\<lambda>fe.
          Return (q\<lparr>buf := b, firstEmpty := fe, numElements := numElements q + 1\<rparr>)))
      else
        let tmp = replicate (qsize q * 2) z;
            n = qsize q - head q
        in
        bind_go (go_slice (buf q) (head q) (head q + n)) (\<lambda>s1.
        bind_go (go_copy tmp 0 n s1) (\<lambda>tmp.
        bind_go (go_slice (buf q) 0 (firstEmpty q)) (\<lambda>s2.
        bind_go (go_copy tmp n (n + firstEmpty q) s2) (\<lambda>tmp.
        let q = q\<lparr>head := 0, firstEmpty := qsize q, buf := tmp, qsize := qsize q * 2\<rparr>
        in bind_go (idx_set (buf q) (firstEmpty q) t) (\<lambda>b.
             Return (q\<lparr>buf := b, firstEmpty := firstEmpty q + 1,
                       numElements := numElements q + 1\<rparr>)))))))"

definition Pop :: "'a \<Rightarrow> 'a Queue \<Rightarrow> ('a Queue \<times> 'a \<times> bool) outcome" where
  "Pop z q =
     (if numElements q = 0 then Return (q, z, False)
      else bind_go (idx_get (buf q) (head q)) (\<lambda>out.
           bind_go (go_mod (head q + 1) (qsize q)) (\<lambda>h.
             Return (q\<lparr>head := h, numElements := numElements q - 1\<rparr>, out, True))))"

subsection \<open>Representation invariant and abstraction\<close>

definition queue_ok :: "'a Queue \<Rightarrow> bool" where
  "queue_ok q \<longleftrightarrow>
     8 \<le> qsize q \<and> length (buf q) = qsize q \<and> head q < qsize q \<and> numElements q \<le> qsize q \<and>
     firstEmpty q = (head q + numElements q) mod qsize q"

definition contents :: "'a Queue \<Rightarrow> 'a list" where
  "contents q = map (\<lambda>i. buf q ! ((head q + i) mod qsize q)) [0..<numElements q]"

lemma length_contents [simp]: "length (contents q) = numElements q"
  by (simp add: contents_def)

lemma contents_nth [simp]:
  "i < numElements q \<Longrightarrow> contents q ! i = buf q ! ((head q + i) mod qsize q)"
  by (simp add: contents_def)

lemma NewQueue_ok: "queue_ok (NewQueue z)"
  by (simp add: queue_ok_def NewQueue_def)

lemma contents_NewQueue [simp]: "contents (NewQueue z) = []"
  by (simp add: contents_def NewQueue_def)

lemma mod_ring_neq:
  fixes h :: nat
  assumes "i < n" and "n < s"
  shows "(h + i) mod s \<noteq> (h + n) mod s"
proof
  assume "(h + i) mod s = (h + n) mod s"
  then have "s dvd (h + n) - (h + i)"
    using assms by (metis add_le_cancel_left less_imp_le_nat mod_eq_dvd_iff_nat)
  then have "s dvd n - i" by simp
  then show False using assms by (auto dest: dvd_imp_le)
qed

lemma Push_room:
  assumes ok: "queue_ok q" and room: "numElements q < qsize q"
  shows "\<exists>q'. Push z t q = Return q' \<and> queue_ok q' \<and> contents q' = contents q @ [t]"
proof -
  let ?q = "q\<lparr>buf := (buf q)[firstEmpty q := t],
              firstEmpty := (firstEmpty q + 1) mod qsize q, numElements := numElements q + 1\<rparr>"
  have fe: "firstEmpty q < length (buf q)" and pos: "0 < qsize q"
    using ok by (auto simp: queue_ok_def)
  have "Push z t q = Return ?q"
    using room fe pos by (simp add: Push_def go_simps)
  moreover have "queue_ok ?q"
    using ok room by (auto simp: queue_ok_def mod_Suc_eq)
  moreover have "contents ?q = contents q @ [t]"
  proof (rule nth_equalityI)
    fix i assume "i < length (contents ?q)"
    then have i: "i \<le> numElements q" by simp
    show "contents ?q ! i = (contents q @ [t]) ! i"
    proof (cases "i = numElements q")
      case True
      then show ?thesis using ok fe by (simp add: nth_append queue_ok_def)
    next
      case False
      then show ?thesis
        using i ok room mod_ring_neq [of i "numElements q" "qsize q" "head q"]
        by (simp add: nth_append queue_ok_def)
    qed
  qed simp
  ultimately show ?thesis by blast
qed

text \<open>A full buffer is unrolled from \<open>head\<close>: the copied prefix is exactly the old contents.\<close>

lemma contents_full:
  assumes ok: "queue_ok q" and full: "numElements q = qsize q"
  shows "contents q = drop (head q) (buf q) @ take (head q) (buf q)"
proof (rule nth_equalityI)
  show "length (contents q) = length (drop (head q) (buf q) @ take (head q) (buf q))"
    using ok full by (simp add: queue_ok_def)
next
  fix i assume "i < length (contents q)"
  then have i: "i < qsize q" using full by simp
  show "contents q ! i = (drop (head q) (buf q) @ take (head q) (buf q)) ! i"
  proof (cases "i < qsize q - head q")
    case True
    then show ?thesis using i ok full by (simp add: queue_ok_def nth_append)
  next
    case False
    have "head q + i - qsize q < qsize q"
      using i ok by (auto simp: queue_ok_def)
    then have m: "(head q + i) mod qsize q = head q + i - qsize q"
      using False i ok by (simp add: queue_ok_def le_mod_geq)
    have "length (drop (head q) (buf q)) \<le> i" and "head q + i - qsize q < head q"
      using False i ok by (auto simp: queue_ok_def)
    then show ?thesis using i ok full m
      by (simp add: queue_ok_def nth_append add.commute)
  qed
qed

lemma Push_full:
  assumes ok: "queue_ok q" and full: "numElements q = qsize q"
  shows "\<exists>q'. Push z t q = Return q' \<and> queue_ok q' \<and> contents q' = contents q @ [t]"
proof -
  have len: "length (buf q) = qsize q" and h: "head q < qsize q" and fe: "firstEmpty q = head q"
    using ok full by (auto simp: queue_ok_def)
  let ?n = "qsize q"
  let ?b = "contents q @ t # replicate (?n - 1) z"
  let ?q = "\<lparr>head = 0, firstEmpty = ?n + 1, numElements = ?n + 1, buf = ?b, qsize = ?n * 2\<rparr>"
  have split: "contents q = drop (head q) (buf q) @ take (head q) (buf q)"
    using contents_full [OF ok full] .
  have rep: "(contents q @ replicate ?n z)[?n := t] = ?b"
    using h full by (cases "qsize q") (auto simp: list_update_append)
  have "Push z t q = Return ?q"
    using len h fe full rep split
    by (simp add: Push_def go_simps Let_def)
  moreover have "queue_ok ?q"
    using ok by (simp add: queue_ok_def full)
  moreover have "contents ?q = contents q @ [t]"
    using full h by (intro nth_equalityI) (auto simp: nth_append)
  ultimately show ?thesis by blast
qed

lemma Push_correct:
  assumes ok: "queue_ok q"
  shows "\<exists>q'. Push z t q = Return q' \<and> queue_ok q' \<and> contents q' = contents q @ [t]"
proof (cases "numElements q < qsize q")
  case True
  with ok show ?thesis by (rule Push_room)
next
  case False
  then have "numElements q = qsize q" using ok by (simp add: queue_ok_def)
  with ok show ?thesis by (rule Push_full)
qed

lemma Pop_empty:
  assumes "contents q = []"
  shows "Pop z q = Return (q, z, False)"
proof -
  have "numElements q = 0" using assms by (metis length_contents list.size(3))
  then show ?thesis by (simp add: Pop_def)
qed

lemma Pop_cons:
  assumes ok: "queue_ok q" and c: "contents q = x # xs"
  shows "\<exists>q'. Pop z q = Return (q', x, True) \<and> queue_ok q' \<and> contents q' = xs"
proof -
  let ?q = "q\<lparr>head := (head q + 1) mod qsize q, numElements := numElements q - 1\<rparr>"
  have ne: "numElements q = Suc (length xs)" using c by (metis length_contents length_Cons)
  have h: "head q < length (buf q)" and pos: "0 < qsize q" using ok by (auto simp: queue_ok_def)
  have x: "buf q ! head q = x"
    using c contents_nth [of 0 q] ne ok by (simp add: queue_ok_def)
  have "Pop z q = Return (?q, x, True)"
    using ne h pos x by (simp add: Pop_def go_simps)
  moreover have "queue_ok ?q"
    using ok ne by (auto simp: queue_ok_def mod_add_left_eq)
  moreover have "contents ?q = xs"
  proof (rule nth_equalityI)
    fix i assume "i < length (contents ?q)"
    then have i: "Suc i < numElements q" using ne by simp
    have "contents ?q ! i = buf q ! ((head q + 1 + i) mod qsize q)"
      using i by (simp add: mod_add_left_eq)
    also have "\<dots> = contents q ! Suc i" using i by simp
    finally show "contents ?q ! i = xs ! i" by (simp add: c)
  qed (use ne in simp)
  ultimately show ?thesis by blast
qed

section \<open>The FIFO contract\<close>

text \<open>
  What the two methods promise, stated over any representation: \<open>invar\<close> is the representation
  invariant, \<open>abs\<close> the abstract list. A client's calls are a list of operations; \<open>spec_run\<close> is
  their meaning on lists, \<open>run_ops\<close> their execution on the representation.
\<close>

datatype 'a qop = PushOp 'a | PopOp

datatype 'a qres = Pushed | Popped 'a bool

fun spec_op :: "'a \<Rightarrow> 'a qop \<Rightarrow> 'a list \<Rightarrow> 'a list \<times> 'a qres" where
  "spec_op z (PushOp t) xs = (xs @ [t], Pushed)"
| "spec_op z PopOp [] = ([], Popped z False)"
| "spec_op z PopOp (x # xs) = (xs, Popped x True)"

fun spec_run :: "'a \<Rightarrow> 'a qop list \<Rightarrow> 'a list \<Rightarrow> 'a list \<times> 'a qres list" where
  "spec_run z [] xs = (xs, [])"
| "spec_run z (p # ps) xs =
     (let (xs', r) = spec_op z p xs; (ys, rs) = spec_run z ps xs' in (ys, r # rs))"

fun apply_op :: "('a \<Rightarrow> 'q \<Rightarrow> 'q outcome) \<Rightarrow> ('q \<Rightarrow> ('q \<times> 'a \<times> bool) outcome) \<Rightarrow>
    'a qop \<Rightarrow> 'q \<Rightarrow> ('q \<times> 'a qres) outcome" where
  "apply_op push pop (PushOp t) q = bind_go (push t q) (\<lambda>q'. Return (q', Pushed))"
| "apply_op push pop PopOp q =
     bind_go (pop q) (\<lambda>(q', v, ok). Return (q', Popped v ok))"

fun run_ops :: "('a \<Rightarrow> 'q \<Rightarrow> 'q outcome) \<Rightarrow> ('q \<Rightarrow> ('q \<times> 'a \<times> bool) outcome) \<Rightarrow>
    'a qop list \<Rightarrow> 'q \<Rightarrow> ('q \<times> 'a qres list) outcome" where
  "run_ops push pop [] q = Return (q, [])"
| "run_ops push pop (p # ps) q =
     bind_go (apply_op push pop p q) (\<lambda>(q', r).
     bind_go (run_ops push pop ps q') (\<lambda>(q'', rs). Return (q'', r # rs)))"

locale fifo =
  fixes invar :: "'q \<Rightarrow> bool"
    and abs :: "'q \<Rightarrow> 'a list"
    and push :: "'a \<Rightarrow> 'q \<Rightarrow> 'q outcome"
    and pop :: "'q \<Rightarrow> ('q \<times> 'a \<times> bool) outcome"
    and zero_value :: 'a
  assumes push_law:
      "invar q \<Longrightarrow> \<exists>q'. push t q = Return q' \<and> invar q' \<and> abs q' = abs q @ [t]"
    and pop_empty_law: "invar q \<Longrightarrow> abs q = [] \<Longrightarrow> pop q = Return (q, zero_value, False)"
    and pop_cons_law: "invar q \<Longrightarrow> abs q = x # xs \<Longrightarrow>
      \<exists>q'. pop q = Return (q', x, True) \<and> invar q' \<and> abs q' = xs"
begin

lemma apply_op_refines:
  assumes "invar q"
  shows "\<exists>q'. apply_op push pop p q = Return (q', snd (spec_op zero_value p (abs q))) \<and>
      invar q' \<and> abs q' = fst (spec_op zero_value p (abs q))"
proof (cases p)
  case (PushOp t)
  then show ?thesis using push_law [OF assms, of t] by auto
next
  case PopOp
  show ?thesis
  proof (cases "abs q")
    case Nil
    then show ?thesis using PopOp pop_empty_law [OF assms] assms by simp
  next
    case (Cons x xs)
    then show ?thesis using PopOp pop_cons_law [OF assms Cons] by auto
  qed
qed

lemma run_ops_refines:
  assumes "invar q"
  shows "\<exists>q'. run_ops push pop ps q = Return (q', snd (spec_run zero_value ps (abs q))) \<and>
      invar q' \<and> abs q' = fst (spec_run zero_value ps (abs q))"
  using assms
proof (induction ps arbitrary: q)
  case Nil
  then show ?case by simp
next
  case (Cons p ps)
  obtain q1 where q1: "apply_op push pop p q = Return (q1, snd (spec_op zero_value p (abs q)))"
    and inv: "invar q1" and abs: "abs q1 = fst (spec_op zero_value p (abs q))"
    using apply_op_refines [OF Cons.prems, of p] by blast
  obtain q2 where "run_ops push pop ps q1 = Return (q2, snd (spec_run zero_value ps (abs q1)))"
    and "invar q2" and "abs q2 = fst (spec_run zero_value ps (abs q1))"
    using Cons.IH [OF inv] by blast
  then show ?case using q1 abs by (simp add: Let_def split: prod.split)
qed

end

interpretation ring: fifo queue_ok contents "Push z" "Pop z" z for z :: 'a
  by unfold_locales (simp_all add: Push_correct Pop_empty Pop_cons)

section \<open>ConcurrentQueue, called by one goroutine\<close>

text \<open>
  The mutex is a flag: \<open>Lock\<close> on a held mutex blocks. Each method locks, calls the method of the
  wrapped queue and unlocks; a panic inside leaves the mutex held (there is no \<open>defer\<close>).
\<close>

record 'a ConcurrentQueue =
  cq_locked :: bool
  cq_q :: "'a Queue"

definition NewConcurrentQueue :: "'a \<Rightarrow> 'a ConcurrentQueue" where
  "NewConcurrentQueue z = \<lparr>cq_locked = False, cq_q = NewQueue z\<rparr>"

definition lock :: "'a ConcurrentQueue \<Rightarrow> 'a ConcurrentQueue outcome" where
  "lock c = (if cq_locked c then Blocks else Return (c\<lparr>cq_locked := True\<rparr>))"

definition unlock :: "'a ConcurrentQueue \<Rightarrow> 'a ConcurrentQueue" where
  "unlock c = c\<lparr>cq_locked := False\<rparr>"

definition ConcurrentPush :: "'a \<Rightarrow> 'a \<Rightarrow> 'a ConcurrentQueue \<Rightarrow> 'a ConcurrentQueue outcome" where
  "ConcurrentPush z t c =
     bind_go (lock c) (\<lambda>c.
     bind_go (Push z t (cq_q c)) (\<lambda>q. Return (unlock (c\<lparr>cq_q := q\<rparr>))))"

definition ConcurrentPop :: "'a \<Rightarrow> 'a ConcurrentQueue \<Rightarrow> ('a ConcurrentQueue \<times> 'a \<times> bool) outcome" where
  "ConcurrentPop z c =
     bind_go (lock c) (\<lambda>c.
     bind_go (Pop z (cq_q c)) (\<lambda>(q, val, isEmpty). Return (unlock (c\<lparr>cq_q := q\<rparr>), val, isEmpty)))"

definition cqueue_ok :: "'a ConcurrentQueue \<Rightarrow> bool" where
  "cqueue_ok c \<longleftrightarrow> \<not> cq_locked c \<and> queue_ok (cq_q c)"

lemma ConcurrentPush_law:
  assumes "cqueue_ok c"
  shows "\<exists>c'. ConcurrentPush z t c = Return c' \<and> cqueue_ok c' \<and>
    contents (cq_q c') = contents (cq_q c) @ [t]"
  using assms Push_correct [of "cq_q c" z t]
  by (auto simp: cqueue_ok_def ConcurrentPush_def lock_def unlock_def)

lemma ConcurrentPop_empty_law:
  assumes "cqueue_ok c" and "contents (cq_q c) = []"
  shows "ConcurrentPop z c = Return (c, z, False)"
  using assms Pop_empty [of "cq_q c" z]
  by (simp add: cqueue_ok_def ConcurrentPop_def lock_def unlock_def)

lemma ConcurrentPop_cons_law:
  assumes "cqueue_ok c" and "contents (cq_q c) = x # xs"
  shows "\<exists>c'. ConcurrentPop z c = Return (c', x, True) \<and> cqueue_ok c' \<and> contents (cq_q c') = xs"
  using assms Pop_cons [of "cq_q c" x xs z]
  by (auto simp: cqueue_ok_def ConcurrentPop_def lock_def unlock_def)

interpretation mutexed: fifo cqueue_ok "\<lambda>c. contents (cq_q c)" "ConcurrentPush z" "ConcurrentPop z" z
  for z :: 'a
  by unfold_locales (simp_all add: ConcurrentPush_law ConcurrentPop_empty_law ConcurrentPop_cons_law)

end
