(* ===== verification/QueueThreads.thy ===== *)
theory QueueThreads
  imports FifoQueue
begin

text \<open>
  lab0/queue.go, \<open>ConcurrentQueue[T]\<close> under contention: any number of goroutines (numbered by
  \<open>nat\<close>) call \<open>Push\<close> and \<open>Pop\<close> on one queue, and the scheduler interleaves their atomic steps:
  the call, the lock, the body under the lock, and the unlock with the return. The field \<open>log\<close> is a
  ghost: the operations with their results, in the order of their critical sections.
\<close>

datatype 'a qpc =
    Outside
  | Waiting "'a qop"
  | Holding "'a qop"
  | Leaving "'a qop" "'a qres"

record 'a qsys =
  mu :: "nat option"
  shared :: "'a Queue"
  pcs :: "nat \<Rightarrow> 'a qpc"
  log :: "('a qop \<times> 'a qres) list"

definition qsys_init :: "'a \<Rightarrow> 'a qsys" where
  "qsys_init z = \<lparr>mu = None, shared = NewQueue z, pcs = (\<lambda>_. Outside), log = []\<rparr>"

text \<open>The steps inside \<open>Push\<close> and \<open>Pop\<close> (lock, body, unlock), labelled with the goroutine.\<close>

inductive qwork :: "'a \<Rightarrow> nat \<Rightarrow> 'a qsys \<Rightarrow> 'a qsys \<Rightarrow> bool" for z :: 'a where
  acquire: "mu s = None \<Longrightarrow> pcs s g = Waiting p \<Longrightarrow>
     qwork z g s (s\<lparr>mu := Some g, pcs := (pcs s)(g := Holding p)\<rparr>)"
| body: "pcs s g = Holding p \<Longrightarrow> apply_op (Push z) (Pop z) p (shared s) = Return (q', r) \<Longrightarrow>
     qwork z g s (s\<lparr>shared := q', pcs := (pcs s)(g := Leaving p r), log := log s @ [(p, r)]\<rparr>)"
| release: "pcs s g = Leaving p r \<Longrightarrow>
     qwork z g s (s\<lparr>mu := None, pcs := (pcs s)(g := Outside)\<rparr>)"

inductive qstep :: "'a \<Rightarrow> 'a qsys \<Rightarrow> 'a qsys \<Rightarrow> bool" for z :: 'a where
  call: "pcs s g = Outside \<Longrightarrow> qstep z s (s\<lparr>pcs := (pcs s)(g := Waiting p)\<rparr>)"
| work: "qwork z g s t \<Longrightarrow> qstep z s t"

inductive qreach :: "'a \<Rightarrow> 'a qsys \<Rightarrow> bool" for z :: 'a where
  start: "qreach z (qsys_init z)"
| step: "qreach z s \<Longrightarrow> qstep z s t \<Longrightarrow> qreach z t"

inductive_cases qwork_elim: "qwork z g s t"
inductive_cases qstep_elim: "qstep z s t"

section \<open>The invariant\<close>

definition in_section :: "'a qpc \<Rightarrow> bool" where
  "in_section p \<longleftrightarrow> (case p of Holding _ \<Rightarrow> True | Leaving _ _ \<Rightarrow> True | _ \<Rightarrow> False)"

lemma in_section_simps [simp]:
  "\<not> in_section Outside" "\<not> in_section (Waiting p)" "in_section (Holding p)" "in_section (Leaving p r)"
  by (simp_all add: in_section_def)

definition qsys_inv :: "'a \<Rightarrow> 'a qsys \<Rightarrow> bool" where
  "qsys_inv z s \<longleftrightarrow>
     (\<forall>g. in_section (pcs s g) \<longleftrightarrow> mu s = Some g) \<and> queue_ok (shared s) \<and>
     spec_run z (map fst (log s)) [] = (contents (shared s), map snd (log s))"

lemma spec_run_snoc:
  "spec_run z (ps @ [p]) xs =
     (let (ys, rs) = spec_run z ps xs; (zs, r) = spec_op z p ys in (zs, rs @ [r]))"
  by (induction ps arbitrary: xs) (auto simp: Let_def split: prod.splits)

lemma qsys_inv_init: "qsys_inv z (qsys_init z)"
  by (simp add: qsys_inv_def qsys_init_def NewQueue_ok)

lemma qwork_inv: "qwork z g s t \<Longrightarrow> qsys_inv z s \<Longrightarrow> qsys_inv z t"
proof (induction rule: qwork.induct)
  case (acquire s g p)
  then show ?case by (auto simp: qsys_inv_def)
next
  case (body s g p q' r)
  then have ok: "queue_ok (shared s)"
    and log: "spec_run z (map fst (log s)) [] = (contents (shared s), map snd (log s))"
    and pc: "\<And>h. in_section (pcs s h) \<longleftrightarrow> mu s = Some h"
    by (auto simp: qsys_inv_def)
  obtain ys r' where sp: "spec_op z p (contents (shared s)) = (ys, r')" by (rule prod.exhaust)
  from ring.apply_op_refines [OF ok, of z p] body.hyps(2) sp
  have q': "queue_ok q'" "contents q' = ys" "r = r'" by auto
  have "spec_run z (map fst (log s) @ [p]) [] = (contents q', map snd (log s) @ [r])"
    by (simp add: spec_run_snoc log sp q')
  moreover have "mu s = Some g" using body.hyps(1) pc [of g] by simp
  then have "in_section (((pcs s)(g := Leaving p r)) h) \<longleftrightarrow> mu s = Some h" for h
    using pc [of h] by simp
  ultimately show ?case using q' by (simp add: qsys_inv_def)
next
  case (release s g p r)
  then have pc: "in_section (pcs s h) \<longleftrightarrow> mu s = Some h" for h by (simp add: qsys_inv_def)
  have "mu s = Some g" using pc [of g] release.hyps by simp
  then have "\<not> in_section (((pcs s)(g := Outside)) h)" for h using pc [of h] by simp
  with release.prems show ?case by (simp add: qsys_inv_def)
qed

lemma qstep_inv: "qstep z s t \<Longrightarrow> qsys_inv z s \<Longrightarrow> qsys_inv z t"
proof (induction rule: qstep.induct)
  case (call s g p)
  then have pc: "in_section (pcs s h) \<longleftrightarrow> mu s = Some h" for h by (simp add: qsys_inv_def)
  have "in_section (((pcs s)(g := Waiting p)) h) \<longleftrightarrow> mu s = Some h" for h
    using pc [of h] call.hyps by auto
  with call.prems show ?case by (simp add: qsys_inv_def)
next
  case (work g s t)
  then show ?case by (blast intro: qwork_inv)
qed

lemma qreach_inv: "qreach z s \<Longrightarrow> qsys_inv z s"
  by (induction rule: qreach.induct) (auto intro: qsys_inv_init qstep_inv)

section \<open>Progress\<close>

lemma holder_can_move:
  assumes "qsys_inv z s" and "mu s = Some g"
  shows "\<exists>t. qwork z g s t"
proof -
  have "in_section (pcs s g)" and ok: "queue_ok (shared s)"
    using assms by (auto simp: qsys_inv_def)
  then consider p where "pcs s g = Holding p" | p r where "pcs s g = Leaving p r"
    by (cases "pcs s g") auto
  then show ?thesis
  proof cases
    case 1
    obtain q' r where "apply_op (Push z) (Pop z) p (shared s) = Return (q', r)"
      using ring.apply_op_refines [OF ok, of z p] by auto
    with 1 show ?thesis by (blast intro: qwork.body)
  next
    case 2
    then show ?thesis by (blast intro: qwork.release)
  qed
qed

lemma no_deadlock:
  assumes "qsys_inv z s" and "pcs s g \<noteq> Outside"
  shows "\<exists>h t. qwork z h s t"
proof (cases "mu s")
  case (Some h)
  then show ?thesis using holder_can_move [OF assms(1)] by blast
next
  case None
  then have "\<not> in_section (pcs s g)" using assms(1) by (simp add: qsys_inv_def)
  then obtain p where "pcs s g = Waiting p" using assms(2) by (cases "pcs s g") auto
  with None show ?thesis by (blast intro: qwork.acquire)
qed

section \<open>A concrete run\<close>

lemma qreach_push:
  "\<exists>s. qreach z s \<and> pcs s 0 = Leaving (PushOp t) Pushed \<and> log s = [(PushOp t, Pushed)]"
proof -
  let ?s0 = "qsys_init z"
  let ?s1 = "?s0\<lparr>pcs := (pcs ?s0)(0 := Waiting (PushOp t))\<rparr>"
  let ?s2 = "?s1\<lparr>mu := Some 0, pcs := (pcs ?s1)(0 := Holding (PushOp t))\<rparr>"
  have "qreach z ?s1"
    by (intro qreach.step [OF qreach.start] qstep.call) (simp add: qsys_init_def)
  then have r2: "qreach z ?s2"
    by (rule qreach.step [OF _ qstep.work [OF qwork.acquire]]) (simp_all add: qsys_init_def)
  have "queue_ok (shared ?s2)" by (simp add: qsys_init_def NewQueue_ok)
  from ring.apply_op_refines [OF this, of z "PushOp t"] obtain q'
    where "apply_op (Push z) (Pop z) (PushOp t) (shared ?s2) = Return (q', Pushed)" by auto
  then have "qwork z 0 ?s2 (?s2\<lparr>shared := q', pcs := (pcs ?s2)(0 := Leaving (PushOp t) Pushed),
      log := log ?s2 @ [(PushOp t, Pushed)]\<rparr>)"
    by (intro qwork.body) simp_all
  with r2 have "qreach z (?s2\<lparr>shared := q', pcs := (pcs ?s2)(0 := Leaving (PushOp t) Pushed),
      log := log ?s2 @ [(PushOp t, Pushed)]\<rparr>)"
    by (blast intro: qreach.step qstep.work)
  then show ?thesis by (intro exI) (auto simp: qsys_init_def)
qed

section \<open>Properties of the queues\<close>

text \<open>
  C8: \<open>Queue\<close> is a FIFO queue of unbounded capacity. For every sequence of \<open>Push\<close> and \<open>Pop\<close> calls
  on a new queue, no call panics (no index, reslice or remainder is out of range, through every
  wrap-around and every doubling of the buffer), the results are those of a list with insertion at
  the end and removal at the front, \<open>Pop\<close> on an empty queue gives the zero value and \<open>false\<close>, and
  the final buffer holds exactly the elements of that list.
\<close>
theorem queue_fifo:
  "\<exists>q. run_ops (Push z) (Pop z) ps (NewQueue z) = Return (q, snd (spec_run z ps [])) \<and>
       contents q = fst (spec_run z ps [])"
  using ring.run_ops_refines [OF NewQueue_ok, of z ps z] by auto

text \<open>
  C25: \<open>ConcurrentQueue\<close> is linearizable. In every reachable interleaving of any number of
  goroutines, at most one is between \<open>Lock\<close> and \<open>Unlock\<close>, and the results handed to the callers, in
  the order of their critical sections, are those of the sequential list specification, whose final
  list is what the shared buffer holds.
\<close>
theorem concurrent_queue_linearizable:
  assumes "qreach z s"
  shows "spec_run z (map fst (log s)) [] = (contents (shared s), map snd (log s)) \<and>
    (\<forall>g h. in_section (pcs s g) \<and> in_section (pcs s h) \<longrightarrow> g = h)"
proof -
  from assms have "qsys_inv z s" by (rule qreach_inv)
  then have "spec_run z (map fst (log s)) [] = (contents (shared s), map snd (log s))"
    and pc: "\<And>h. in_section (pcs s h) \<longleftrightarrow> mu s = Some h"
    by (simp_all add: qsys_inv_def)
  then show ?thesis by auto
qed

theorem concurrent_queue_linearizable_witness:
  "\<exists>s. qreach (0::nat) s \<and> log s = [(PushOp 7, Pushed)] \<and> contents (shared s) = [7]"
proof -
  obtain s where s: "qreach (0::nat) s" "log s = [(PushOp 7, Pushed)]"
    using qreach_push [of 0 7] by blast
  with concurrent_queue_linearizable [OF s(1)] show ?thesis by (intro exI [of _ s]) simp
qed

text \<open>
  \<open>ConcurrentQueue\<close> cannot deadlock. Whenever some goroutine is inside a \<open>Push\<close> or \<open>Pop\<close>, some
  goroutine can take its next step towards its return: the mutex is never left held by a goroutine
  that has returned, and the body under the mutex always completes.
\<close>
theorem concurrent_queue_progress:
  assumes "qreach z s" and "pcs s g \<noteq> Outside"
  shows "\<exists>h t. qwork z h s t"
  using no_deadlock [OF qreach_inv [OF assms(1)] assms(2)] .

theorem concurrent_queue_progress_witness:
  "\<exists>s h t. qreach (0::nat) s \<and> pcs s 0 = Leaving (PushOp 7) Pushed \<and> qwork 0 h s t"
proof -
  obtain s where s: "qreach (0::nat) s" "pcs s 0 = Leaving (PushOp 7) Pushed"
    using qreach_push [of 0 7] by blast
  moreover have "pcs s 0 \<noteq> Outside" using s(2) by simp
  ultimately show ?thesis using concurrent_queue_progress [OF s(1), of 0] by blast
qed

end
