(* ===== verification/SemaphoreCas.thy ===== *)
theory SemaphoreCas
  imports GoPrelude
begin

text \<open>
  lab0/semaphore.go: the counting semaphore built from one atomic \<open>int64\<close> and a compare-and-swap
  loop, shared by any number of goroutines. The counter is a 64-bit word read as two's complement;
  each atomic operation of the source is one step, and the interleaving is an explicit list of
  actions. \<open>posts\<close> and \<open>grants\<close> are ghost counters of completed \<open>Post\<close> calls and of \<open>Wait\<close> calls
  whose decrement took effect.
\<close>

section \<open>The program counter of a \<open>Wait\<close> call\<close>

datatype wpc =
    NotWaiting
  | AtSelect          \<comment> \<open>top of \<open>for !swapped\<close>, before the \<open>select\<close>\<close>
  | AtLoad            \<comment> \<open>the \<open>default\<close> branch, before \<open>s.v.Load()\<close>\<close>
  | AtCas u64         \<comment> \<open>\<open>val > 0\<close> was seen, before \<open>CompareAndSwap(val, val-1)\<close>\<close>
  | RetNil
  | RetErr

record sem =
  v :: u64
  wpcs :: "nat \<Rightarrow> wpc"
  ctxDone :: "nat \<Rightarrow> bool"
  posts :: nat
  grants :: nat

definition NewSemaphore :: sem where
  "NewSemaphore = \<lparr>v = 0, wpcs = (\<lambda>_. NotWaiting), ctxDone = (\<lambda>_. False), posts = 0, grants = 0\<rparr>"

definition Post :: "sem \<Rightarrow> sem" where
  "Post s = s\<lparr>v := v s + 1, posts := posts s + 1\<rparr>"

text \<open>
  One atomic step of the \<open>Wait\<close> of goroutine \<open>g\<close>. \<open>select\<close> with a \<open>default\<close> takes the
  \<open>ctx.Done()\<close> case exactly when the context is done.
\<close>

definition goto :: "nat \<Rightarrow> wpc \<Rightarrow> sem \<Rightarrow> sem" where
  "goto g p s = s\<lparr>wpcs := (wpcs s)(g := p)\<rparr>"

definition wait_step :: "nat \<Rightarrow> sem \<Rightarrow> sem" where
  "wait_step g s =
     (case wpcs s g of
        AtSelect \<Rightarrow> if ctxDone s g then goto g RetErr s else goto g AtLoad s
      | AtLoad \<Rightarrow> if 0 < sint (v s) then goto g (AtCas (v s)) s else goto g AtSelect s
      | AtCas val \<Rightarrow>
          if v s = val then goto g RetNil (s\<lparr>v := val - 1, grants := grants s + 1\<rparr>)
          else goto g AtSelect s
      | _ \<Rightarrow> s)"

datatype action =
    DoPost
  | CallWait nat
  | Tick nat
  | Cancel nat

text \<open>A goroutine that has returned may call \<open>Wait\<close> again.\<close>

fun sem_step :: "action \<Rightarrow> sem \<Rightarrow> sem" where
  "sem_step DoPost s = Post s"
| "sem_step (CallWait g) s =
     (case wpcs s g of
        NotWaiting \<Rightarrow> goto g AtSelect s
      | RetNil \<Rightarrow> goto g AtSelect s
      | RetErr \<Rightarrow> goto g AtSelect s
      | _ \<Rightarrow> s)"
| "sem_step (Tick g) s = wait_step g s"
| "sem_step (Cancel g) s = s\<lparr>ctxDone := (ctxDone s)(g := True)\<rparr>"

fun sem_run :: "action list \<Rightarrow> sem \<Rightarrow> sem" where
  "sem_run [] s = s"
| "sem_run (a # as) s = sem_run as (sem_step a s)"

lemma goto_simps [simp]:
  "v (goto g p s) = v s" "posts (goto g p s) = posts s" "grants (goto g p s) = grants s"
  "ctxDone (goto g p s) = ctxDone s" "wpcs (goto g p s) = (wpcs s)(g := p)"
  by (simp_all add: goto_def)

section \<open>Conservation\<close>

definition sem_inv :: "sem \<Rightarrow> bool" where
  "sem_inv s \<longleftrightarrow>
     grants s \<le> posts s \<and> sint (v s) = int (posts s) - int (grants s) \<and>
     (\<forall>g val. wpcs s g = AtCas val \<longrightarrow> 0 < sint val)"

lemma sint_succ:
  fixes x :: u64
  assumes "sint x + 1 < 2 ^ 63"
  shows "sint (x + 1) = sint x + 1"
proof -
  have "- (2 ^ 63) \<le> sint x" using sint_ge [of x] by simp
  then show ?thesis using assms
    by (simp add: sint_word_ariths signed_take_bit_int_eq_self)
qed

lemma sint_pred:
  fixes x :: u64
  assumes "0 < sint x"
  shows "sint (x - 1) = sint x - 1"
proof -
  have "sint x < 2 ^ 63" using sint_lt [of x] by simp
  then show ?thesis using assms
    by (simp add: sint_word_ariths signed_take_bit_int_eq_self)
qed

lemma sem_inv_new: "sem_inv NewSemaphore"
  by (simp add: sem_inv_def NewSemaphore_def)

lemma sem_step_posts_mono: "posts s \<le> posts (sem_step a s)"
  by (cases a) (auto simp: Post_def wait_step_def split: wpc.splits)

lemma sem_run_posts_mono: "posts s \<le> posts (sem_run as s)"
proof (induction as arbitrary: s)
  case (Cons a as)
  then show ?case using sem_step_posts_mono [of s a] le_trans by fastforce
qed simp

lemma wait_step_inv:
  assumes inv: "sem_inv s"
  shows "sem_inv (wait_step g s)"
proof (cases "wpcs s g")
  case (AtCas val)
  show ?thesis
  proof (cases "v s = val")
    case True
    have "0 < sint val" using inv AtCas unfolding sem_inv_def by blast
    with True have "0 < sint (v s)" by simp
    then have "grants s < posts s" using inv by (simp add: sem_inv_def)
    with inv True AtCas \<open>0 < sint (v s)\<close> show ?thesis
      by (auto simp: sem_inv_def wait_step_def sint_pred)
  next
    case False
    with inv AtCas show ?thesis by (auto simp: sem_inv_def wait_step_def)
  qed
qed (use inv in \<open>auto simp: sem_inv_def wait_step_def\<close>)

lemma sem_step_inv:
  assumes inv: "sem_inv s" and bound: "posts (sem_step a s) < 2 ^ 63"
  shows "sem_inv (sem_step a s)"
proof (cases a)
  case DoPost
  have "sint (v s) + 1 < 2 ^ 63"
    using inv bound DoPost by (simp add: sem_inv_def Post_def)
  then show ?thesis using inv DoPost
    by (auto simp: sem_inv_def Post_def sint_succ)
next
  case (CallWait g)
  then show ?thesis using inv by (auto simp: sem_inv_def split: wpc.splits)
next
  case (Tick g)
  then show ?thesis using inv by (simp add: wait_step_inv)
next
  case (Cancel g)
  then show ?thesis using inv by (simp add: sem_inv_def)
qed

lemma sem_run_inv:
  assumes "sem_inv s" and "posts (sem_run as s) < 2 ^ 63"
  shows "sem_inv (sem_run as s)"
  using assms
proof (induction as arbitrary: s)
  case (Cons a as)
  have "posts (sem_step a s) < 2 ^ 63"
    using Cons.prems(2) sem_run_posts_mono [of "sem_step a s" as] by simp
  then have "sem_inv (sem_step a s)" by (rule sem_step_inv [OF Cons.prems(1)])
  then show ?case using Cons.IH Cons.prems(2) by simp
qed simp

section \<open>Properties of the semaphore\<close>

text \<open>
  C27: the semaphore never grants more than it was given. In every interleaving of any number of
  goroutines calling \<open>Post\<close> and \<open>Wait\<close> and of contexts being cancelled, as long as fewer than 2^63
  posts happened, the counter is exactly posts minus granted waits, so it is never negative and a
  compare-and-swap lost to another goroutine is never counted. (The comment in \<open>Wait\<close> claims a
  single decrementing thread; the theorem needs no such restriction.)
\<close>
theorem semaphore_conservation:
  assumes "posts (sem_run as NewSemaphore) < 2 ^ 63"
  shows "grants (sem_run as NewSemaphore) \<le> posts (sem_run as NewSemaphore) \<and>
    sint (v (sem_run as NewSemaphore)) =
      int (posts (sem_run as NewSemaphore)) - int (grants (sem_run as NewSemaphore))"
  using sem_run_inv [OF sem_inv_new assms] by (simp add: sem_inv_def)

text \<open>Two waiters race for one post: both load 1, one swaps, the other goes round and is cancelled.\<close>

theorem semaphore_conservation_witness:
  "let s = sem_run [DoPost, CallWait 0, CallWait 1, Tick 0, Tick 1, Tick 0, Tick 1, Tick 1, Tick 0,
       Cancel 0, Tick 0] NewSemaphore
   in posts s = 1 \<and> grants s \<le> 1 \<and> wpcs s 0 = RetErr \<and> wpcs s 1 = RetNil"
proof -
  let ?as = "[DoPost, CallWait 0, CallWait 1, Tick 0, Tick 1, Tick 0, Tick 1, Tick 1, Tick 0,
       Cancel 0, Tick 0]"
  have p: "posts (sem_run ?as NewSemaphore) = 1"
    and pc: "wpcs (sem_run ?as NewSemaphore) 0 = RetErr" "wpcs (sem_run ?as NewSemaphore) 1 = RetNil"
    by (simp_all add: NewSemaphore_def Post_def goto_def wait_step_def)
  have "posts (sem_run ?as NewSemaphore) < 2 ^ 63" by (subst p) simp
  from semaphore_conservation [OF this] p pc show ?thesis by (simp only: Let_def)
qed

text \<open>
  \<open>Wait\<close> makes progress. A waiter at the top of its loop that runs three steps without
  interference returns: with an error at once if its context is done, and with \<open>nil\<close> after taking
  one unit if the counter is positive; with the counter at zero it has gone round the loop once
  with nothing changed.
\<close>
theorem semaphore_wait_progress:
  assumes "wpcs s g = AtSelect"
  shows "wpcs (sem_run [Tick g, Tick g, Tick g] s) g =
      (if ctxDone s g then RetErr else if 0 < sint (v s) then RetNil else AtLoad) \<and>
    v (sem_run [Tick g, Tick g, Tick g] s) =
      (if \<not> ctxDone s g \<and> 0 < sint (v s) then v s - 1 else v s)"
  using assms by (simp add: wait_step_def)

theorem semaphore_wait_progress_witness:
  "wpcs (sem_run [Tick 3, Tick 3, Tick 3] (sem_run [DoPost, CallWait 3] NewSemaphore)) 3 = RetNil"
proof -
  let ?s = "sem_run [DoPost, CallWait 3] NewSemaphore"
  have "wpcs ?s 3 = AtSelect" and "\<not> ctxDone ?s 3" and "0 < sint (v ?s)"
    by (simp_all add: NewSemaphore_def Post_def)
  with semaphore_wait_progress [of ?s 3] show ?thesis by simp
qed

end
