(* ===== verification/MergeChan.thy ===== *)
theory MergeChan
  imports GoPrelude
begin

text \<open>
  lab0/merge_channels.go, \<open>MergeChannels\<close> and \<open>MergeChannelsOrCancel\<close>: one goroutine that selects
  between two input channels and sends what it receives to \<open>out\<close>.

  An input channel is the list of values sent and not yet received (a blocked sender's value
  included) and whether it is closed. The output channel is the list of values sent so far, whether
  it is closed, and \<open>room\<close>, the number of sends it can take now: free buffer slots plus waiting
  receivers. Producers, the closing of the inputs, receivers of \<open>out\<close> and the cancellation of the
  context are environment steps, interleaved at will. \<open>a = nil\<close> of the source is \<open>a_nil\<close>. The ghost
  fields \<open>got_a\<close> and \<open>got_b\<close> record what was received from each channel.
\<close>

section \<open>State\<close>

datatype 'a mpc =
    AtSelect
  | Sending 'a
  | ReturnedNil
  | ReturnedErr

record 'a merge =
  qa :: "'a list"
  a_closed :: bool
  a_nil :: bool
  qb :: "'a list"
  b_closed :: bool
  b_nil :: bool
  mpc :: "'a mpc"
  sent :: "'a list"
  out_closed :: bool
  room :: nat
  ctx_done :: bool
  got_a :: "'a list"
  got_b :: "'a list"

definition merge_init :: "nat \<Rightarrow> 'a merge" where
  "merge_init cap =
     \<lparr>qa = [], a_closed = False, a_nil = False, qb = [], b_closed = False, b_nil = False,
      mpc = AtSelect, sent = [], out_closed = False, room = cap, ctx_done = False,
      got_a = [], got_b = []\<rparr>"

text \<open>
  The end of the loop body: \<open>if a == nil && b == nil { return }\<close>, where the deferred \<open>close(out)\<close>
  runs on the way out.
\<close>

definition loop_end :: "'a merge \<Rightarrow> 'a merge" where
  "loop_end s =
     (if a_nil s \<and> b_nil s then s\<lparr>mpc := ReturnedNil, out_closed := True\<rparr>
      else s\<lparr>mpc := AtSelect\<rparr>)"

section \<open>The goroutine's steps\<close>

text \<open>
  A receive from a nil channel is never ready. A receive from a closed and drained channel gives
  \<open>ok = false\<close>.
\<close>

inductive MergeChannels_step :: "'a merge \<Rightarrow> 'a merge \<Rightarrow> bool" where
  recv_a: "mpc s = AtSelect \<Longrightarrow> \<not> a_nil s \<Longrightarrow> qa s = x # xs \<Longrightarrow>
     MergeChannels_step s (s\<lparr>qa := xs, got_a := got_a s @ [x], mpc := Sending x\<rparr>)"
| end_a: "mpc s = AtSelect \<Longrightarrow> \<not> a_nil s \<Longrightarrow> qa s = [] \<Longrightarrow> a_closed s \<Longrightarrow>
     MergeChannels_step s (loop_end (s\<lparr>a_nil := True\<rparr>))"
| recv_b: "mpc s = AtSelect \<Longrightarrow> \<not> b_nil s \<Longrightarrow> qb s = x # xs \<Longrightarrow>
     MergeChannels_step s (s\<lparr>qb := xs, got_b := got_b s @ [x], mpc := Sending x\<rparr>)"
| end_b: "mpc s = AtSelect \<Longrightarrow> \<not> b_nil s \<Longrightarrow> qb s = [] \<Longrightarrow> b_closed s \<Longrightarrow>
     MergeChannels_step s (loop_end (s\<lparr>b_nil := True\<rparr>))"
| send: "mpc s = Sending x \<Longrightarrow> 0 < room s \<Longrightarrow>
     MergeChannels_step s (loop_end (s\<lparr>sent := sent s @ [x], room := room s - 1\<rparr>))"

text \<open>
  \<open>MergeChannelsOrCancel\<close> has the same loop with one more case in the \<open>select\<close>; among ready cases
  the choice is arbitrary, so a done context does not exclude a receive.
\<close>

inductive MergeChannelsOrCancel_step :: "'a merge \<Rightarrow> 'a merge \<Rightarrow> bool" where
  cancelled: "mpc s = AtSelect \<Longrightarrow> ctx_done s \<Longrightarrow>
     MergeChannelsOrCancel_step s (s\<lparr>mpc := ReturnedErr, out_closed := True\<rparr>)"
| loop: "MergeChannels_step s t \<Longrightarrow> MergeChannelsOrCancel_step s t"

inductive env_step :: "'a merge \<Rightarrow> 'a merge \<Rightarrow> bool" where
  produce_a: "\<not> a_closed s \<Longrightarrow> env_step s (s\<lparr>qa := qa s @ [x]\<rparr>)"
| close_a: "env_step s (s\<lparr>a_closed := True\<rparr>)"
| produce_b: "\<not> b_closed s \<Longrightarrow> env_step s (s\<lparr>qb := qb s @ [x]\<rparr>)"
| close_b: "env_step s (s\<lparr>b_closed := True\<rparr>)"
| receive_out: "env_step s (s\<lparr>room := room s + 1\<rparr>)"
| cancel: "env_step s (s\<lparr>ctx_done := True\<rparr>)"

text \<open>
  Every run of \<open>MergeChannels\<close> is one of \<open>MergeChannelsOrCancel\<close> that never takes the extra case, so
  the safety facts are proved once, for the larger set of runs.
\<close>

inductive merge_reach :: "nat \<Rightarrow> 'a merge \<Rightarrow> bool" for cap :: nat where
  start: "merge_reach cap (merge_init cap)"
| own: "merge_reach cap s \<Longrightarrow> MergeChannelsOrCancel_step s t \<Longrightarrow> merge_reach cap t"
| env: "merge_reach cap s \<Longrightarrow> env_step s t \<Longrightarrow> merge_reach cap t"

inductive_cases own_elim: "MergeChannels_step s t"

section \<open>Interleavings\<close>

lemma shuffles_snoc_left:
  "zs \<in> shuffles xs ys \<Longrightarrow> zs @ [x] \<in> shuffles (xs @ [x]) ys"
proof (induction xs ys arbitrary: zs rule: shuffles.induct)
  case (1 ys)
  have "ys @ [x] \<in> shuffles [x] ys"
    by (induction ys) (auto simp: Cons_in_shuffles_iff)
  with 1 show ?case by simp
next
  case (2 xs)
  then show ?case by simp
next
  case (3 x' xs y ys)
  then show ?case by (auto simp: Cons_in_shuffles_iff)
qed

lemma shuffles_snoc_right:
  "zs \<in> shuffles xs ys \<Longrightarrow> zs @ [y] \<in> shuffles xs (ys @ [y])"
  using shuffles_snoc_left [of zs ys xs y] shuffles_commutes by blast

section \<open>The invariant\<close>

definition pending :: "'a merge \<Rightarrow> 'a list" where
  "pending s = (case mpc s of Sending x \<Rightarrow> [x] | _ \<Rightarrow> [])"

definition returned :: "'a merge \<Rightarrow> bool" where
  "returned s \<longleftrightarrow> mpc s = ReturnedNil \<or> mpc s = ReturnedErr"

definition merge_inv :: "'a merge \<Rightarrow> bool" where
  "merge_inv s \<longleftrightarrow>
     sent s @ pending s \<in> shuffles (got_a s) (got_b s) \<and>
     (out_closed s \<longleftrightarrow> returned s) \<and>
     (a_nil s \<longrightarrow> a_closed s \<and> qa s = []) \<and>
     (b_nil s \<longrightarrow> b_closed s \<and> qb s = []) \<and>
     (mpc s = ReturnedNil \<longleftrightarrow> a_nil s \<and> b_nil s)"

lemma merge_inv_init: "merge_inv (merge_init cap)"
  by (simp add: merge_inv_def merge_init_def pending_def returned_def)

lemma MergeChannels_step_inv:
  "MergeChannels_step s t \<Longrightarrow> merge_inv s \<Longrightarrow> merge_inv t"
  by (induction rule: MergeChannels_step.induct)
    (auto simp: merge_inv_def pending_def returned_def loop_end_def
      intro: shuffles_snoc_left shuffles_snoc_right)

lemma env_step_inv: "env_step s t \<Longrightarrow> merge_inv s \<Longrightarrow> merge_inv t"
  by (induction rule: env_step.induct) (auto simp: merge_inv_def pending_def returned_def)

lemma OrCancel_step_inv:
  "MergeChannelsOrCancel_step s t \<Longrightarrow> merge_inv s \<Longrightarrow> merge_inv t"
proof (induction rule: MergeChannelsOrCancel_step.induct)
  case (cancelled s)
  then show ?case by (auto simp: merge_inv_def pending_def returned_def)
next
  case (loop s t)
  then show ?case by (rule MergeChannels_step_inv)
qed

lemma merge_reach_inv: "merge_reach cap s \<Longrightarrow> merge_inv s"
  by (induction rule: merge_reach.induct) (auto intro: merge_inv_init OrCancel_step_inv env_step_inv)

section \<open>Termination and progress\<close>

text \<open>
  What one run of the goroutine can still do on its own: two steps for each value waiting in an
  input, one for the value in hand, one for each channel not yet seen closed.
\<close>

definition work_left :: "'a merge \<Rightarrow> nat" where
  "work_left s = 2 * (length (qa s) + length (qb s)) + length (pending s)
     + (if a_nil s then 0 else 1) + (if b_nil s then 0 else 1)"

lemma MergeChannels_step_decreases:
  "MergeChannels_step s t \<Longrightarrow> work_left t < work_left s"
  by (induction rule: MergeChannels_step.induct) (auto simp: work_left_def loop_end_def pending_def)

lemma MergeChannels_enabled:
  assumes inv: "merge_inv s" and "\<not> returned s"
    and "a_closed s" and "b_closed s" and "pending s \<noteq> [] \<longrightarrow> 0 < room s"
  shows "\<exists>t. MergeChannels_step s t"
proof (cases "mpc s")
  case AtSelect
  then consider "\<not> a_nil s" | "\<not> b_nil s" using inv by (auto simp: merge_inv_def)
  then show ?thesis
  proof cases
    case 1
    then show ?thesis using AtSelect assms(3)
      by (cases "qa s") (blast intro: MergeChannels_step.intros)+
  next
    case 2
    then show ?thesis using AtSelect assms(4)
      by (cases "qb s") (blast intro: MergeChannels_step.intros)+
  qed
next
  case (Sending x)
  then have "0 < room s" using assms(5) by (simp add: pending_def)
  with Sending show ?thesis by (blast intro: MergeChannels_step.send)
qed (use assms(2) in \<open>simp_all add: returned_def\<close>)

lemma MergeChannels_step_frame:
  "MergeChannels_step s t \<Longrightarrow>
   a_closed t = a_closed s \<and> b_closed t = b_closed s \<and>
   got_a t @ qa t = got_a s @ qa s \<and> got_b t @ qb t = got_b s @ qb s \<and>
   room t + length (sent t) = room s + length (sent s)"
  by (induction rule: MergeChannels_step.induct) (auto simp: loop_end_def)

definition can_finish :: "'a merge \<Rightarrow> bool" where
  "can_finish s \<longleftrightarrow> merge_inv s \<and> mpc s \<noteq> ReturnedErr \<and> a_closed s \<and> b_closed s \<and>
     length (pending s) + length (qa s) + length (qb s) \<le> room s"

lemma can_finish_step:
  assumes "MergeChannels_step s t" and fin: "can_finish s"
  shows "can_finish t"
proof -
  have inv: "merge_inv t"
    using MergeChannels_step_inv [OF assms(1)] fin by (simp add: can_finish_def)
  show ?thesis using assms(1) fin inv
    by (induction rule: MergeChannels_step.induct) (auto simp: can_finish_def loop_end_def pending_def)
qed

lemma can_finish_steps: "MergeChannels_step\<^sup>*\<^sup>* s t \<Longrightarrow> can_finish s \<Longrightarrow> can_finish t"
  by (induction rule: rtranclp_induct) (auto intro: can_finish_step)

lemma can_finish_enabled:
  assumes "can_finish s" and "mpc s \<noteq> ReturnedNil"
  shows "\<exists>t. MergeChannels_step s t"
proof (rule MergeChannels_enabled)
  show "\<not> returned s" using assms by (simp add: returned_def can_finish_def)
  show "pending s \<noteq> [] \<longrightarrow> 0 < room s"
    using assms(1) by (cases "pending s") (auto simp: can_finish_def)
qed (use assms in \<open>simp_all add: can_finish_def\<close>)

lemma can_finish_finishes:
  "can_finish s \<Longrightarrow> \<exists>t. MergeChannels_step\<^sup>*\<^sup>* s t \<and> mpc t = ReturnedNil"
proof (induction "work_left s" arbitrary: s rule: less_induct)
  case less
  show ?case
  proof (cases "mpc s = ReturnedNil")
    case True
    then show ?thesis by blast
  next
    case False
    then obtain u where u: "MergeChannels_step s u"
      using can_finish_enabled [OF less.prems] by blast
    then obtain t where "MergeChannels_step\<^sup>*\<^sup>* u t" "mpc t = ReturnedNil"
      using less.hyps MergeChannels_step_decreases can_finish_step less.prems by blast
    then show ?thesis using u by (blast intro: converse_rtranclp_into_rtranclp)
  qed
qed

lemma MergeChannels_steps_frame:
  "MergeChannels_step\<^sup>*\<^sup>* s t \<Longrightarrow>
   got_a t @ qa t = got_a s @ qa s \<and> got_b t @ qb t = got_b s @ qb s"
  by (induction rule: rtranclp_induct) (auto dest: MergeChannels_step_frame)

section \<open>A concrete run\<close>

text \<open>One value is produced on \<open>a\<close>, received, and held in hand while \<open>out\<close> has no room.\<close>

definition stuck_state :: "nat merge" where
  "stuck_state = (merge_init 0)\<lparr>ctx_done := True, got_a := [5], mpc := Sending 5\<rparr>"

lemma stuck_state_reachable: "merge_reach 0 stuck_state"
proof -
  have "merge_reach 0 ((merge_init 0 :: nat merge)\<lparr>qa := [5]\<rparr>)"
    using merge_reach.env [OF merge_reach.start env_step.produce_a [of "merge_init 0" 5]]
    by (simp add: merge_init_def)
  then have "merge_reach 0 ((merge_init 0)\<lparr>qa := [], got_a := [5], mpc := Sending (5::nat)\<rparr>)"
    using merge_reach.own [OF _ MergeChannelsOrCancel_step.loop [OF MergeChannels_step.recv_a],
        of 0 "(merge_init 0)\<lparr>qa := [5]\<rparr>" 5 "[]"]
    by (simp add: merge_init_def)
  from merge_reach.env [OF this env_step.cancel] show ?thesis
    by (simp add: stuck_state_def merge_init_def)
qed

definition closed_state :: "nat merge" where
  "closed_state = (merge_init 1)\<lparr>qa := [5], a_closed := True, b_closed := True\<rparr>"

lemma closed_state_reachable: "merge_reach 1 closed_state"
proof -
  have "merge_reach 1 ((merge_init 1 :: nat merge)\<lparr>qa := [5]\<rparr>)"
    using merge_reach.env [OF merge_reach.start env_step.produce_a [of "merge_init 1" 5]]
    by (simp add: merge_init_def)
  from merge_reach.env [OF merge_reach.env [OF this env_step.close_a] env_step.close_b]
  show ?thesis by (simp add: closed_state_def merge_init_def)
qed

section \<open>Properties of the channel merge\<close>

text \<open>
  C30: the merge loses, invents and reorders nothing. In every reachable state of either function,
  under any behaviour of producers, receivers and context, what was sent to \<open>out\<close> followed by the
  value in hand is an interleaving of what was received from \<open>a\<close> and from \<open>b\<close>; \<open>out\<close> is closed
  exactly when the function has returned, so it never sends on the closed channel; and it returns
  \<open>nil\<close> only when both inputs are closed and drained and everything received has been sent.
\<close>
theorem merge_channels_safe:
  assumes "merge_reach cap s"
  shows "sent s @ pending s \<in> shuffles (got_a s) (got_b s) \<and>
    (out_closed s \<longleftrightarrow> mpc s = ReturnedNil \<or> mpc s = ReturnedErr) \<and>
    (mpc s = ReturnedNil \<longrightarrow> a_closed s \<and> b_closed s \<and> qa s = [] \<and> qb s = [] \<and>
       sent s \<in> shuffles (got_a s) (got_b s))"
  using merge_reach_inv [OF assms]
  by (auto simp: merge_inv_def returned_def pending_def)

theorem merge_channels_safe_witness:
  "merge_reach 0 stuck_state \<and> sent stuck_state @ [5] \<in> shuffles [5] []"
  using merge_channels_safe [OF stuck_state_reachable] stuck_state_reachable
  by (simp add: stuck_state_def merge_init_def pending_def)

text \<open>
  C31: \<open>MergeChannels\<close> terminates and delivers everything. From any reachable state with both inputs
  closed, no error return taken, and room in \<open>out\<close> for what is left, every step of the loop uses up
  work, the loop can always step until it returns, and on its return \<open>out\<close> carries an interleaving
  of everything ever sent on the two inputs.
\<close>
theorem merge_channels_completes:
  assumes "merge_reach cap s" and "a_closed s" and "b_closed s" and "mpc s \<noteq> ReturnedErr"
    and "length (pending s) + length (qa s) + length (qb s) \<le> room s"
  shows "(\<exists>t. MergeChannels_step\<^sup>*\<^sup>* s t \<and> mpc t = ReturnedNil) \<and>
    (\<forall>t. MergeChannels_step\<^sup>*\<^sup>* s t \<longrightarrow>
       (if mpc t = ReturnedNil then sent t \<in> shuffles (got_a s @ qa s) (got_b s @ qb s)
        else \<exists>u. MergeChannels_step t u \<and> work_left u < work_left t))"
proof -
  have fin: "can_finish s" using assms merge_reach_inv by (simp add: can_finish_def)
  have "if mpc t = ReturnedNil then sent t \<in> shuffles (got_a s @ qa s) (got_b s @ qb s)
        else \<exists>u. MergeChannels_step t u \<and> work_left u < work_left t"
    if st: "MergeChannels_step\<^sup>*\<^sup>* s t" for t
  proof -
    have ft: "can_finish t" using can_finish_steps [OF st fin] .
    show ?thesis
    proof (cases "mpc t = ReturnedNil")
      case True
      then have "sent t \<in> shuffles (got_a t @ qa t) (got_b t @ qb t)"
        using ft by (auto simp: can_finish_def merge_inv_def pending_def)
      then show ?thesis using True MergeChannels_steps_frame [OF st] by simp
    next
      case False
      then show ?thesis using can_finish_enabled [OF ft] MergeChannels_step_decreases by auto
    qed
  qed
  then show ?thesis using can_finish_finishes [OF fin] by blast
qed

theorem merge_channels_completes_witness:
  "\<exists>t. MergeChannels_step\<^sup>*\<^sup>* closed_state t \<and> mpc t = ReturnedNil \<and> sent t \<in> shuffles [5] []"
proof -
  have c: "a_closed closed_state" "b_closed closed_state" "mpc closed_state \<noteq> ReturnedErr"
    "length (pending closed_state) + length (qa closed_state) + length (qb closed_state)
       \<le> room closed_state"
    by (simp_all add: closed_state_def merge_init_def pending_def)
  have q: "got_a closed_state @ qa closed_state = [5]" "got_b closed_state @ qb closed_state = []"
    by (simp_all add: closed_state_def merge_init_def)
  show ?thesis
    using merge_channels_completes [OF closed_state_reachable c] unfolding q by (metis (full_types))
qed

text \<open>
  Cancelling does not interrupt a blocked send. While \<open>MergeChannelsOrCancel\<close> holds a value and
  \<open>out\<close> has no room, it has no step at all, whether or not its context is done; the cancellation is
  seen only back at the \<open>select\<close>, so with a receiver that has stopped the call never returns and
  \<open>out\<close> is never closed.
\<close>
theorem cancel_not_seen_while_sending:
  assumes "mpc s = Sending x" and "room s = 0"
  shows "\<not> (\<exists>t. MergeChannelsOrCancel_step s t)"
  using assms by (auto elim!: MergeChannelsOrCancel_step.cases MergeChannels_step.cases)

theorem cancel_not_seen_while_sending_witness:
  "merge_reach 0 stuck_state \<and> ctx_done stuck_state \<and> \<not> (\<exists>t. MergeChannelsOrCancel_step stuck_state t)"
proof -
  have "mpc stuck_state = Sending 5" "room stuck_state = 0" "ctx_done stuck_state"
    by (simp_all add: stuck_state_def merge_init_def)
  then show ?thesis
    using cancel_not_seen_while_sending [of stuck_state 5] stuck_state_reachable by simp
qed

end
