(* ===== verification/MergeFetch.thy ===== *)
theory MergeFetch
  imports MergeChan
begin

text \<open>
  lab0/merge_channels.go, \<open>MergeFetches\<close>: two goroutines that drain one \<open>Fetcher\<close> each into \<open>out\<close>,
  a \<open>sync.WaitGroup\<close>, and a deferred \<open>close(out)\<close>.

  A \<open>Fetcher\<close> is an interface the caller implements: its state has type \<open>'f\<close> and its method is the
  parameter \<open>fetch\<close>. The steps of the two goroutines, of the function waiting for them, and of the
  receivers of \<open>out\<close> interleave at will. Panics the source could raise (a send on a closed channel,
  a negative WaitGroup counter) are states of the model.
\<close>

section \<open>State and steps\<close>

datatype fpc =
    Fetching
  | HasData string
  | Finished

datatype main_pc = WaitingGroup | Done | Crashed go_panic

record 'f mf =
  fst_f :: 'f
  snd_f :: 'f
  pc1 :: fpc
  pc2 :: fpc
  wg :: nat
  main :: main_pc
  f_sent :: "string list"
  f_closed :: bool
  f_room :: nat
  got1 :: "string list"
  got2 :: "string list"
  falses1 :: nat
  falses2 :: nat

definition MergeFetches_init :: "'f \<Rightarrow> 'f \<Rightarrow> nat \<Rightarrow> 'f mf" where
  "MergeFetches_init a b cap =
     \<lparr>fst_f = a, snd_f = b, pc1 = Fetching, pc2 = Fetching, wg = 2, main = WaitingGroup,
      f_sent = [], f_closed = False, f_room = cap, got1 = [], got2 = [],
      falses1 = 0, falses2 = 0\<rparr>"

definition crashed :: "'f mf \<Rightarrow> bool" where
  "crashed s \<longleftrightarrow> (\<exists>p. main s = Crashed p)"

text \<open>\<open>out <- data\<close> and \<open>wg.Done()\<close>, each with its panic.\<close>

definition send_out :: "string \<Rightarrow> 'f mf \<Rightarrow> 'f mf" where
  "send_out d s =
     (if f_closed s then s\<lparr>main := Crashed SendOnClosedChannel\<rparr>
      else s\<lparr>f_sent := f_sent s @ [d], f_room := f_room s - 1\<rparr>)"

definition wg_done :: "'f mf \<Rightarrow> 'f mf" where
  "wg_done s =
     (if wg s = 0 then s\<lparr>main := Crashed NegativeWaitGroupCounter\<rparr> else s\<lparr>wg := wg s - 1\<rparr>)"

inductive mf_step :: "('f \<Rightarrow> 'f \<times> string \<times> bool) \<Rightarrow> 'f mf \<Rightarrow> 'f mf \<Rightarrow> bool"
  for fetch :: "'f \<Rightarrow> 'f \<times> string \<times> bool" where
  fetch1: "\<not> crashed s \<Longrightarrow> pc1 s = Fetching \<Longrightarrow> fetch (fst_f s) = (f', d, True) \<Longrightarrow>
     mf_step fetch s (s\<lparr>fst_f := f', pc1 := HasData d, got1 := got1 s @ [d]\<rparr>)"
| end1: "\<not> crashed s \<Longrightarrow> pc1 s = Fetching \<Longrightarrow> fetch (fst_f s) = (f', d, False) \<Longrightarrow>
     mf_step fetch s (wg_done (s\<lparr>fst_f := f', pc1 := Finished, falses1 := falses1 s + 1\<rparr>))"
| send1: "\<not> crashed s \<Longrightarrow> pc1 s = HasData d \<Longrightarrow> f_closed s \<or> 0 < f_room s \<Longrightarrow>
     mf_step fetch s (send_out d (s\<lparr>pc1 := Fetching\<rparr>))"
| fetch2: "\<not> crashed s \<Longrightarrow> pc2 s = Fetching \<Longrightarrow> fetch (snd_f s) = (f', d, True) \<Longrightarrow>
     mf_step fetch s (s\<lparr>snd_f := f', pc2 := HasData d, got2 := got2 s @ [d]\<rparr>)"
| end2: "\<not> crashed s \<Longrightarrow> pc2 s = Fetching \<Longrightarrow> fetch (snd_f s) = (f', d, False) \<Longrightarrow>
     mf_step fetch s (wg_done (s\<lparr>snd_f := f', pc2 := Finished, falses2 := falses2 s + 1\<rparr>))"
| send2: "\<not> crashed s \<Longrightarrow> pc2 s = HasData d \<Longrightarrow> f_closed s \<or> 0 < f_room s \<Longrightarrow>
     mf_step fetch s (send_out d (s\<lparr>pc2 := Fetching\<rparr>))"
| wait_returns: "main s = WaitingGroup \<Longrightarrow> wg s = 0 \<Longrightarrow>
     mf_step fetch s (s\<lparr>f_closed := True, main := Done\<rparr>)"
| receive: "\<not> crashed s \<Longrightarrow> mf_step fetch s (s\<lparr>f_room := f_room s + 1\<rparr>)"

inductive mf_reach :: "('f \<Rightarrow> 'f \<times> string \<times> bool) \<Rightarrow> 'f \<Rightarrow> 'f \<Rightarrow> nat \<Rightarrow> 'f mf \<Rightarrow> bool"
  for fetch :: "'f \<Rightarrow> 'f \<times> string \<times> bool" and a b :: 'f and cap :: nat where
  start: "mf_reach fetch a b cap (MergeFetches_init a b cap)"
| step: "mf_reach fetch a b cap s \<Longrightarrow> mf_step fetch s t \<Longrightarrow> mf_reach fetch a b cap t"

section \<open>The sequence a fetcher yields\<close>

text \<open>\<open>yields fetch f xs f'\<close>: calling \<open>fetch\<close> repeatedly from \<open>f\<close> gives exactly \<open>xs\<close> with \<open>true\<close>,
  and leaves the fetcher in \<open>f'\<close>.\<close>

inductive yields :: "('f \<Rightarrow> 'f \<times> string \<times> bool) \<Rightarrow> 'f \<Rightarrow> string list \<Rightarrow> 'f \<Rightarrow> bool"
  for fetch :: "'f \<Rightarrow> 'f \<times> string \<times> bool" where
  none: "yields fetch f [] f"
| more: "yields fetch f xs g \<Longrightarrow> fetch g = (h, d, True) \<Longrightarrow> yields fetch f (xs @ [d]) h"

section \<open>The invariant\<close>

definition in_hand :: "fpc \<Rightarrow> string list" where
  "in_hand p = (case p of HasData d \<Rightarrow> [d] | _ \<Rightarrow> [])"

lemma in_hand_simps [simp]:
  "in_hand Fetching = []" "in_hand (HasData d) = [d]" "in_hand Finished = []"
  by (simp_all add: in_hand_def)

definition fin :: "fpc \<Rightarrow> nat" where
  "fin p = (if p = Finished then 1 else 0)"

text \<open>
  \<open>out1\<close> and \<open>out2\<close> are what each goroutine has sent: all it got but the value in hand. The fetcher
  relations say that the values were obtained by successive calls, none after a \<open>false\<close>.
\<close>

definition mf_inv :: "('f \<Rightarrow> 'f \<times> string \<times> bool) \<Rightarrow> 'f \<Rightarrow> 'f \<Rightarrow> 'f mf \<Rightarrow> bool" where
  "mf_inv fetch a b s \<longleftrightarrow>
     \<not> crashed s \<and>
     wg s + fin (pc1 s) + fin (pc2 s) = 2 \<and>
     (f_closed s \<longleftrightarrow> main s = Done) \<and>
     (main s = Done \<longrightarrow> wg s = 0) \<and>
     falses1 s = fin (pc1 s) \<and> falses2 s = fin (pc2 s) \<and>
     (\<exists>out1 out2. got1 s = out1 @ in_hand (pc1 s) \<and> got2 s = out2 @ in_hand (pc2 s) \<and>
        f_sent s \<in> shuffles out1 out2) \<and>
     (\<exists>g. yields fetch a (got1 s) g \<and>
        (if pc1 s = Finished then \<exists>d. fetch g = (fst_f s, d, False) else g = fst_f s)) \<and>
     (\<exists>g. yields fetch b (got2 s) g \<and>
        (if pc2 s = Finished then \<exists>d. fetch g = (snd_f s, d, False) else g = snd_f s))"

lemma mf_inv_init: "mf_inv fetch a b (MergeFetches_init a b cap)"
  by (auto simp: mf_inv_def MergeFetches_init_def crashed_def fin_def intro: yields.none)

lemma fin_cases: "fin p = 0 \<or> fin p = 1"
  by (simp add: fin_def)

lemma mf_inv_step: "mf_step fetch s t \<Longrightarrow> mf_inv fetch a b s \<Longrightarrow> mf_inv fetch a b t"
proof (induction rule: mf_step.induct)
  case (fetch1 s f' d)
  then show ?case by (auto simp: mf_inv_def crashed_def fin_def intro: yields.more)
next
  case (end1 s f' d)
  then show ?case by (auto simp: mf_inv_def crashed_def fin_def wg_done_def split: if_splits)
next
  case (send1 s d)
  then have "\<not> f_closed s" by (auto simp: mf_inv_def fin_def split: if_splits)
  with send1 show ?case
    by (auto simp: mf_inv_def crashed_def fin_def send_out_def intro: shuffles_snoc_left)
next
  case (fetch2 s f' d)
  then show ?case by (auto simp: mf_inv_def crashed_def fin_def intro: yields.more)
next
  case (end2 s f' d)
  then show ?case by (auto simp: mf_inv_def crashed_def fin_def wg_done_def split: if_splits)
next
  case (send2 s d)
  then have "\<not> f_closed s" by (auto simp: mf_inv_def fin_def split: if_splits)
  with send2 show ?case
    by (auto simp: mf_inv_def crashed_def fin_def send_out_def intro: shuffles_snoc_right)
next
  case (wait_returns s)
  then show ?case by (auto simp: mf_inv_def crashed_def)
next
  case (receive s)
  then show ?case by (auto simp: mf_inv_def crashed_def)
qed

lemma mf_reach_inv: "mf_reach fetch a b cap s \<Longrightarrow> mf_inv fetch a b s"
  by (induction rule: mf_reach.induct) (auto intro: mf_inv_init mf_inv_step)

section \<open>A concrete fetcher and run\<close>

fun list_fetch :: "string list \<Rightarrow> string list \<times> string \<times> bool" where
  "list_fetch [] = ([], '''', False)"
| "list_fetch (x # xs) = (xs, x, True)"

definition drained :: "string list mf" where
  "drained = \<lparr>fst_f = [], snd_f = [], pc1 = Finished, pc2 = Finished, wg = 0, main = Done,
     f_sent = [''x''], f_closed = True, f_room = 0, got1 = [''x''], got2 = [],
     falses1 = 1, falses2 = 1\<rparr>"

lemma drained_reachable: "mf_reach list_fetch [''x''] [] 1 drained"
proof -
  let ?R = "mf_reach list_fetch [''x''] [] 1"
  let ?s0 = "MergeFetches_init [''x''] [] 1"
  let ?s1 = "?s0\<lparr>fst_f := [], pc1 := HasData ''x'', got1 := [''x'']\<rparr>"
  let ?s2 = "?s0\<lparr>fst_f := [], got1 := [''x''], f_sent := [''x''], f_room := 0\<rparr>"
  let ?s3 = "?s2\<lparr>pc1 := Finished, falses1 := 1, wg := 1\<rparr>"
  let ?s4 = "?s3\<lparr>pc2 := Finished, falses2 := 1, wg := 0\<rparr>"
  have "?R ?s1"
    using mf_reach.step [OF mf_reach.start mf_step.fetch1, of "[''x'']" "[]" 1 list_fetch "[]" "''x''"]
    by (simp add: MergeFetches_init_def crashed_def)
  then have "?R ?s2"
    using mf_reach.step [OF _ mf_step.send1 [where d = "''x''" and s = ?s1]]
    by (simp add: MergeFetches_init_def crashed_def send_out_def)
  then have "?R ?s3"
    using mf_reach.step [OF _ mf_step.end1 [where f' = "[]" and d = "''''" and s = ?s2]]
    by (simp add: MergeFetches_init_def crashed_def wg_done_def)
  then have "?R ?s4"
    using mf_reach.step [OF _ mf_step.end2 [where f' = "[]" and d = "''''" and s = ?s3]]
    by (simp add: MergeFetches_init_def crashed_def wg_done_def)
  then show ?thesis
    using mf_reach.step [OF _ mf_step.wait_returns [where s = ?s4]]
    by (simp add: MergeFetches_init_def drained_def)
qed

lemma pcs_of_calls [simp]:
  "pc1 (wg_done s) = pc1 s" "pc2 (wg_done s) = pc2 s"
  "pc1 (send_out d s) = pc1 s" "pc2 (send_out d s) = pc2 s"
  by (simp_all add: wg_done_def send_out_def)

text \<open>A step that moves a program counter is not a mere receive.\<close>

lemma moved_not_receive:
  "mf_step fetch s t \<Longrightarrow> pc1 t \<noteq> pc1 s \<or> pc2 t \<noteq> pc2 s \<or> main t \<noteq> main s \<Longrightarrow>
   \<exists>t. mf_step fetch s t \<and> t \<noteq> s\<lparr>f_room := f_room s + 1\<rparr>"
  by (intro exI [of _ t]) auto

section \<open>Properties\<close>

text \<open>
  C32: \<open>MergeFetches\<close> is correct for every pair of fetchers and every interleaving: nothing panics
  (no send after \<open>close(out)\<close>, no negative WaitGroup), \<open>Fetch\<close> is never called again after it has
  returned \<open>false\<close>, and \<open>out\<close> is closed only when both fetchers have returned \<open>false\<close> and everything
  they yielded has been sent, as an interleaving that keeps the order of each fetcher.
\<close>
theorem merge_fetches_correct:
  assumes "mf_reach fetch a b cap s"
  shows "\<not> crashed s \<and> falses1 s \<le> 1 \<and> falses2 s \<le> 1 \<and>
    (f_closed s \<longrightarrow>
       f_sent s \<in> shuffles (got1 s) (got2 s) \<and>
       (\<exists>g d. yields fetch a (got1 s) g \<and> fetch g = (fst_f s, d, False)) \<and>
       (\<exists>g d. yields fetch b (got2 s) g \<and> fetch g = (snd_f s, d, False)))"
proof -
  have inv: "mf_inv fetch a b s" using mf_reach_inv [OF assms] .
  have "pc1 s = Finished \<and> pc2 s = Finished" if "f_closed s"
    using that inv by (auto simp: mf_inv_def fin_def split: if_splits)
  then show ?thesis using inv by (auto simp: mf_inv_def fin_def split: if_splits)
qed

theorem merge_fetches_correct_witness:
  "f_closed drained \<and> (\<exists>g d. yields list_fetch [''x''] [''x''] g \<and> list_fetch g = ([], d, False))"
  using merge_fetches_correct [OF drained_reachable] by (simp add: drained_def)

text \<open>
  \<open>MergeFetches\<close> cannot deadlock. Until \<open>out\<close> is closed, whenever \<open>out\<close> can take one more value
  some step of the two goroutines or of the waiting function is enabled: the WaitGroup reaches zero
  exactly when both goroutines have finished, and the wait then returns.
\<close>
lemma merge_fetches_progress:
  assumes "mf_reach fetch a b cap s" and "\<not> f_closed s" and "0 < f_room s"
  shows "\<exists>t. mf_step fetch s t \<and> t \<noteq> s\<lparr>f_room := f_room s + 1\<rparr>"
proof -
  have inv: "mf_inv fetch a b s" using mf_reach_inv [OF assms(1)] .
  then have nc: "\<not> crashed s" and "main s \<noteq> Done"
    using assms(2) by (auto simp: mf_inv_def)
  then have main: "main s = WaitingGroup" by (cases "main s") (auto simp: crashed_def)
  obtain f' d ok where f1: "fetch (fst_f s) = (f', d, ok)" by (rule prod_cases3)
  obtain g' e okk where f2: "fetch (snd_f s) = (g', e, okk)" by (rule prod_cases3)
  consider "pc1 s = Fetching" | x where "pc1 s = HasData x" | "pc2 s = Fetching"
    | x where "pc2 s = HasData x" | "pc1 s = Finished" "pc2 s = Finished"
    by (cases "pc1 s"; cases "pc2 s") auto
  then show ?thesis
  proof cases
    case 1
    show ?thesis
    proof (cases ok)
      case True
      show ?thesis by (rule moved_not_receive [OF mf_step.fetch1 [OF nc 1, of fetch f' d]]) (use True f1 1 in simp_all)
    next
      case False
      show ?thesis by (rule moved_not_receive [OF mf_step.end1 [OF nc 1, of fetch f' d]]) (use False f1 1 in simp_all)
    qed
  next
    case (2 x)
    show ?thesis by (rule moved_not_receive [OF mf_step.send1 [OF nc 2]]) (use assms(3) 2 in simp_all)
  next
    case 3
    show ?thesis
    proof (cases okk)
      case True
      show ?thesis by (rule moved_not_receive [OF mf_step.fetch2 [OF nc 3, of fetch g' e]]) (use True f2 3 in simp_all)
    next
      case False
      show ?thesis by (rule moved_not_receive [OF mf_step.end2 [OF nc 3, of fetch g' e]]) (use False f2 3 in simp_all)
    qed
  next
    case (4 x)
    show ?thesis by (rule moved_not_receive [OF mf_step.send2 [OF nc 4]]) (use assms(3) 4 in simp_all)
  next
    case 5
    then have "wg s = 0" using inv by (simp add: mf_inv_def fin_def)
    then show ?thesis
      by (intro moved_not_receive [OF mf_step.wait_returns [OF main]]) (simp_all add: main)
  qed
qed

lemma merge_fetches_progress_witness:
  "\<exists>t. mf_step list_fetch (MergeFetches_init [''x''] [] 1) t"
  using merge_fetches_progress [OF mf_reach.start, of "[''x'']" "[]" 1 list_fetch]
  by (auto simp: MergeFetches_init_def)

end
