(* ===== verification/ParallelFetch.thy ===== *)
theory ParallelFetch
  imports GoPrelude
begin

text \<open>
  lab0/parallel_fetcher.go: \<open>ParallelFetcher\<close> bounds the number of concurrent calls of an
  underlying \<open>Fetcher\<close> by a \<open>semaphore.Weighted\<close> of golang.org/x/sync.

  The semaphore is code outside the repository: its operations are the parameters \<open>acquire\<close>
  (\<open>Acquire(context.Background(), 1)\<close>) and \<open>release\<close> (\<open>Release(1)\<close>), and \<open>weighted_ok\<close> is what its
  documentation promises about the number of units \<open>held\<close>. The underlying \<open>Fetch\<close> is a call that
  takes time: any number of steps of other goroutines may happen between its start and its end.
\<close>

section \<open>The semaphore's interface\<close>

datatype 's acquired =
    Granted 's      \<comment> \<open>returned \<open>nil\<close>\<close>
  | Refused         \<comment> \<open>returned an error\<close>
  | WouldBlock      \<comment> \<open>not returned yet\<close>

text \<open>\<open>release\<close> gives \<open>None\<close> where \<open>Release\<close> panics (more units released than held).\<close>

definition weighted_ok ::
    "('s \<Rightarrow> 's acquired) \<Rightarrow> ('s \<Rightarrow> 's option) \<Rightarrow> ('s \<Rightarrow> nat) \<Rightarrow> (nat \<Rightarrow> 's) \<Rightarrow> bool" where
  "weighted_ok acquire release held new_weighted \<longleftrightarrow>
     (\<forall>n. held (new_weighted n) = 0) \<and>
     (\<forall>s s'. acquire s = Granted s' \<longrightarrow> held s' = held s + 1) \<and>
     (\<forall>s. 0 < held s \<longrightarrow> (\<exists>s'. release s = Some s' \<and> held s = held s' + 1))"

text \<open>The size given to \<open>NewWeighted\<close> bounds what is held, and no operation changes it.\<close>

definition size_ok ::
    "('s \<Rightarrow> 's acquired) \<Rightarrow> ('s \<Rightarrow> 's option) \<Rightarrow> ('s \<Rightarrow> nat) \<Rightarrow> (nat \<Rightarrow> 's) \<Rightarrow> ('s \<Rightarrow> nat) \<Rightarrow> bool" where
  "size_ok acquire release held new_weighted size_of \<longleftrightarrow>
     (\<forall>n. size_of (new_weighted n) = n) \<and>
     (\<forall>s s'. acquire s = Granted s' \<longrightarrow> held s' \<le> size_of s \<and> size_of s' = size_of s) \<and>
     (\<forall>s s'. release s = Some s' \<longrightarrow> size_of s' = size_of s)"

section \<open>The fetcher and its steps\<close>

datatype ppc =
    PIdle
  | AtAcquire
  | InFetch
  | AtRelease string bool
  | PReturned string bool
  | PPanicked

record ('s, 'f) pf =
  fetcher :: 'f
  psem :: 's
  ppcs :: "nat \<Rightarrow> ppc"

definition NewParallelFetcher :: "(nat \<Rightarrow> 's) \<Rightarrow> 'f \<Rightarrow> nat \<Rightarrow> ('s, 'f) pf" where
  "NewParallelFetcher new_weighted f maxConcurrencyLimit =
     \<lparr>fetcher = f, psem = new_weighted maxConcurrencyLimit, ppcs = (\<lambda>_. PIdle)\<rparr>"

definition set_pc :: "nat \<Rightarrow> ppc \<Rightarrow> ('s, 'f) pf \<Rightarrow> ('s, 'f) pf" where
  "set_pc g p s = s\<lparr>ppcs := (ppcs s)(g := p)\<rparr>"

text \<open>One step of goroutine \<open>g\<close> in \<open>Fetch\<close>; \<open>fetch\<close> is the underlying fetcher's method.\<close>

definition Fetch_step :: "('s \<Rightarrow> 's acquired) \<Rightarrow> ('s \<Rightarrow> 's option) \<Rightarrow> ('f \<Rightarrow> 'f \<times> string \<times> bool) \<Rightarrow>
    nat \<Rightarrow> ('s, 'f) pf \<Rightarrow> ('s, 'f) pf" where
  "Fetch_step acquire release fetch g s =
     (case ppcs s g of
        PIdle \<Rightarrow> set_pc g AtAcquire s
      | PReturned _ _ \<Rightarrow> set_pc g AtAcquire s
      | AtAcquire \<Rightarrow>
          (case acquire (psem s) of
             Granted s' \<Rightarrow> set_pc g InFetch (s\<lparr>psem := s'\<rparr>)
           | Refused \<Rightarrow> set_pc g (PReturned [] False) s
           | WouldBlock \<Rightarrow> s)
      | InFetch \<Rightarrow>
          (case fetch (fetcher s) of (f', val, ok) \<Rightarrow> set_pc g (AtRelease val ok) (s\<lparr>fetcher := f'\<rparr>))
      | AtRelease val ok \<Rightarrow>
          (case release (psem s) of
             Some s' \<Rightarrow> set_pc g (PReturned val ok) (s\<lparr>psem := s'\<rparr>)
           | None \<Rightarrow> set_pc g PPanicked s)
      | PPanicked \<Rightarrow> s)"

text \<open>A schedule is the list of goroutines that take the next step.\<close>

fun pf_run :: "('s \<Rightarrow> 's acquired) \<Rightarrow> ('s \<Rightarrow> 's option) \<Rightarrow> ('f \<Rightarrow> 'f \<times> string \<times> bool) \<Rightarrow>
    nat list \<Rightarrow> ('s, 'f) pf \<Rightarrow> ('s, 'f) pf" where
  "pf_run acquire release fetch [] s = s"
| "pf_run acquire release fetch (g # gs) s =
     pf_run acquire release fetch gs (Fetch_step acquire release fetch g s)"

section \<open>The units held are the goroutines between acquire and release\<close>

definition holds_unit :: "ppc \<Rightarrow> bool" where
  "holds_unit p \<longleftrightarrow> (case p of InFetch \<Rightarrow> True | AtRelease _ _ \<Rightarrow> True | _ \<Rightarrow> False)"

lemma holds_unit_simps [simp]:
  "\<not> holds_unit PIdle" "\<not> holds_unit AtAcquire" "holds_unit InFetch" "holds_unit (AtRelease v k)"
  "\<not> holds_unit (PReturned v k)" "\<not> holds_unit PPanicked"
  by (simp_all add: holds_unit_def)

definition holders :: "('s, 'f) pf \<Rightarrow> nat set" where
  "holders s = {g. holds_unit (ppcs s g)}"

definition pf_inv :: "('s \<Rightarrow> nat) \<Rightarrow> ('s \<Rightarrow> nat) \<Rightarrow> nat \<Rightarrow> ('s, 'f) pf \<Rightarrow> bool" where
  "pf_inv held size_of n s \<longleftrightarrow>
     finite (holders s) \<and> card (holders s) = held (psem s) \<and> size_of (psem s) = n \<and>
     held (psem s) \<le> n \<and> (\<forall>g. ppcs s g \<noteq> PPanicked)"

lemma holders_set_pc:
  "holders (set_pc g p s) = (if holds_unit p then insert g (holders s) else holders s - {g})"
  by (auto simp: holders_def set_pc_def)

lemma holders_update [simp]:
  "holders (s\<lparr>psem := x\<rparr>) = holders s" "holders (s\<lparr>fetcher := f\<rparr>) = holders s"
  by (simp_all add: holders_def)

lemma set_pc_simps [simp]:
  "psem (set_pc g p s) = psem s" "fetcher (set_pc g p s) = fetcher s"
  "ppcs (set_pc g p s) = (ppcs s)(g := p)"
  by (simp_all add: set_pc_def)

lemma in_holders: "g \<in> holders s \<longleftrightarrow> holds_unit (ppcs s g)"
  by (simp add: holders_def)

lemma Fetch_step_inv:
  assumes sem: "weighted_ok acquire release held new_weighted"
      "size_ok acquire release held new_weighted size_of"
    and inv: "pf_inv held size_of n s"
  shows "pf_inv held size_of n (Fetch_step acquire release fetch g s)"
proof (cases "ppcs s g")
  case AtAcquire
  then have "g \<notin> holders s" by (simp add: in_holders)
  then show ?thesis using AtAcquire inv sem
    by (cases "acquire (psem s)")
      (fastforce simp: Fetch_step_def pf_inv_def holders_set_pc weighted_ok_def size_ok_def)+
next
  case InFetch
  then have "insert g (holders s) = holders s" by (auto simp: in_holders)
  then show ?thesis using InFetch inv
    by (auto simp: Fetch_step_def pf_inv_def holders_set_pc split: prod.split)
next
  case (AtRelease val ok)
  then have g: "g \<in> holders s" by (simp add: in_holders)
  then have "0 < card (holders s)" using inv unfolding pf_inv_def card_gt_0_iff by blast
  then obtain s' where "release (psem s) = Some s'" and "held (psem s) = held s' + 1"
    using sem(1) inv unfolding weighted_ok_def pf_inv_def by metis
  moreover have "card (holders s) = card (holders s - {g}) + 1"
    using inv g card_Suc_Diff1 [of "holders s" g] by (simp add: pf_inv_def)
  ultimately show ?thesis using AtRelease inv sem(2)
    by (auto simp: Fetch_step_def pf_inv_def holders_set_pc size_ok_def)
qed (use inv in \<open>auto simp: Fetch_step_def pf_inv_def holders_set_pc in_holders Diff_triv\<close>)

lemma pf_run_inv:
  assumes sem: "weighted_ok acquire release held new_weighted"
      "size_ok acquire release held new_weighted size_of"
    and inv: "pf_inv held size_of n s"
  shows "pf_inv held size_of n (pf_run acquire release fetch gs s)"
  using inv
proof (induction gs arbitrary: s)
  case (Cons g gs)
  from Fetch_step_inv [OF sem Cons.prems] show ?case by (simp add: Cons.IH)
qed simp

lemma pf_inv_new:
  assumes "weighted_ok acquire release held new_weighted"
    and "size_ok acquire release held new_weighted size_of"
  shows "pf_inv held size_of n (NewParallelFetcher new_weighted f n)"
  using assms by (simp add: pf_inv_def NewParallelFetcher_def holders_def weighted_ok_def size_ok_def)

section \<open>Properties\<close>

text \<open>
  C37: \<open>ParallelFetcher\<close> enforces its limit. For every semaphore that keeps its documented promise,
  every underlying fetcher and every schedule of any number of goroutines, at most
  \<open>maxConcurrencyLimit\<close> calls of the underlying \<open>Fetch\<close> are in progress at once, \<open>Release\<close> never
  panics, and the units held are exactly the calls between \<open>Acquire\<close> and \<open>Release\<close>, so all are given
  back once every call has returned.
\<close>
theorem parallel_fetch_limit:
  assumes "weighted_ok acquire release held new_weighted"
    and "size_ok acquire release held new_weighted size_of"
    and "s = pf_run acquire release fetch gs (NewParallelFetcher new_weighted f n)"
  shows "card {g. ppcs s g = InFetch} \<le> n \<and> (\<forall>g. ppcs s g \<noteq> PPanicked) \<and>
    held (psem s) = card {g. holds_unit (ppcs s g)}"
proof -
  have inv: "pf_inv held size_of n s"
    unfolding assms(3) by (rule pf_run_inv [OF assms(1,2) pf_inv_new [OF assms(1,2)]])
  have "{g. ppcs s g = InFetch} \<subseteq> holders s" by (auto simp: in_holders)
  moreover have "finite (holders s)" using inv by (simp add: pf_inv_def)
  ultimately have "card {g. ppcs s g = InFetch} \<le> card (holders s)" by (rule card_mono [rotated])
  then show ?thesis using inv by (auto simp: pf_inv_def holders_def)
qed

text \<open>The witness's semaphore: the units held and the size, as a pair.\<close>

definition pair_acquire :: "nat \<times> nat \<Rightarrow> (nat \<times> nat) acquired" where
  "pair_acquire s = (if fst s < snd s then Granted (fst s + 1, snd s) else WouldBlock)"

definition pair_release :: "nat \<times> nat \<Rightarrow> (nat \<times> nat) option" where
  "pair_release s = (if fst s = 0 then None else Some (fst s - 1, snd s))"

theorem parallel_fetch_limit_witness:
  "let s = pf_run pair_acquire pair_release (\<lambda>f. (f, ''d'', True)) [0, 1, 0, 1, 1]
             (NewParallelFetcher (Pair 0) () 1)
   in card {g. ppcs s g = InFetch} \<le> 1 \<and> ppcs s 0 = InFetch \<and> ppcs s 1 = AtAcquire"
proof -
  let ?s = "pf_run pair_acquire pair_release (\<lambda>f. (f, ''d'', True)) [0, 1, 0, 1, 1]
             (NewParallelFetcher (Pair 0) () 1)"
  have w: "weighted_ok pair_acquire pair_release fst (Pair 0)"
    by (auto simp: weighted_ok_def pair_acquire_def pair_release_def split: if_splits)
  have z: "size_ok pair_acquire pair_release fst (Pair 0) snd"
    by (auto simp: size_ok_def pair_acquire_def pair_release_def split: if_splits)
  have "ppcs ?s 0 = InFetch \<and> ppcs ?s 1 = AtAcquire"
    by (simp add: NewParallelFetcher_def Fetch_step_def set_pc_def pair_acquire_def)
  with parallel_fetch_limit [OF w z refl, of "\<lambda>f. (f, ''d'', True)" "[0, 1, 0, 1, 1]" "()" 1]
  show ?thesis unfolding Let_def by blast
qed

end
