(* ===== verification/Base64.thy ===== *)
theory Base64
  imports GoPrelude
begin

text \<open>
  \<open>encoding/base64\<close> of the standard library with the padding character \<open>=\<close>, over the alphabet of
  lab1/det_bcrypt, and the two helpers of that package that strip and restore the padding.

  \<open>b64_encode\<close> and \<open>b64_decode\<close> are \<open>Encoding.Encode\<close> and \<open>Encoding.Decode\<close>: groups of three bytes
  and four characters; the decoder skips carriage returns and newlines and refuses an incomplete
  group, a character outside the alphabet, misplaced padding and anything after the padding.
\<close>

section \<open>The alphabet\<close>

definition alphabet :: bytes where
  "alphabet = map of_char
     ''./ABCDEFGHIJKLMNOPQRSTUVWXYZabcdefghijklmnopqrstuvwxyz0123456789''"

definition enc6 :: "nat \<Rightarrow> u8" where
  "enc6 n = alphabet ! n"

fun index_of :: "'a \<Rightarrow> 'a list \<Rightarrow> nat option" where
  "index_of y [] = None"
| "index_of y (x # xs) = (if x = y then Some 0 else map_option Suc (index_of y xs))"

definition dec6 :: "u8 \<Rightarrow> nat option" where
  "dec6 b = index_of b alphabet"

definition pad :: u8 where
  "pad = 61"

lemma index_of_nth:
  "distinct xs \<Longrightarrow> n < length xs \<Longrightarrow> index_of (xs ! n) xs = Some n"
  by (induction xs arbitrary: n) (auto simp: nth_Cons' split: if_splits)

lemma index_of_None: "y \<notin> set xs \<Longrightarrow> index_of y xs = None"
  by (induction xs) auto

lemma length_alphabet: "length alphabet = 64"
  by (simp add: alphabet_def)

lemma distinct_alphabet: "distinct alphabet"
  unfolding alphabet_def by code_simp

lemma special_not_in_alphabet: "pad \<notin> set alphabet" "10 \<notin> set alphabet" "13 \<notin> set alphabet"
  unfolding alphabet_def pad_def by code_simp+

lemma dec6_enc6: "n < 64 \<Longrightarrow> dec6 (enc6 n) = Some n"
  by (simp add: dec6_def enc6_def index_of_nth distinct_alphabet length_alphabet)

lemma dec6_pad: "dec6 pad = None"
  by (simp add: dec6_def index_of_None special_not_in_alphabet)

lemma enc6_in_alphabet: "n < 64 \<Longrightarrow> enc6 n \<in> set alphabet"
  by (simp add: enc6_def length_alphabet)

lemma enc6_neq: "n < 64 \<Longrightarrow> enc6 n \<noteq> pad" "n < 64 \<Longrightarrow> enc6 n \<noteq> 10" "n < 64 \<Longrightarrow> enc6 n \<noteq> 13"
  using enc6_in_alphabet special_not_in_alphabet by metis+

section \<open>Encoding\<close>

fun b64_encode :: "bytes \<Rightarrow> bytes" where
  "b64_encode [] = []"
| "b64_encode [a] = [enc6 (unat a div 4), enc6 (unat a mod 4 * 16), pad, pad]"
| "b64_encode [a, b] =
     [enc6 (unat a div 4), enc6 (unat a mod 4 * 16 + unat b div 16), enc6 (unat b mod 16 * 4), pad]"
| "b64_encode (a # b # c # rest) =
     enc6 (unat a div 4) # enc6 (unat a mod 4 * 16 + unat b div 16) #
     enc6 (unat b mod 16 * 4 + unat c div 64) # enc6 (unat c mod 64) # b64_encode rest"

text \<open>
  \<open>base64Encode\<close>: encode, then drop the trailing padding. On an empty source the loop reads
  \<open>dst[-1]\<close>.
\<close>

definition base64Encode :: "bytes \<Rightarrow> ('e, bytes) go_result" where
  "base64Encode src =
     (let dst = b64_encode src
      in if dst = [] then Panics IndexOutOfRange
         else Return (rev (dropWhile (\<lambda>b. b = pad) (rev dst))))"

section \<open>Decoding\<close>

fun b64_quanta :: "bytes \<Rightarrow> bytes option" where
  "b64_quanta [] = Some []"
| "b64_quanta (w # x # y # z # rest) =
     (case (dec6 w, dec6 x) of
        (Some p, Some q) \<Rightarrow>
          if y = pad then
            (if z = pad \<and> rest = [] then Some [of_nat (p * 4 + q div 16)] else None)
          else
            (case dec6 y of
               None \<Rightarrow> None
             | Some r \<Rightarrow>
                 if z = pad then
                   (if rest = []
                    then Some [of_nat (p * 4 + q div 16), of_nat (q mod 16 * 16 + r div 4)]
                    else None)
                 else
                   (case dec6 z of
                      None \<Rightarrow> None
                    | Some s \<Rightarrow>
                        map_option (\<lambda>out. of_nat (p * 4 + q div 16) # of_nat (q mod 16 * 16 + r div 4) #
                                          of_nat (r mod 4 * 64 + s) # out)
                          (b64_quanta rest)))
      | _ \<Rightarrow> None)"
| "b64_quanta _ = None"

definition b64_decode :: "bytes \<Rightarrow> bytes option" where
  "b64_decode src = b64_quanta (filter (\<lambda>b. b \<noteq> 10 \<and> b \<noteq> 13) src)"

text \<open>
  \<open>base64Decode\<close>: appends \<open>4 - len(src) % 4\<close> padding characters, which is four when the length is a
  multiple of four.
\<close>

definition base64Decode :: "bytes \<Rightarrow> bytes option" where
  "base64Decode src = b64_decode (src @ replicate (4 - length src mod 4) pad)"

section \<open>Round trips\<close>

lemma unat_u8: "unat (b :: u8) < 256"
proof -
  have "unat b < 2 ^ LENGTH(8)" by (rule unsigned_less)
  then show ?thesis by simp
qed

lemma u8_div_mod [simp]:
  "unat (b :: u8) div 16 div 16 = 0" "unat b div 16 mod 16 = unat b div 16"
  "unat b div 64 div 4 = 0" "unat b div 64 mod 4 = unat b div 64"
  using unat_u8 [of b] by (simp_all add: div_mult2_eq [symmetric] less_mult_imp_div_less)

lemma u8_join [simp]:
  "word_of_nat (unat b div 16 * 16 + unat b mod 16) = (b :: u8)"
  "word_of_nat (unat b div 64 * 64 + unat b mod 64) = (b :: u8)"
  unfolding div_mult_mod_eq by simp_all

lemma six_bits:
  "unat (a :: u8) div 4 < 64" "unat (a :: u8) mod 4 * 16 < 64" "unat (b :: u8) mod 16 * 4 < 64"
  "unat (a :: u8) mod 4 * 16 + unat (b :: u8) div 16 < 64"
  "unat (b :: u8) mod 16 * 4 + unat (c :: u8) div 64 < 64" "unat (c :: u8) mod 64 < 64"
proof -
  have a: "unat a mod 4 < 4" and b: "unat b mod 16 < 16" by simp_all
  have "unat a div 4 < 64" "unat b div 16 < 16" "unat c div 64 < 4"
    using unat_u8 [of a] unat_u8 [of b] unat_u8 [of c] by (simp_all add: less_mult_imp_div_less)
  then show "unat (a :: u8) div 4 < 64" "unat (a :: u8) mod 4 * 16 < 64" "unat (b :: u8) mod 16 * 4 < 64"
    "unat (a :: u8) mod 4 * 16 + unat (b :: u8) div 16 < 64"
    "unat (b :: u8) mod 16 * 4 + unat (c :: u8) div 64 < 64" "unat (c :: u8) mod 64 < 64"
    using a b by simp_all
qed

lemma b64_quanta_encode: "b64_quanta (b64_encode src) = Some src"
  by (induction src rule: b64_encode.induct)
    (simp_all add: dec6_enc6 six_bits enc6_neq del: of_nat_add of_nat_mult)

lemma b64_encode_chars: "b \<in> set (b64_encode src) \<Longrightarrow> b = pad \<or> b \<in> set alphabet"
  by (induction src rule: b64_encode.induct) (auto intro: enc6_in_alphabet six_bits)

lemma encode_no_newline: "b \<in> set (b64_encode src) \<Longrightarrow> b \<noteq> 10 \<and> b \<noteq> 13"
  using b64_encode_chars [of b src] special_not_in_alphabet by (auto simp: pad_def)

lemma b64_decode_encode: "b64_decode (b64_encode src) = Some src"
proof -
  have "filter (\<lambda>b. b \<noteq> 10 \<and> b \<noteq> 13) (b64_encode src) = b64_encode src"
    using encode_no_newline by (intro filter_True) blast
  then show ?thesis by (simp add: b64_decode_def b64_quanta_encode)
qed

text \<open>The encoding without its padding, as the code strips it.\<close>

fun b64_body :: "bytes \<Rightarrow> bytes" where
  "b64_body [] = []"
| "b64_body [a] = [enc6 (unat a div 4), enc6 (unat a mod 4 * 16)]"
| "b64_body [a, b] =
     [enc6 (unat a div 4), enc6 (unat a mod 4 * 16 + unat b div 16), enc6 (unat b mod 16 * 4)]"
| "b64_body (a # b # c # rest) =
     enc6 (unat a div 4) # enc6 (unat a mod 4 * 16 + unat b div 16) #
     enc6 (unat b mod 16 * 4 + unat c div 64) # enc6 (unat c mod 64) # b64_body rest"

lemma pad_not_in_body: "pad \<notin> set (b64_body src)"
  by (induction src rule: b64_body.induct) (auto simp: enc6_neq [symmetric] six_bits dest: sym [of pad])

lemma b64_encode_body:
  "b64_encode src = b64_body src @ replicate ((3 - length src mod 3) mod 3) pad"
proof (induction src rule: b64_body.induct)
  case (4 a b c rest)
  have "(3 - length (a # b # c # rest) mod 3) mod 3 = (3 - length rest mod 3) mod 3"
    by simp
  then show ?case using 4 by simp
qed (simp_all add: numeral_2_eq_2)

lemma three_neq_zero: "(3::nat) \<noteq> 0"
  by simp

lemma length_b64_body:
  "length (b64_body src) =
     length src div 3 * 4 + (if length src mod 3 = 0 then 0 else length src mod 3 + 1)"
proof (induction src rule: b64_body.induct)
  case (4 a b c rest)
  have l: "length (a # b # c # rest) = length rest + 3" by simp
  have "length (b64_body (a # b # c # rest)) = length (b64_body rest) + 4" by simp
  then show ?case unfolding l div_add_self2 [OF three_neq_zero] mod_add_self2 4
    by (simp only: add_mult_distrib mult_1 add_ac)
qed simp_all

lemma length_b64_body_mod:
  "length (b64_body src) mod 4 = (if length src mod 3 = 0 then 0 else length src mod 3 + 1)"
proof -
  have "length src mod 3 = 0 \<or> length src mod 3 = 1 \<or> length src mod 3 = 2" by arith
  then show ?thesis unfolding length_b64_body by (elim disjE) (simp_all only: mod_mult_self3, simp_all)
qed

lemma b64_body_empty_iff: "b64_body src = [] \<longleftrightarrow> src = []"
  by (cases src rule: b64_body.cases) auto

lemma base64Encode_empty: "base64Encode [] = Panics IndexOutOfRange"
  by (simp add: base64Encode_def)

lemma base64Encode_body:
  assumes "src \<noteq> []"
  shows "base64Encode src = Return (b64_body src)"
proof -
  have "dropWhile (\<lambda>b. b = pad) (rev (b64_body src)) = rev (b64_body src)"
  proof (cases "rev (b64_body src)")
    case (Cons x xs)
    then have "x \<in> set (b64_body src)" by (metis list.set_intros(1) set_rev)
    then show ?thesis using Cons pad_not_in_body [of src] by auto
  qed simp
  then have "dropWhile (\<lambda>b. b = pad) (replicate k pad @ rev (b64_body src)) = rev (b64_body src)" for k
    by (induction k) simp_all
  then have "dropWhile (\<lambda>b. b = pad) (rev (b64_encode src)) = rev (b64_body src)"
    unfolding b64_encode_body rev_append rev_replicate .
  then show ?thesis using assms b64_body_empty_iff [of src]
    by (auto simp: base64Encode_def Let_def b64_encode_body)
qed

lemma base64Decode_body:
  assumes "length src mod 3 \<noteq> 0"
  shows "base64Decode (b64_body src) = Some src"
proof -
  have "4 - length (b64_body src) mod 4 = (3 - length src mod 3) mod 3"
  proof -
    have "length src mod 3 = 1 \<or> length src mod 3 = 2" using assms by arith
    then show ?thesis unfolding length_b64_body_mod by (elim disjE) simp_all
  qed
  then show ?thesis
    by (simp add: base64Decode_def b64_decode_encode flip: b64_encode_body)
qed

text \<open>A whole number of groups followed by four padding characters is refused.\<close>

lemma four_pads: "replicate 4 pad = [pad, pad, pad, pad]"
  by (simp add: numeral_eq_Suc)

lemma b64_quanta_extra_padding:
  "length src mod 3 = 0 \<Longrightarrow> b64_quanta (b64_body src @ replicate 4 pad) = None"
  unfolding four_pads
proof (induction src rule: b64_body.induct)
  case 1
  then show ?case by (simp add: dec6_pad)
next
  case (4 a b c rest)
  have "length (a # b # c # rest) = length rest + 3" by simp
  then have "length rest mod 3 = 0" using "4.prems" by (simp only: mod_add_self2)
  then show ?case using 4 by (simp add: dec6_enc6 six_bits enc6_neq)
qed simp_all

lemma base64Decode_body_refused:
  assumes "length src mod 3 = 0"
  shows "base64Decode (b64_body src) = None"
proof -
  have "length (b64_body src) mod 4 = 0"
    using assms by (simp add: length_b64_body_mod)
  moreover have "filter (\<lambda>b. b \<noteq> 10 \<and> b \<noteq> 13) (b64_body src @ replicate 4 pad) = b64_body src @ replicate 4 pad"
    using encode_no_newline [of _ src] by (intro filter_True) (auto simp: pad_def b64_encode_body)
  ultimately show ?thesis
    using b64_quanta_extra_padding [OF assms] by (simp add: base64Decode_def b64_decode_def)
qed

section \<open>Property\<close>

text \<open>
  C38: what the salt encoding gives back, for every byte string. \<open>base64Decode\<close> inverts \<open>base64Encode\<close>
  exactly on the non-empty strings whose length is not a multiple of three (the 16-byte salt and the
  23-byte digest of bcrypt are such). On a non-empty string of a length that is a multiple of three it
  refuses the text that \<open>base64Encode\<close> produced, because it adds four padding characters instead of
  none; and on the empty string \<open>base64Encode\<close> panics.
\<close>
theorem base64_roundtrip:
  "if src = [] then (base64Encode src :: (unit, bytes) go_result) = Panics IndexOutOfRange
   else \<exists>txt. (base64Encode src :: (unit, bytes) go_result) = Return txt \<and>
     length txt = length src div 3 * 4 + (if length src mod 3 = 0 then 0 else length src mod 3 + 1) \<and>
     base64Decode txt = (if length src mod 3 = 0 then None else Some src)"
  by (cases "src = []") (simp_all add: base64Encode_empty base64Encode_body length_b64_body base64Decode_body base64Decode_body_refused)

theorem base64_roundtrip_witness:
  "\<exists>txt. (base64Encode [1, 2, 3, 4] :: (unit, bytes) go_result) = Return txt \<and>
     base64Decode txt = Some [1, 2, 3, 4]"
  using base64_roundtrip [of "[1, 2, 3, 4]"] by auto

end
