(* ===== verification/Decimal.thy ===== *)
theory Decimal
  imports GoPrelude
begin

text \<open>
  Decimal formatting and parsing as the sources use them: \<open>strconv.FormatUint(id, 10)\<close>,
  \<open>fmt.Sprintf\<close> with \<open>%d\<close>, \<open>%02d\<close> and \<open>%020d\<close>, and \<open>strconv.Atoi\<close> on the two bytes of a cost
  field. Digits are most significant first; text is bytes where the code hashes or slices it.
\<close>

section \<open>Digits\<close>

fun digits :: "nat \<Rightarrow> nat list" where
  "digits n = (if n < 10 then [n] else digits (n div 10) @ [n mod 10])"

declare digits.simps [simp del]

fun digits_value :: "nat \<Rightarrow> nat list \<Rightarrow> nat" where
  "digits_value acc [] = acc"
| "digits_value acc (d # ds) = digits_value (10 * acc + d) ds"

lemma digits_value_append: "digits_value acc (xs @ ys) = digits_value (digits_value acc xs) ys"
  by (induction acc xs rule: digits_value.induct) auto

lemma digits_value_digits: "digits_value 0 (digits n) = n"
proof (induction n rule: digits.induct)
  case (1 n)
  then show ?case by (subst digits.simps) (auto simp: digits_value_append)
qed

lemma digits_lt_10: "d \<in> set (digits n) \<Longrightarrow> d < 10"
proof (induction n rule: digits.induct)
  case (1 n)
  then show ?case by (subst (asm) (2) digits.simps) (auto split: if_splits)
qed

lemma digits_nonempty [simp]: "digits n \<noteq> []"
  by (subst digits.simps) simp

lemma length_digits_le: "n < 10 ^ k \<Longrightarrow> 0 < k \<Longrightarrow> length (digits n) \<le> k"
proof (induction k arbitrary: n)
  case (Suc k)
  show ?case
  proof (cases "n < 10")
    case True
    then show ?thesis by (subst digits.simps) simp
  next
    case False
    then have "k \<noteq> 0" using Suc.prems by (cases k) auto
    moreover have "n div 10 < 10 ^ k" using Suc.prems by (simp add: less_mult_imp_div_less mult.commute)
    ultimately have "length (digits (n div 10)) \<le> k" using Suc.IH by simp
    then show ?thesis using False by (subst digits.simps) simp
  qed
qed simp

section \<open>Rendering\<close>

definition digit_byte :: "nat \<Rightarrow> u8" where
  "digit_byte d = of_nat (48 + d)"

definition FormatUint :: "u64 \<Rightarrow> bytes" where
  "FormatUint x = map digit_byte (digits (unat x))"

definition dec_string :: "nat \<Rightarrow> string" where
  "dec_string n = map (\<lambda>d. char_of (48 + d)) (digits n)"

text \<open>\<open>%d\<close> of a signed integer.\<close>

definition int_string :: "int \<Rightarrow> string" where
  "int_string n = (if n < 0 then ''-'' @ dec_string (nat (- n)) else dec_string (nat n))"

text \<open>\<open>%0wd\<close> of a non-negative number: pad with zeros to width \<open>w\<close>.\<close>

definition pad0 :: "nat \<Rightarrow> nat \<Rightarrow> bytes" where
  "pad0 w n = replicate (w - length (digits n)) 48 @ map digit_byte (digits n)"

lemma length_pad0: "n < 10 ^ w \<Longrightarrow> 0 < w \<Longrightarrow> length (pad0 w n) = w"
  using length_digits_le [of n w] by (simp add: pad0_def)

lemma unat_digit_byte: "d < 10 \<Longrightarrow> unat (digit_byte d) = 48 + d"
  unfolding digit_byte_def unat_of_nat by simp

lemma digit_byte_bounds: "d < 10 \<Longrightarrow> 48 \<le> unat (digit_byte d) \<and> unat (digit_byte d) \<le> 57"
  by (simp add: unat_digit_byte)

section \<open>Parsing\<close>

definition is_digit_byte :: "u8 \<Rightarrow> bool" where
  "is_digit_byte b \<longleftrightarrow> 48 \<le> unat b \<and> unat b \<le> 57"

definition byte_digit :: "u8 \<Rightarrow> nat" where
  "byte_digit b = unat b - 48"

fun parse_digits :: "bytes \<Rightarrow> nat option" where
  "parse_digits bs =
     (if bs \<noteq> [] \<and> list_all is_digit_byte bs then Some (digits_value 0 (map byte_digit bs)) else None)"

declare parse_digits.simps [simp del]

text \<open>
  \<open>strconv.Atoi\<close>: an optional sign, then one or more decimal digits. (Overflow cannot occur on the
  two bytes it is given here.) \<open>None\<close> is the syntax error.
\<close>

definition Atoi :: "bytes \<Rightarrow> int option" where
  "Atoi bs =
     (case bs of
        [] \<Rightarrow> None
      | b # rest \<Rightarrow>
          if b = 43 then map_option int (parse_digits rest)
          else if b = 45 then map_option (\<lambda>n. - int n) (parse_digits rest)
          else map_option int (parse_digits bs))"

lemma parse_pad0: "w \<noteq> 0 \<Longrightarrow> parse_digits (pad0 w n) = Some n"
proof -
  have zero: "digits_value 0 (replicate k 0 @ ds) = digits_value 0 ds" for k ds
    by (induction k) auto
  have bd: "map byte_digit (map digit_byte (digits n)) = digits n"
    using digits_lt_10 [of _ n] by (auto simp: byte_digit_def unat_digit_byte intro: map_idI)
  have "list_all is_digit_byte (pad0 w n)"
    by (auto simp: pad0_def list_all_iff is_digit_byte_def unat_digit_byte dest: digits_lt_10)
  moreover have "map byte_digit (pad0 w n) = replicate (w - length (digits n)) 0 @ digits n"
    using bd by (simp add: pad0_def byte_digit_def)
  ultimately show ?thesis
    by (simp only: parse_digits.simps) (simp add: pad0_def zero digits_value_digits byte_digit_def)
qed

lemma Atoi_pad0: "w \<noteq> 0 \<Longrightarrow> Atoi (pad0 w n) = Some (int n)"
proof -
  assume w: "w \<noteq> 0"
  obtain b rest where p: "pad0 w n = b # rest"
    by (cases "pad0 w n") (auto simp: pad0_def)
  have "is_digit_byte b"
    using parse_pad0 [OF w, of n] p by (auto simp: parse_digits.simps split: if_splits)
  then have "b \<noteq> 43" and "b \<noteq> 45" by (auto simp: is_digit_byte_def)
  then show ?thesis using parse_pad0 [OF w, of n] p by (simp add: Atoi_def)
qed

end
