(* ===== verification/DetBcrypt.thy ===== *)
theory DetBcrypt
  imports Base64 Decimal
begin

text \<open>
  lab1/det_bcrypt/det_bcrypt.go: bcrypt with a fixed salt. The package formats and parses the
  60-byte hash, drives the Blowfish key schedule and compares hashes; all of that is modelled.

  The cipher itself is golang.org/x/crypto/blowfish, code outside the repository: the record
  \<open>blowfish\<close> holds its three functions as parameters, and \<open>blowfish_ok\<close> states what its documentation
  promises (a key and a salt that are not empty are accepted; a block stays eight bytes).
  Passwords, hashes and salts are byte lists.
\<close>

section \<open>The cipher's interface\<close>

record 'c blowfish =
  NewSaltedCipher :: "bytes \<Rightarrow> bytes \<Rightarrow> 'c option"
  ExpandKey :: "bytes \<Rightarrow> 'c \<Rightarrow> 'c"
  Encrypt :: "'c \<Rightarrow> bytes \<Rightarrow> bytes"

definition blowfish_ok :: "'c blowfish \<Rightarrow> bool" where
  "blowfish_ok B \<longleftrightarrow>
     (\<forall>key salt. key \<noteq> [] \<longrightarrow> salt \<noteq> [] \<longrightarrow> NewSaltedCipher B key salt \<noteq> None) \<and>
     (\<forall>c blk. length blk = 8 \<longrightarrow> length (Encrypt B c blk) = 8)"

section \<open>Constants and errors\<close>

definition MinCost :: int where "MinCost = 1"
definition MaxCost :: int where "MaxCost = 31"
definition DefaultCost :: int where "DefaultCost = 10"
definition majorVersion :: u8 where "majorVersion = 50"
definition minorVersion :: u8 where "minorVersion = 97"
definition maxSaltSize :: nat where "maxSaltSize = 16"
definition maxCryptedHashSize :: nat where "maxCryptedHashSize = 23"
definition encodedSaltSize :: nat where "encodedSaltSize = 22"
definition encodedHashSize :: nat where "encodedHashSize = 31"
definition minHashSize :: nat where "minHashSize = 59"
definition dollar :: u8 where "dollar = 36"

lemmas bcrypt_consts [simp] =
  MinCost_def MaxCost_def DefaultCost_def majorVersion_def minorVersion_def maxSaltSize_def
  maxCryptedHashSize_def encodedSaltSize_def encodedHashSize_def minHashSize_def dollar_def

definition magicCipherData :: bytes where
  "magicCipherData =
     [0x4f, 0x72, 0x70, 0x68, 0x65, 0x61, 0x6e, 0x42, 0x65, 0x68, 0x6f, 0x6c,
      0x64, 0x65, 0x72, 0x53, 0x63, 0x72, 0x79, 0x44, 0x6f, 0x75, 0x62, 0x74]"

datatype bcrypt_error =
    ErrMismatchedHashAndPassword
  | ErrHashTooShort
  | HashVersionTooNewError u8
  | InvalidHashPrefixError u8
  | InvalidCostError int
  | CostSyntaxError
  | CorruptInputError
  | CipherError

type_synonym 'a bc = "(bcrypt_error, 'a) go_result"

record hashed =
  hash :: bytes
  salt :: bytes
  cost :: int
  major :: u8
  minor :: u8

definition new_hashed :: hashed where
  "new_hashed = \<lparr>hash = [], salt = [], cost = 0, major = 0, minor = 0\<rparr>"

section \<open>The digest\<close>

definition checkCost :: "int \<Rightarrow> unit bc" where
  "checkCost c = (if c < MinCost \<or> MaxCost < c then Fails (InvalidCostError c) else Return ())"

text \<open>\<open>rounds = 1 << cost\<close> on \<open>uint64\<close>, then \<open>rounds\<close> times both expansions.\<close>

definition rounds :: "int \<Rightarrow> nat" where
  "rounds c = (if c < 64 then 2 ^ nat c else 0)"

fun expand_loop :: "'c blowfish \<Rightarrow> bytes \<Rightarrow> bytes \<Rightarrow> nat \<Rightarrow> 'c \<Rightarrow> 'c" where
  "expand_loop B ckey csalt 0 c = c"
| "expand_loop B ckey csalt (Suc n) c =
     expand_loop B ckey csalt n (ExpandKey B csalt (ExpandKey B ckey c))"

definition expensiveBlowfishSetup :: "'c blowfish \<Rightarrow> bytes \<Rightarrow> int \<Rightarrow> bytes \<Rightarrow> 'c bc" where
  "expensiveBlowfishSetup B key c slt =
     (case base64Decode slt of
        None \<Rightarrow> Fails CorruptInputError
      | Some csalt \<Rightarrow>
          let ckey = key @ [0] in
          (case NewSaltedCipher B ckey csalt of
             None \<Rightarrow> Fails CipherError
           | Some ci \<Rightarrow> Return (expand_loop B ckey csalt (rounds c) ci)))"

fun encrypt_times :: "'c blowfish \<Rightarrow> 'c \<Rightarrow> nat \<Rightarrow> bytes \<Rightarrow> bytes" where
  "encrypt_times B c 0 blk = blk"
| "encrypt_times B c (Suc n) blk = encrypt_times B c n (Encrypt B c blk)"

text \<open>The three 8-byte blocks of the cipher data, each encrypted 64 times in place.\<close>

definition encrypt_blocks :: "'c blowfish \<Rightarrow> 'c \<Rightarrow> bytes \<Rightarrow> bytes" where
  "encrypt_blocks B c d =
     encrypt_times B c 64 (take 8 d) @ encrypt_times B c 64 (take 8 (drop 8 d)) @
     encrypt_times B c 64 (take 8 (drop 16 d))"

definition bcrypt :: "'c blowfish \<Rightarrow> bytes \<Rightarrow> int \<Rightarrow> bytes \<Rightarrow> bytes bc" where
  "bcrypt B password c slt =
     bind_go (expensiveBlowfishSetup B password c slt) (\<lambda>ci.
     bind_go (go_slice (encrypt_blocks B ci magicCipherData) 0 maxCryptedHashSize) (\<lambda>d.
       base64Encode d))"

section \<open>Formatting\<close>

text \<open>\<open>%02d\<close>: the width includes a minus sign.\<close>

definition sprintf_02d :: "int \<Rightarrow> bytes" where
  "sprintf_02d c = (if c < 0 then 45 # pad0 1 (nat (- c)) else pad0 2 (nat c))"

definition Hash :: "hashed \<Rightarrow> bytes bc" where
  "Hash p =
     bind_go (idx_set (replicate 60 0) 0 dollar) (\<lambda>arr.
     bind_go (idx_set arr 1 (major p)) (\<lambda>arr.
     bind_go (if minor p \<noteq> 0
              then bind_go (idx_set arr 2 (minor p)) (\<lambda>arr. Return (arr, 3))
              else Return (arr, 2)) (\<lambda>(arr, n).
     bind_go (idx_set arr n dollar) (\<lambda>arr.
     let n = n + 1 in
     bind_go (go_copy arr n 60 (sprintf_02d (cost p))) (\<lambda>arr.
     let n = n + 2 in
     bind_go (idx_set arr n dollar) (\<lambda>arr.
     let n = n + 1 in
     bind_go (go_copy arr n 60 (salt p)) (\<lambda>arr.
     let n = n + encodedSaltSize in
     bind_go (go_copy arr n 60 (hash p)) (\<lambda>arr.
     let n = n + encodedHashSize in
     go_slice arr 0 n))))))))"

section \<open>Parsing\<close>

definition decodeVersion :: "bytes \<Rightarrow> hashed \<Rightarrow> (nat \<times> hashed) bc" where
  "decodeVersion sbytes p =
     bind_go (idx_get sbytes 0) (\<lambda>b0.
     if b0 \<noteq> dollar then Fails (InvalidHashPrefixError b0)
     else bind_go (idx_get sbytes 1) (\<lambda>b1.
     if majorVersion < b1 then Fails (HashVersionTooNewError b1)
     else let p = p\<lparr>major := b1\<rparr> in
     bind_go (idx_get sbytes 2) (\<lambda>b2.
     if b2 \<noteq> dollar then Return (4, p\<lparr>minor := b2\<rparr>) else Return (3, p))))"

definition decodeCost :: "bytes \<Rightarrow> hashed \<Rightarrow> (nat \<times> hashed) bc" where
  "decodeCost sbytes p =
     bind_go (go_slice sbytes 0 2) (\<lambda>txt.
     case Atoi txt of
       None \<Rightarrow> Fails CostSyntaxError
     | Some c \<Rightarrow> bind_go (checkCost c) (\<lambda>_. Return (3, p\<lparr>cost := c\<rparr>)))"

definition newFromHash :: "bytes \<Rightarrow> hashed bc" where
  "newFromHash hashedSecret =
     (if length hashedSecret < minHashSize then Fails ErrHashTooShort
      else
        bind_go (decodeVersion hashedSecret new_hashed) (\<lambda>(n, p).
        bind_go (go_slice hashedSecret n (length hashedSecret)) (\<lambda>hs.
        bind_go (decodeCost hs p) (\<lambda>(n, p).
        bind_go (go_slice hs n (length hs)) (\<lambda>hs.
        bind_go (go_slice hs 0 encodedSaltSize) (\<lambda>s.
        bind_go (go_slice hs encodedSaltSize (length hs)) (\<lambda>h.
          Return (p\<lparr>salt := s, hash := h\<rparr>))))))))"

section \<open>The API\<close>

definition newFromPassword :: "'c blowfish \<Rightarrow> bytes \<Rightarrow> int \<Rightarrow> hashed bc" where
  "newFromPassword B password c0 =
     (let c = (if c0 < MinCost then DefaultCost else c0);
          p = new_hashed\<lparr>major := majorVersion, minor := minorVersion\<rparr>
      in bind_go (checkCost c) (\<lambda>_.
         let p = p\<lparr>cost := c\<rparr>; unencodedSalt = replicate maxSaltSize 97 in
         bind_go (base64Encode unencodedSalt) (\<lambda>s.
         let p = p\<lparr>salt := s\<rparr> in
         bind_go (bcrypt B password (cost p) (salt p)) (\<lambda>h.
           Return (p\<lparr>hash := h\<rparr>)))))"

definition GenerateFromPassword :: "'c blowfish \<Rightarrow> bytes \<Rightarrow> int \<Rightarrow> bytes bc" where
  "GenerateFromPassword B password c = bind_go (newFromPassword B password c) Hash"

definition CompareHashAndPassword :: "'c blowfish \<Rightarrow> bytes \<Rightarrow> bytes \<Rightarrow> unit bc" where
  "CompareHashAndPassword B hashedPassword password =
     bind_go (newFromHash hashedPassword) (\<lambda>p.
     bind_go (bcrypt B password (cost p) (salt p)) (\<lambda>otherHash.
     bind_go (Hash p) (\<lambda>h1.
     bind_go (Hash \<lparr>hash = otherHash, salt = salt p, cost = cost p, major = major p, minor = minor p\<rparr>) (\<lambda>h2.
       if h1 = h2 then Return () else Fails ErrMismatchedHashAndPassword))))"

definition Cost :: "bytes \<Rightarrow> int bc" where
  "Cost hashedPassword = bind_go (newFromHash hashedPassword) (\<lambda>p. Return (cost p))"

section \<open>Filling the 60-byte array\<close>

lemma idx_set_fill:
  "length xs = n \<Longrightarrow> 0 < k \<Longrightarrow>
   idx_set (xs @ replicate k z) n v = Return ((xs @ [v]) @ replicate (k - 1) z)"
  by (cases k) (auto simp: idx_set_def list_update_append)

lemma go_copy_fill:
  "length xs = n \<Longrightarrow> n + k = m \<Longrightarrow> length src \<le> k \<Longrightarrow>
   go_copy (xs @ replicate k z) n m src = Return ((xs @ src) @ replicate (k - length src) z)"
  by (auto simp: go_copy_def Let_def min_def)

lemma go_copy_rest:
  "length xs = n \<Longrightarrow> n + k = m \<Longrightarrow> k \<le> length src \<Longrightarrow>
   go_copy (xs @ replicate k z) n m src = Return (xs @ take k src)"
  by (auto simp: go_copy_def Let_def min_def)

text \<open>A well-formed parsed hash, as both constructors of the package build it.\<close>

definition hashed_ok :: "hashed \<Rightarrow> bool" where
  "hashed_ok p \<longleftrightarrow>
     MinCost \<le> cost p \<and> cost p \<le> MaxCost \<and> length (salt p) = encodedSaltSize \<and>
     encodedHashSize \<le> length (hash p) \<and> minor p \<noteq> 0"

lemma length_sprintf_02d: "0 \<le> c \<Longrightarrow> c < 100 \<Longrightarrow> length (sprintf_02d c) = 2"
  by (simp add: sprintf_02d_def length_pad0)

definition layout :: "hashed \<Rightarrow> bytes" where
  "layout p = [36, major p, minor p, 36] @ sprintf_02d (cost p) @ [36] @ salt p @ take 31 (hash p)"

lemma Hash_layout:
  assumes "hashed_ok p"
  shows "Hash p = Return (layout p)"
proof -
  let ?z = "0 :: u8"
  have c2: "length (sprintf_02d (cost p)) = 2" and m: "minor p \<noteq> 0"
    and s: "length (salt p) = 22" and h: "31 \<le> length (hash p)"
    using assms by (auto simp: hashed_ok_def length_sprintf_02d)
  let ?h = "[36, major p, minor p, 36]"
  let ?c = "?h @ sprintf_02d (cost p)"
  let ?d = "?c @ [36]"
  let ?s = "?d @ salt p"
  have s0: "idx_set (replicate 60 ?z) 0 dollar = (Return ([36] @ replicate 59 ?z) :: bytes bc)"
    using idx_set_fill [of "[]" 0 60] by simp
  have s1: "idx_set ([36] @ replicate 59 ?z) 1 (major p) = (Return ([36, major p] @ replicate 58 ?z) :: bytes bc)"
    using idx_set_fill [of "[36]" 1 59] by simp
  have s2: "idx_set ([36, major p] @ replicate 58 ?z) 2 (minor p) =
      (Return ([36, major p, minor p] @ replicate 57 ?z) :: bytes bc)"
    using idx_set_fill [of "[36, major p]" 2 58] by simp
  have s3: "idx_set ([36, major p, minor p] @ replicate 57 ?z) 3 dollar = (Return (?h @ replicate 56 ?z) :: bytes bc)"
    using idx_set_fill [of "[36, major p, minor p]" 3 57] by simp
  have s4: "go_copy (?h @ replicate 56 ?z) (3 + 1) 60 (sprintf_02d (cost p)) =
      (Return (?c @ replicate 54 ?z) :: bytes bc)"
    using go_copy_fill [of ?h 4 56 60 "sprintf_02d (cost p)"] c2 by simp
  have s5: "idx_set (?c @ replicate 54 ?z) (3 + 1 + 2) dollar = (Return (?d @ replicate 53 ?z) :: bytes bc)"
    using idx_set_fill [of ?c 6 54] c2 by simp
  have s6: "go_copy (?d @ replicate 53 ?z) (3 + 1 + 2 + 1) 60 (salt p) =
      (Return (?s @ replicate 31 ?z) :: bytes bc)"
    using go_copy_fill [of ?d 7 53 60 "salt p"] c2 s by simp
  have s7: "go_copy (?s @ replicate 31 ?z) (3 + 1 + 2 + 1 + encodedSaltSize) 60 (hash p) =
      (Return (layout p) :: bytes bc)"
    using go_copy_rest [of ?s 29 31 60 "hash p"] c2 s h by (simp add: layout_def)
  have s8: "go_slice (layout p) 0 (3 + 1 + 2 + 1 + encodedSaltSize + encodedHashSize) = (Return (layout p) :: bytes bc)"
    using c2 s h by (simp add: go_slice_def layout_def)
  show ?thesis
    by (simp only: Hash_def Let_def s0 s1 s2 s3 s4 s5 s6 s7 s8 m bind_go.simps prod.case if_True not_False_eq_True)
qed

lemma length_layout: "hashed_ok p \<Longrightarrow> length (layout p) = 60"
  by (simp add: layout_def hashed_ok_def length_sprintf_02d)

section \<open>Parsing what was formatted\<close>

text \<open>
  Parsing the 60-byte text with anything appended gives the hash back, with the appended bytes as
  part of its \<open>hash\<close> field.
\<close>

lemma newFromHash_layout:
  assumes ok: "hashed_ok p" and "major p \<le> majorVersion" and "minor p \<noteq> dollar"
  shows "newFromHash (layout p @ junk) = Return (p\<lparr>hash := take 31 (hash p) @ junk\<rparr>)"
proof -
  have s: "length (salt p) = 22" and h: "31 \<le> length (hash p)"
    and c: "1 \<le> cost p" "cost p \<le> 31"
    using ok by (auto simp: hashed_ok_def)
  have c2: "length (sprintf_02d (cost p)) = 2" using c by (simp add: length_sprintf_02d)
  then obtain x y where xy: "sprintf_02d (cost p) = [x, y]"
    by (auto simp: numeral_2_eq_2 length_Suc_conv)
  have atoi: "Atoi [x, y] = Some (cost p)"
    using Atoi_pad0 [of 2 "nat (cost p)"] c xy by (simp add: sprintf_02d_def)
  let ?in = "36 # major p # minor p # 36 # x # y # 36 # salt p @ take 31 (hash p) @ junk"
  have lay: "layout p @ junk = ?in" by (simp add: layout_def xy)
  have v: "decodeVersion ?in new_hashed = Return (4, new_hashed\<lparr>major := major p, minor := minor p\<rparr>)"
    using assms(2,3) by (simp add: decodeVersion_def idx_get_def not_less Let_def)
  have d1: "go_slice ?in 4 (length ?in) = (Return (x # y # 36 # salt p @ take 31 (hash p) @ junk) :: bytes bc)"
    using go_slice_tail [of "[36, major p, minor p, 36]" 4 "x # y # 36 # salt p @ take 31 (hash p) @ junk"]
    by simp
  have f: "go_slice (x # y # 36 # salt p @ take 31 (hash p) @ junk) 0 2 = (Return [x, y] :: bytes bc)"
    using go_slice_front [of "[x, y]" 2 "36 # salt p @ take 31 (hash p) @ junk"] by simp
  have d2: "decodeCost (x # y # 36 # salt p @ take 31 (hash p) @ junk) q = Return (3, q\<lparr>cost := cost p\<rparr>)" for q
    using c f
    by (simp add: decodeCost_def atoi checkCost_def)
  have d3: "go_slice (x # y # 36 # salt p @ take 31 (hash p) @ junk) 3
      (length (x # y # 36 # salt p @ take 31 (hash p) @ junk)) = (Return (salt p @ take 31 (hash p) @ junk) :: bytes bc)"
    using go_slice_tail [of "[x, y, 36]" 3 "salt p @ take 31 (hash p) @ junk"] by simp
  have d4: "go_slice (salt p @ take 31 (hash p) @ junk) 0 encodedSaltSize = (Return (salt p) :: bytes bc)"
    using s by (simp add: go_slice_def)
  have d5: "go_slice (salt p @ take 31 (hash p) @ junk) encodedSaltSize
      (length (salt p @ take 31 (hash p) @ junk)) = (Return (take 31 (hash p) @ junk) :: bytes bc)"
    using s h by (simp add: go_slice_def)
  have len: "\<not> length ?in < minHashSize" using s h by simp
  have "newFromHash ?in = Return ((new_hashed\<lparr>major := major p, minor := minor p\<rparr>)
      \<lparr>cost := cost p, salt := salt p, hash := take 31 (hash p) @ junk\<rparr>)"
    by (simp only: newFromHash_def len if_False v d1 d2 d3 d4 d5 bind_go.simps prod.case)
  then show ?thesis unfolding lay by (cases p) (simp add: new_hashed_def)
qed

section \<open>The digest is total\<close>

definition fixed_salt :: bytes where
  "fixed_salt = b64_body (replicate maxSaltSize 97)"

lemma fixed_salt_facts:
  "(base64Encode (replicate maxSaltSize 97) :: bytes bc) = Return fixed_salt"
  "length fixed_salt = 22" "base64Decode fixed_salt = Some (replicate maxSaltSize 97)"
  unfolding fixed_salt_def
  by (simp_all add: base64Encode_body length_b64_body base64Decode_body)

lemma length_encrypt_times:
  "blowfish_ok B \<Longrightarrow> length blk = 8 \<Longrightarrow> length (encrypt_times B c n blk) = 8"
  by (induction n arbitrary: blk) (auto simp: blowfish_ok_def)

lemma length_encrypt_blocks: "blowfish_ok B \<Longrightarrow> length (encrypt_blocks B c magicCipherData) = 24"
  by (simp add: encrypt_blocks_def length_encrypt_times magicCipherData_def)

lemma encode_digest:
  assumes "length d = 23"
  shows "(base64Encode d :: bytes bc) = Return (b64_body d)" and "length (b64_body d) = 31"
proof -
  show "(base64Encode d :: bytes bc) = Return (b64_body d)"
    using assms by (intro base64Encode_body) auto
  show "length (b64_body d) = 31" unfolding length_b64_body assms by simp
qed

lemma bcrypt_returns:
  assumes B: "blowfish_ok B" and slt: "base64Decode slt = Some csalt" and "csalt \<noteq> []"
  shows "\<exists>d. bcrypt B pw c slt = Return d \<and> length d = 31"
proof -
  have "NewSaltedCipher B (pw @ [0]) csalt \<noteq> None"
    using B assms(3) unfolding blowfish_ok_def by blast
  then obtain ci where ci: "expensiveBlowfishSetup B pw c slt = Return ci"
    using slt by (auto simp: expensiveBlowfishSetup_def Let_def)
  let ?d = "take 23 (encrypt_blocks B ci magicCipherData)"
  have d: "length ?d = 23" using length_encrypt_blocks [OF B] by simp
  have sl: "go_slice (encrypt_blocks B ci magicCipherData) 0 maxCryptedHashSize = (Return ?d :: bytes bc)"
    using length_encrypt_blocks [OF B] by (simp add: go_slice_def)
  have "bcrypt B pw c slt = Return (b64_body ?d)"
    by (simp only: bcrypt_def ci bind_go.simps sl encode_digest(1) [OF d])
  then show ?thesis using encode_digest(2) [OF d] by blast
qed

lemma bcrypt_fixed_salt:
  "blowfish_ok B \<Longrightarrow> \<exists>d. bcrypt B pw c fixed_salt = Return d \<and> length d = 31"
  by (rule bcrypt_returns [OF _ fixed_salt_facts(3)]) simp_all

definition used_cost :: "int \<Rightarrow> int" where
  "used_cost c = (if c < MinCost then DefaultCost else c)"

lemma newFromPassword_returns:
  assumes B: "blowfish_ok B" and c: "c \<le> MaxCost"
  shows "\<exists>p. newFromPassword B pw c = Return p \<and> hashed_ok p \<and> length (hash p) = 31 \<and>
    major p = majorVersion \<and> minor p = minorVersion \<and> cost p = used_cost c \<and> salt p = fixed_salt \<and>
    bcrypt B pw (used_cost c) fixed_salt = Return (hash p)"
proof -
  obtain d where d: "bcrypt B pw (used_cost c) fixed_salt = Return d" "length d = 31"
    using bcrypt_fixed_salt [OF B] by blast
  let ?p = "\<lparr>hash = d, salt = fixed_salt, cost = used_cost c, major = majorVersion, minor = minorVersion\<rparr>"
  have cc: "checkCost (used_cost c) = Return ()"
    using c by (simp add: checkCost_def used_cost_def)
  have sel: "cost (p\<lparr>cost := x, salt := y\<rparr>) = x" "salt (p\<lparr>cost := x, salt := y\<rparr>) = y" for p :: hashed and x y
    by simp_all
  have "newFromPassword B pw c = Return (new_hashed\<lparr>major := majorVersion, minor := minorVersion,
      cost := used_cost c, salt := fixed_salt, hash := d\<rparr>)"
    by (simp only: newFromPassword_def Let_def used_cost_def [symmetric] cc bind_go.simps
        fixed_salt_facts(1) sel d(1))
  then have "newFromPassword B pw c = Return ?p" by (simp add: new_hashed_def)
  moreover have "hashed_ok ?p"
    using c d(2) fixed_salt_facts(2) by (simp add: hashed_ok_def used_cost_def)
  ultimately show ?thesis using d by (intro exI [of _ ?p]) simp
qed

text \<open>Comparing a formatted hash, with anything appended, against a password.\<close>

lemma compare_layout:
  assumes ok: "hashed_ok p" and ver: "major p = majorVersion" "minor p = minorVersion"
    and len: "length (hash p) = 31" and d: "bcrypt B pw (cost p) (salt p) = Return d" "length d = 31"
  shows "CompareHashAndPassword B (layout p @ junk) pw =
    (if d = hash p then Return () else Fails ErrMismatchedHashAndPassword)"
proof -
  let ?q = "p\<lparr>hash := hash p @ junk\<rparr>"
  let ?r = "\<lparr>hash = d, salt = salt p, cost = cost p, major = major p, minor = minor p\<rparr>"
  have new: "newFromHash (layout p @ junk) = Return ?q"
    using newFromHash_layout [OF ok, of junk] ver len by simp
  have "hashed_ok ?q" and "hashed_ok ?r" using ok d(2) by (simp_all add: hashed_ok_def)
  then have q: "Hash ?q = Return (layout p)" and r: "Hash ?r = Return (layout ?r)"
    using Hash_layout len by (auto simp: layout_def)
  have sel: "cost ?q = cost p" "salt ?q = salt p" "major ?q = major p" "minor ?q = minor p" by simp_all
  have "layout p = layout ?r \<longleftrightarrow> hash p = d" using len d(2) by (simp add: layout_def)
  then show ?thesis
    by (simp only: CompareHashAndPassword_def new bind_go.simps sel d(1) q r eq_commute [of d])
qed

section \<open>No input panics\<close>

lemma b64_quanta_nonempty: "b64_quanta bs = Some out \<Longrightarrow> bs \<noteq> [] \<Longrightarrow> out \<noteq> []"
  by (cases bs rule: b64_quanta.cases) (auto split: option.splits if_splits)

lemma base64Decode_nonempty: "base64Decode slt = Some csalt \<Longrightarrow> csalt \<noteq> []"
proof -
  assume dec: "base64Decode slt = Some csalt"
  have "4 - length slt mod 4 \<noteq> 0" by simp
  then have "pad \<in> set (filter (\<lambda>b. b \<noteq> 10 \<and> b \<noteq> 13) (slt @ replicate (4 - length slt mod 4) pad))"
    by (simp add: pad_def)
  then have "filter (\<lambda>b. b \<noteq> 10 \<and> b \<noteq> 13) (slt @ replicate (4 - length slt mod 4) pad) \<noteq> []"
    by (metis list.set(1) empty_iff)
  then show ?thesis using dec b64_quanta_nonempty unfolding base64Decode_def b64_decode_def by blast
qed

lemma bcrypt_safe:
  assumes "blowfish_ok B"
  shows "safe (bcrypt B pw c slt)"
proof (cases "base64Decode slt")
  case None
  then show ?thesis by (simp add: bcrypt_def expensiveBlowfishSetup_def)
next
  case (Some csalt)
  then show ?thesis using bcrypt_returns [OF assms Some base64Decode_nonempty] by (metis safe_simps(1))
qed

lemma safe_bind_idx_set:
  "i < length xs \<Longrightarrow> (\<And>ys. length ys = length xs \<Longrightarrow> safe (f ys)) \<Longrightarrow> safe (bind_go (idx_set xs i v) f)"
  by (simp add: idx_set_def)

lemma safe_bind_go_copy:
  "lo \<le> hi \<Longrightarrow> hi \<le> length xs \<Longrightarrow> (\<And>ys. length ys = length xs \<Longrightarrow> safe (f ys)) \<Longrightarrow>
   safe (bind_go (go_copy xs lo hi src) f)"
  by (rule safe_bind [OF safe_go_copy]) (auto dest: length_go_copy)

lemma Hash_safe: "safe (Hash p)"
  by (cases "minor p = 0")
    (auto simp: Hash_def Let_def bind_go_assoc
      intro!: safe_bind_idx_set safe_bind_go_copy safe_go_slice)

lemma decodeVersion_bounds:
  assumes "59 \<le> length hs"
  shows "safe (decodeVersion hs p)" and "decodeVersion hs p = Return (n, q) \<Longrightarrow> n \<le> 4"
  using assms by (auto simp: decodeVersion_def idx_get_def Let_def split: if_splits)

lemma decodeCost_bounds:
  assumes "2 \<le> length hs"
  shows "safe (decodeCost hs p)" and "decodeCost hs p = Return (n, q) \<Longrightarrow> n = 3"
  using assms by (auto simp: decodeCost_def go_slice_def checkCost_def split: if_splits option.splits)

lemma newFromHash_safe: "safe (newFromHash hs)"
proof (cases "length hs < minHashSize")
  case False
  then have len: "59 \<le> length hs" by simp
  show ?thesis
    unfolding newFromHash_def using False
    by (auto intro!: safe_bind decodeVersion_bounds(1) [OF len] safe_go_slice decodeCost_bounds(1)
        dest!: decodeVersion_bounds(2) [OF len] length_go_slice split: prod.split)
      (use len in \<open>auto dest!: decodeCost_bounds(2) [rotated]\<close>)
qed (simp add: newFromHash_def)

lemma newFromHash_salt: "newFromHash hs = Return p \<Longrightarrow> length (salt p) = 22"
  by (auto simp: newFromHash_def bind_go_Return_iff dest!: length_go_slice split: if_splits prod.splits)

section \<open>Properties\<close>

text \<open>
  C26: generating and comparing agree. For every cipher that keeps its documented promise, every
  password and every cost up to \<open>MaxCost\<close>, \<open>GenerateFromPassword\<close> returns a hash of exactly 60
  bytes; \<open>Cost\<close> reads back the cost used (the default for a cost below the minimum);
  \<open>CompareHashAndPassword\<close> accepts the password it was made from and accepts another password
  exactly when its digest is the same, with \<open>ErrMismatchedHashAndPassword\<close> otherwise.
\<close>
theorem bcrypt_roundtrip:
  assumes "blowfish_ok B" and "c \<le> MaxCost"
  shows "\<exists>h. GenerateFromPassword B pw c = Return h \<and> length h = 60 \<and>
    Cost h = Return (if c < MinCost then DefaultCost else c) \<and>
    CompareHashAndPassword B h pw = Return () \<and>
    (\<forall>pw'. CompareHashAndPassword B h pw' =
       (if bcrypt B pw' (used_cost c) fixed_salt = bcrypt B pw (used_cost c) fixed_salt
        then Return () else Fails ErrMismatchedHashAndPassword))"
proof -
  obtain p where p: "newFromPassword B pw c = Return p" "hashed_ok p" "length (hash p) = 31"
    "major p = majorVersion" "minor p = minorVersion" "cost p = used_cost c" "salt p = fixed_salt"
    "bcrypt B pw (used_cost c) fixed_salt = Return (hash p)"
    using newFromPassword_returns [OF assms] by blast
  have gen: "GenerateFromPassword B pw c = Return (layout p)"
    using Hash_layout [OF p(2)] by (simp add: GenerateFromPassword_def p(1))
  have "newFromHash (layout p) = Return (p\<lparr>hash := hash p\<rparr>)"
    using newFromHash_layout [OF p(2), of "[]"] p by simp
  then have cst: "Cost (layout p) = Return (used_cost c)" by (simp add: Cost_def p(6))
  have cmp: "CompareHashAndPassword B (layout p) pw' =
      (if bcrypt B pw' (used_cost c) fixed_salt = bcrypt B pw (used_cost c) fixed_salt
       then Return () else Fails ErrMismatchedHashAndPassword)" for pw'
  proof -
    obtain d where d: "bcrypt B pw' (used_cost c) fixed_salt = Return d" "length d = 31"
      using bcrypt_fixed_salt [OF assms(1)] by blast
    show ?thesis using compare_layout [OF p(2,4,5,3), of B pw' d "[]"] d p(6,7,8) by simp
  qed
  show ?thesis
    using gen length_layout [OF p(2)] cst cmp by (intro exI [of _ "layout p"]) (simp add: used_cost_def)
qed

text \<open>The witnesses' cipher: the key schedule remembers the key, a block is left as it is.\<close>

definition plain_cipher :: "bytes blowfish" where
  "plain_cipher =
     \<lparr>NewSaltedCipher = (\<lambda>key slt. Some key), ExpandKey = (\<lambda>key c. c), Encrypt = (\<lambda>c blk. blk)\<rparr>"

lemma plain_cipher_ok: "blowfish_ok plain_cipher"
  by (simp add: blowfish_ok_def plain_cipher_def)

theorem bcrypt_roundtrip_witness:
  "\<exists>h. GenerateFromPassword plain_cipher [1, 2] 3 = Return h \<and> Cost h = Return 3 \<and>
     CompareHashAndPassword plain_cipher h [1, 2] = Return ()"
  using bcrypt_roundtrip [OF plain_cipher_ok, of 3 "[1, 2]"] by auto

text \<open>
  A cost above the maximum is refused. \<open>GenerateFromPassword\<close> returns \<open>InvalidCostError\<close> for it
  without running the key schedule, for any cipher.
\<close>
theorem generate_refuses_high_cost:
  assumes "MaxCost < c"
  shows "GenerateFromPassword B pw c = Fails (InvalidCostError c)"
  using assms by (simp add: GenerateFromPassword_def newFromPassword_def checkCost_def Let_def)

theorem generate_refuses_high_cost_witness:
  "GenerateFromPassword plain_cipher [1] 32 = Fails (InvalidCostError 32)"
  using generate_refuses_high_cost [of 32 plain_cipher "[1]"] by simp

text \<open>
  C33: comparing is safe on any input. Whatever bytes are given as the hash (too short, a wrong
  prefix or version, a cost that is not a number or out of range, a salt that is not base64, no minor
  version), \<open>CompareHashAndPassword\<close> returns a value or an error: no index or reslice of the parser
  or of the formatter is out of range.
\<close>
theorem compare_never_panics:
  assumes "blowfish_ok B"
  shows "safe (CompareHashAndPassword B h pw)"
  unfolding CompareHashAndPassword_def
  by (intro safe_bind newFromHash_safe bcrypt_safe Hash_safe assms) simp

theorem compare_never_panics_witness:
  "safe (CompareHashAndPassword plain_cipher [36, 50, 97] [1])"
  using compare_never_panics [OF plain_cipher_ok] .

text \<open>
  Bytes after the 60th are ignored. A generated hash followed by anything at all is still accepted
  for its password, because the formatter truncates the parsed digest to 31 bytes before the
  comparison: the accepted text is not unique.
\<close>
theorem compare_ignores_trailing_bytes:
  assumes "blowfish_ok B" and "c \<le> MaxCost" and "GenerateFromPassword B pw c = Return h"
  shows "CompareHashAndPassword B (h @ junk) pw = Return ()"
proof -
  obtain p where p: "newFromPassword B pw c = Return p" "hashed_ok p" "length (hash p) = 31"
    "major p = majorVersion" "minor p = minorVersion" "cost p = used_cost c" "salt p = fixed_salt"
    "bcrypt B pw (used_cost c) fixed_salt = Return (hash p)"
    using newFromPassword_returns [OF assms(1,2)] by blast
  have "h = layout p"
    using assms(3) Hash_layout [OF p(2)] by (simp add: GenerateFromPassword_def p(1))
  then show ?thesis
    using compare_layout [OF p(2,4,5,3), of B pw "hash p" junk] p(3,6,7,8) by simp
qed

theorem compare_ignores_trailing_bytes_witness:
  "\<exists>h. GenerateFromPassword plain_cipher [1] 1 = Return h \<and>
     CompareHashAndPassword plain_cipher (h @ [0, 0]) [1] = Return ()"
proof -
  obtain p where p: "newFromPassword plain_cipher [1] 1 = Return p" "hashed_ok p"
    using newFromPassword_returns [OF plain_cipher_ok, of 1 "[1]"] by auto
  then have h: "GenerateFromPassword plain_cipher [1] 1 = Return (layout p)"
    using Hash_layout by (simp add: GenerateFromPassword_def)
  from compare_ignores_trailing_bytes [OF plain_cipher_ok _ h, of "[0, 0]"] h
  show ?thesis by auto
qed

end
