(* ===== verification/Messages.thy ===== *)
theory Messages
  imports GoPrelude
begin

text \<open>
  The protobuf messages of lab1 that the services exchange (the .proto files; the generated Go
  structs have the same fields). A pointer field is an option, \<open>None\<close> for nil; a repeated field is a
  list; a map field is the list of its entries, in the order in which a \<open>range\<close> loop happens to visit
  them, so a property that must not depend on that order says so explicitly.
\<close>

type_synonym coeffs = "(i32 \<times> u64) list"

text \<open>\<open>UserCoefficients\<close> and \<open>VideoCoefficients\<close> hold one map each; the getter gives an empty map for nil.\<close>

definition GetCoeffs :: "coeffs option \<Rightarrow> coeffs" where
  "GetCoeffs p = (case p of None \<Rightarrow> [] | Some c \<Rightarrow> c)"

record UserInfo =
  ui_UserId :: u64
  ui_Username :: string
  ui_Email :: string
  ui_ProfileUrl :: string
  ui_SubscribedTo :: "u64 list"
  ui_UserCoefficients :: "coeffs option"
  ui_LikedVideos :: "u64 list"

record VideoInfo =
  vi_VideoId :: u64
  vi_Title :: string
  vi_Author :: string
  vi_Url :: string
  vi_VideoCoefficients :: "coeffs option"

record GetTrendingVideosResponse =
  tv_Videos :: "u64 list"
  tv_ExpirationTimeS :: u64

record GetTopVideosRequest =
  req_UserId :: u64
  req_Limit :: int

record GetTopVideosResponse =
  resp_Videos :: "VideoInfo list"
  resp_StaleResponse :: bool

lemma GetCoeffs_simps [simp]: "GetCoeffs None = []" "GetCoeffs (Some c) = c"
  by (simp_all add: GetCoeffs_def)

end
