(* ===== verification/Ranker.thy ===== *)
theory Ranker
  imports DetBcrypt Messages "HOL-Library.Multiset"
begin

text \<open>
  lab1/ranker/ranker.go: the score of a video for a user, a dot product on wrapping 64-bit words
  hashed by FNV-1 and the deterministic bcrypt. \<open>hash/fnv\<close> is part of the standard library and is
  written out (FNV-1: multiply, then exclusive or).
\<close>

unbundle bit_operations_syntax

section \<open>Definitions\<close>

definition fnv32 :: "bytes \<Rightarrow> u32" where
  "fnv32 bs = foldl (\<lambda>h b. (h * 16777619) XOR ucast b) 2166136261 bs"

definition fnv64 :: "bytes \<Rightarrow> u64" where
  "fnv64 bs = foldl (\<lambda>h b. (h * 1099511628211) XOR ucast b) 14695981039346656037 bs"

definition costHash :: "u64 \<Rightarrow> int" where
  "costHash x = int (unat (fnv32 (FormatUint x))) mod (4 - MinCost) + MinCost"

text \<open>The loop over the user's coefficients, in the order the map yields them.\<close>

fun dot_loop :: "coeffs \<Rightarrow> u64 \<Rightarrow> coeffs \<Rightarrow> u64" where
  "dot_loop vcoeffs acc [] = acc"
| "dot_loop vcoeffs acc ((featureId, userCoeff) # rest) =
     dot_loop vcoeffs
       (case map_of vcoeffs featureId of
          Some videoCoeff \<Rightarrow> acc + userCoeff * videoCoeff
        | None \<Rightarrow> acc) rest"

definition dotProduct :: "coeffs option \<Rightarrow> coeffs option \<Rightarrow> u64" where
  "dotProduct u v = dot_loop (GetCoeffs v) 0 (GetCoeffs u)"

definition Rank :: "'c blowfish \<Rightarrow> coeffs option \<Rightarrow> coeffs option \<Rightarrow> u64 outcome" where
  "Rank B u v =
     (let dp = dotProduct u v; pw = pad0 20 (unat dp)
      in case GenerateFromPassword B pw (costHash dp) of
           Return bs \<Rightarrow> Return (fnv64 bs)
         | Fails _ \<Rightarrow> Return (fnv64 [])
         | Panics p \<Rightarrow> Panics p
         | Blocks \<Rightarrow> Blocks)"

section \<open>The dot product is a sum over the common features\<close>

definition term_of :: "coeffs \<Rightarrow> i32 \<times> u64 \<Rightarrow> u64" where
  "term_of vcoeffs e = (case map_of vcoeffs (fst e) of Some w \<Rightarrow> snd e * w | None \<Rightarrow> 0)"

lemma dot_loop_sum: "dot_loop vcoeffs acc es = acc + sum_list (map (term_of vcoeffs) es)"
proof (induction vcoeffs acc es rule: dot_loop.induct)
  case (2 vcoeffs acc f c rest)
  then show ?case by (cases "map_of vcoeffs f") (auto simp: term_of_def add.assoc)
qed simp

lemma sum_list_mset_eq: "mset xs = mset ys \<Longrightarrow> sum_list xs = (sum_list ys :: 'a :: comm_monoid_add)"
  by (metis sum_mset_sum_list)

section \<open>Costs and passwords\<close>

lemma costHash_range: "1 \<le> costHash x \<and> costHash x \<le> 3"
  using pos_mod_bound [of 3 "int (unat (fnv32 (FormatUint x)))"] by (simp add: costHash_def)

lemma u64_decimal_width: "length (pad0 20 (unat (x :: u64))) = 20"
proof -
  have "unat x < 2 ^ LENGTH(64)" by (rule unsigned_less)
  then have "unat x < 10 ^ 20" by simp
  then show ?thesis by (rule length_pad0) simp
qed

definition rank_value :: "'c blowfish \<Rightarrow> coeffs option \<Rightarrow> coeffs option \<Rightarrow> u64" where
  "rank_value B u v =
     (case Rank B u v of Return r \<Rightarrow> r | _ \<Rightarrow> 0)"

lemma Rank_Return:
  assumes "blowfish_ok B"
  shows "Rank B u v = Return (rank_value B u v)"
proof -
  let ?dp = "dotProduct u v"
  obtain p where p: "newFromPassword B (pad0 20 (unat ?dp)) (costHash ?dp) = Return p" "hashed_ok p"
    using newFromPassword_returns [OF assms, of "costHash ?dp"] costHash_range [of ?dp] by auto
  then have "GenerateFromPassword B (pad0 20 (unat ?dp)) (costHash ?dp) = Return (layout p)"
    using Hash_layout by (simp add: GenerateFromPassword_def)
  then show ?thesis by (simp add: Rank_def rank_value_def Let_def)
qed

section \<open>FNV does not forget\<close>

text \<open>The FNV prime is odd, so that no step of the hash merges two states.\<close>

lemma fnv64_step_inj: "(h * 1099511628211) XOR b = (h' * 1099511628211) XOR b \<longleftrightarrow> h = (h' :: u64)"
proof
  assume "(h * 1099511628211) XOR b = (h' * 1099511628211) XOR b"
  then have "((h * 1099511628211) XOR b) XOR b = ((h' * 1099511628211) XOR b) XOR b" by (rule arg_cong)
  then have "h * 1099511628211 = h' * 1099511628211" by (simp only: xor.assoc xor_self_eq xor.right_neutral)
  then have "h * 1099511628211 * 14886173955864302971 = h' * 1099511628211 * 14886173955864302971" by (rule arg_cong)
  moreover have "(1099511628211 * 14886173955864302971 :: u64) = 1" by simp
  ultimately show "h = h'" by (simp only: mult.assoc mult.right_neutral)
qed simp

lemma fnv64_suffix_inj: "fnv64 (xs @ zs) = fnv64 (ys @ zs) \<longleftrightarrow> fnv64 xs = fnv64 ys"
proof -
  have "foldl (\<lambda>h b. (h * 1099511628211) XOR ucast b) h bs = foldl (\<lambda>h b. (h * 1099511628211) XOR ucast b) h' bs \<longleftrightarrow>
      h = h'" for h h' :: u64 and bs :: bytes
    by (induction bs arbitrary: h h') (simp_all add: fnv64_step_inj)
  then show ?thesis by (simp add: fnv64_def)
qed

lemma fnv64_last_byte: "fnv64 (xs @ [x] @ zs) = fnv64 (xs @ [y] @ zs) \<longleftrightarrow> x = y"
proof -
  have "fnv64 (xs @ [x]) = fnv64 (xs @ [y]) \<longleftrightarrow> x = y"
  proof
    assume "fnv64 (xs @ [x]) = fnv64 (xs @ [y])"
    then have "(fnv64 xs * 1099511628211) XOR ucast x = (fnv64 xs * 1099511628211) XOR ucast y"
      by (simp add: fnv64_def)
    then have "(fnv64 xs * 1099511628211) XOR ((fnv64 xs * 1099511628211) XOR ucast x) =
        (fnv64 xs * 1099511628211) XOR ((fnv64 xs * 1099511628211) XOR ucast y)" by simp
    then have "(ucast x :: u64) = ucast y" by (simp only: xor.assoc [symmetric] xor_self_eq xor.left_neutral)
    then show "x = y"
      using uint_up_ucast [where ?'a = 8 and ?'b = 64] by (simp add: is_up word_uint_eq_iff)
  qed simp
  then show ?thesis using fnv64_suffix_inj [of "xs @ [x]" zs "xs @ [y]"] by simp
qed

section \<open>Properties\<close>

text \<open>
  C34: the rank does not depend on the iteration order of Go maps. Two users whose coefficient maps
  have the same entries, visited in any two orders, and two videos whose maps have the same
  contents get the same rank, although the sum wraps around at 64 bits; and ranking always returns,
  for every cipher that keeps its promise: the cost is between 1 and 3, so the error that the code
  discards never arises.
\<close>
theorem rank_order_independent:
  assumes "blowfish_ok B" and "mset us = mset us'" and "map_of vs = map_of vs'"
  shows "Rank B (Some us) (Some vs) = Rank B (Some us') (Some vs') \<and>
    (\<exists>r. Rank B (Some us) (Some vs) = Return r)"
proof -
  have "term_of vs = term_of vs'" using assms(3) by (simp add: term_of_def fun_eq_iff)
  then have "mset (map (term_of vs) us) = mset (map (term_of vs') us')"
    using assms(2) by simp
  then have "dotProduct (Some us) (Some vs) = dotProduct (Some us') (Some vs')"
    by (simp add: dotProduct_def dot_loop_sum sum_list_mset_eq)
  then have "Rank B (Some us) (Some vs) = Rank B (Some us') (Some vs')" by (simp add: Rank_def)
  then show ?thesis using Rank_Return [OF assms(1)] by blast
qed

theorem rank_order_independent_witness:
  "Rank plain_cipher (Some [(1, 2), (5, 3)]) (Some [(5, 7), (1, 4)]) =
     Rank plain_cipher (Some [(5, 3), (1, 2)]) (Some [(1, 4), (5, 7)])"
proof -
  have "mset [(1, 2), (5, 3)] = mset [(5 :: i32, 3 :: u64), (1, 2)]" by simp
  moreover have "map_of [(5, 7), (1, 4)] = map_of [(1 :: i32, 4 :: u64), (5, 7)]"
    by (simp add: fun_eq_iff)
  ultimately show ?thesis using rank_order_independent [OF plain_cipher_ok] by blast
qed

text \<open>
  The bcrypt work per rank is bounded. Every score is hashed with a password of exactly 20 bytes
  and a cost of 1, 2 or 3, that is at most 8 rounds of key expansion, for every 64-bit dot product.
\<close>
theorem rank_cost_bounded:
  "MinCost \<le> costHash x \<and> costHash x \<le> 3 \<and> rounds (costHash x) \<le> 8 \<and>
   length (pad0 20 (unat x)) = 20"
proof -
  have "costHash x = 1 \<or> costHash x = 2 \<or> costHash x = 3" using costHash_range [of x] by arith
  then show ?thesis using u64_decimal_width by (auto simp: rounds_def)
qed

end
