(* ===== verification/VideoRec.thy ===== *)
theory VideoRec
  imports Ranker
begin

text \<open>
  lab1/video_rec_service/server_lib/server_lib.go: the recommendation server. The clients of the user
  service and of the video service are a parameter, the record \<open>clients\<close>: a call takes the client
  picked from the pool and the state \<open>'w\<close> of everything outside the server, and gives an outcome and
  the new outside state. Logging and sleeping change no state.

  A handler is a function from the server and the outside state to an optional result: \<open>None\<close> means
  that one of its batching loops never ends, which the recursion of \<open>partial_function (option)\<close>
  makes explicit. Counters are 64-bit words. \<open>slices.SortFunc\<close> and the cipher of the ranker are
  parameters.
\<close>

section \<open>Options, server and clients\<close>

record VideoRecServiceOptions =
  UserServiceAddr :: string
  VideoServiceAddr :: string
  MaxBatchSize :: int
  ClientPoolSize :: int
  DisableFallback :: bool
  DisableRetry :: bool

record ('u, 'v) VideoRecServiceServer =
  options :: VideoRecServiceOptions
  userServiceClientPool :: "'u list"
  videoServiceClientPool :: "'v list"
  userServiceIdx :: u64
  videoServiceIdx :: u64
  totalRequests :: u64
  totalErrors :: u64
  activeRequests :: u64
  userServiceErrors :: u64
  videoServiceErrors :: u64
  totalTimeMs :: u64
  staleResponses :: u64
  topVideos :: "VideoInfo list"

record ('u, 'v, 'w) clients =
  cl_GetUser :: "'u \<Rightarrow> u64 list \<Rightarrow> 'w \<Rightarrow> UserInfo list outcome \<times> 'w"
  cl_GetVideo :: "'v \<Rightarrow> u64 list \<Rightarrow> 'w \<Rightarrow> VideoInfo list outcome \<times> 'w"
  cl_GetTrendingVideos :: "'v \<Rightarrow> 'w \<Rightarrow> GetTrendingVideosResponse outcome \<times> 'w"

text \<open>The zero value of the server with its options and pools set.\<close>

definition new_server :: "VideoRecServiceOptions \<Rightarrow> 'u list \<Rightarrow> 'v list \<Rightarrow> ('u, 'v) VideoRecServiceServer" where
  "new_server opts userPool videoPool =
     \<lparr>options = opts, userServiceClientPool = userPool, videoServiceClientPool = videoPool,
      userServiceIdx = 0, videoServiceIdx = 0, totalRequests = 0, totalErrors = 0, activeRequests = 0,
      userServiceErrors = 0, videoServiceErrors = 0, totalTimeMs = 0, staleResponses = 0, topVideos = []\<rparr>"

text \<open>A call, and once more if it reported an error and retries are enabled.\<close>

definition retrying :: "bool \<Rightarrow> ('w \<Rightarrow> ('e, 'a) go_result \<times> 'w) \<Rightarrow> 'w \<Rightarrow> ('e, 'a) go_result \<times> 'w" where
  "retrying enabled call w =
     (case call w of
        (Fails e, w') \<Rightarrow> if enabled then call w' else (Fails e, w')
      | r \<Rightarrow> r)"

section \<open>Construction\<close>

text \<open>One pool: \<open>grpc.NewClient\<close>, the parameter \<open>newClient\<close>, once per slot, with a retry per slot.\<close>

fun connect_pool :: "(string \<Rightarrow> 'w \<Rightarrow> (string, 'conn) go_result \<times> 'w) \<Rightarrow> bool \<Rightarrow> string \<Rightarrow> string \<Rightarrow> nat \<Rightarrow> 'w \<Rightarrow>
    'conn list outcome \<times> 'w" where
  "connect_pool newClient retry what addr 0 w = (Return [], w)"
| "connect_pool newClient retry what addr (Suc n) w =
     (case retrying retry (newClient addr) w of
        (Return conn, w') \<Rightarrow>
          (case connect_pool newClient retry what addr n w' of
             (r, w'') \<Rightarrow> (bind_go r (\<lambda>conns. Return (conn # conns)), w''))
      | (Fails err, w') \<Rightarrow>
          (Fails (Status Unavailable (''VideoRecService: could not connect to '' @ what @ '': '' @ err)), w')
      | (Panics p, w') \<Rightarrow> (Panics p, w')
      | (Blocks, w') \<Rightarrow> (Blocks, w'))"

text \<open>\<open>make(\<dots>, 0, options.ClientPoolSize)\<close> panics on a negative capacity.\<close>

definition MakeVideoRecServiceServer :: "(string \<Rightarrow> 'w \<Rightarrow> (string, 'conn) go_result \<times> 'w) \<Rightarrow> ('conn \<Rightarrow> 'u) \<Rightarrow> ('conn \<Rightarrow> 'v) \<Rightarrow>
    VideoRecServiceOptions \<Rightarrow> 'w \<Rightarrow> ('u, 'v) VideoRecServiceServer outcome \<times> 'w" where
  "MakeVideoRecServiceServer newClient newUserServiceClient newVideoServiceClient opts w =
     (if ClientPoolSize opts < 0 then (Panics MakeSliceCapOutOfRange, w)
      else
        let n = nat (ClientPoolSize opts); retry = \<not> DisableRetry opts in
        case connect_pool newClient retry ''UserService'' (UserServiceAddr opts) n w of
          (Return userServiceConns, w') \<Rightarrow>
            (case connect_pool newClient retry ''VideoService'' (VideoServiceAddr opts) n w' of
               (r, w'') \<Rightarrow>
                 (bind_go r (\<lambda>videoServiceConns.
                    Return (new_server opts (map newUserServiceClient userServiceConns)
                      (map newVideoServiceClient videoServiceConns))), w''))
        | (Fails e, w') \<Rightarrow> (Fails e, w')
        | (Panics p, w') \<Rightarrow> (Panics p, w')
        | (Blocks, w') \<Rightarrow> (Blocks, w'))"

definition MakeVideoRecServiceServerWithMocks ::
    "VideoRecServiceOptions \<Rightarrow> 'u \<Rightarrow> 'v \<Rightarrow> ('u, 'v) VideoRecServiceServer outcome" where
  "MakeVideoRecServiceServerWithMocks opts mockUserServiceClient mockVideoServiceClient =
     (if ClientPoolSize opts < 0 then Panics MakeSliceCapOutOfRange
      else Return (new_server opts (replicate (nat (ClientPoolSize opts)) mockUserServiceClient)
                     (replicate (nat (ClientPoolSize opts)) mockVideoServiceClient)))"

section \<open>Picking a client\<close>

text \<open>Both run under a mutex of their own; the deferred unlock also runs when the index panics.\<close>

definition getNextUserClient :: "('u, 'v) VideoRecServiceServer \<Rightarrow> ('u \<times> ('u, 'v) VideoRecServiceServer) outcome" where
  "getNextUserClient server =
     bind_go (idx_get (userServiceClientPool server) (unat (userServiceIdx server))) (\<lambda>client.
       if word_of_int (ClientPoolSize (options server)) = (0 :: u64) then Panics IntegerDivideByZero
       else Return (client, server\<lparr>userServiceIdx :=
              (userServiceIdx server + 1) mod word_of_int (ClientPoolSize (options server))\<rparr>))"

definition getNextVideoClient :: "('u, 'v) VideoRecServiceServer \<Rightarrow> ('v \<times> ('u, 'v) VideoRecServiceServer) outcome" where
  "getNextVideoClient server =
     bind_go (idx_get (videoServiceClientPool server) (unat (videoServiceIdx server))) (\<lambda>client.
       if word_of_int (ClientPoolSize (options server)) = (0 :: u64) then Panics IntegerDivideByZero
       else Return (client, server\<lparr>videoServiceIdx :=
              (videoServiceIdx server + 1) mod word_of_int (ClientPoolSize (options server))\<rparr>))"

section \<open>The batching loops\<close>

definition deduplicate_ids :: "u64 list \<Rightarrow> u64 list" where
  "deduplicate_ids ids = dedup_loop {} ids"

text \<open>\<open>xs[lo:hi]\<close> with \<open>int\<close> bounds.\<close>

definition reslice :: "'a list \<Rightarrow> int \<Rightarrow> int \<Rightarrow> ('e, 'a list) go_result" where
  "reslice xs lo hi =
     (if 0 \<le> lo \<and> lo \<le> hi \<and> hi \<le> int (length xs)
      then Return (take (nat (hi - lo)) (drop (nat lo) xs)) else Panics SliceBoundsOutOfRange)"

definition batch_end :: "int \<Rightarrow> int \<Rightarrow> 'a list \<Rightarrow> int" where
  "batch_end maxBatch i xs =
     (if i + maxBatch > int (length xs) then int (length xs) else i + maxBatch)"

definition user_query_failed ::
    "string \<Rightarrow> grpc_status \<Rightarrow> ('u, 'v) VideoRecServiceServer \<Rightarrow> 'a outcome \<times> ('u, 'v) VideoRecServiceServer" where
  "user_query_failed prefix st server =
     (Fails (Status (st_code st) (prefix @ st_message st)),
      server\<lparr>totalErrors := totalErrors server + 1, userServiceErrors := userServiceErrors server + 1\<rparr>)"

text \<open>
  The users that the requesting user is subscribed to, batch by batch; the loop retries a failed
  batch whatever \<open>DisableRetry\<close> says, as the source does.
\<close>

partial_function (option) subscribed_loop ::
    "('u, 'v, 'w) clients \<Rightarrow> 'u \<Rightarrow> u64 \<Rightarrow> u64 list \<Rightarrow> int \<Rightarrow> u64 list \<Rightarrow> ('u, 'v) VideoRecServiceServer \<Rightarrow> 'w \<Rightarrow>
      (u64 list outcome \<times> ('u, 'v) VideoRecServiceServer \<times> 'w) option" where
  "subscribed_loop C userClient userId subscribedTo i videosToRank server w =
     (if i < int (length subscribedTo) then
        (case reslice subscribedTo i (batch_end (MaxBatchSize (options server)) i subscribedTo) of
           Return userIds \<Rightarrow>
             (case retrying True (cl_GetUser C userClient userIds) w of
                (Return userInfos, w') \<Rightarrow>
                  subscribed_loop C userClient userId subscribedTo (i + MaxBatchSize (options server))
                    (videosToRank @ concat (map ui_LikedVideos userInfos)) server w'
              | (Fails st, w') \<Rightarrow>
                  (case user_query_failed
                          (''VideoRecService: error querying UserService for users that user '' @
                           dec_string (unat userId) @ '' is subscribed to: '') st server of
                     (r, server') \<Rightarrow> Some (r, server', w'))
              | (Panics p, w') \<Rightarrow> Some (Panics p, server, w')
              | (Blocks, w') \<Rightarrow> Some (Blocks, server, w'))
         | Fails st \<Rightarrow> Some (Fails st, server, w)
         | Panics p \<Rightarrow> Some (Panics p, server, w)
         | Blocks \<Rightarrow> Some (Blocks, server, w))
      else Some (Return videosToRank, server, w))"

text \<open>A failed \<open>GetVideo\<close> is counted, and then answered from the cache unless fallback is disabled.\<close>

definition video_query_failed :: "grpc_status \<Rightarrow> ('u, 'v) VideoRecServiceServer \<Rightarrow>
    (VideoInfo list \<times> bool) outcome \<times> ('u, 'v) VideoRecServiceServer" where
  "video_query_failed st server =
     (let server = server\<lparr>totalErrors := totalErrors server + 1,
                          videoServiceErrors := videoServiceErrors server + 1\<rparr>
      in if DisableFallback (options server) then
           (Fails (Status (st_code st) (''VideoRecService: error querying VideoService: '' @ st_message st)),
            server)
         else
           let server = server\<lparr>staleResponses := staleResponses server + 1\<rparr>; videoInfos = topVideos server
           in if length videoInfos = 0 then
                (Fails (Status (st_code st)
                   (''VideoRecService: error querying VideoService, no cached videos: '' @ st_message st)), server)
              else (Return (videoInfos, True), server))"

partial_function (option) video_loop ::
    "('u, 'v, 'w) clients \<Rightarrow> 'v \<Rightarrow> u64 list \<Rightarrow> int \<Rightarrow> VideoInfo list \<Rightarrow> ('u, 'v) VideoRecServiceServer \<Rightarrow> 'w \<Rightarrow>
      ((VideoInfo list \<times> bool) outcome \<times> ('u, 'v) VideoRecServiceServer \<times> 'w) option" where
  "video_loop C videoClient videosToRank i videoInfos server w =
     (if i < int (length videosToRank) then
        (case reslice videosToRank i (batch_end (MaxBatchSize (options server)) i videosToRank) of
           Return videoIds \<Rightarrow>
             (case retrying (\<not> DisableRetry (options server)) (cl_GetVideo C videoClient videoIds) w of
                (Return infos, w') \<Rightarrow>
                  video_loop C videoClient videosToRank (i + MaxBatchSize (options server))
                    (videoInfos @ infos) server w'
              | (Fails st, w') \<Rightarrow>
                  (case video_query_failed st server of (r, server') \<Rightarrow> Some (r, server', w'))
              | (Panics p, w') \<Rightarrow> Some (Panics p, server, w')
              | (Blocks, w') \<Rightarrow> Some (Blocks, server, w'))
         | Fails st \<Rightarrow> Some (Fails st, server, w)
         | Panics p \<Rightarrow> Some (Panics p, server, w)
         | Blocks \<Rightarrow> Some (Blocks, server, w))
      else Some (Return (videoInfos, False), server, w))"

section \<open>Ranking\<close>

text \<open>
  The rank map is keyed by pointers in the source; two pointers to equal videos get equal ranks, so
  it is keyed by the video here. Reading a missing key gives the zero value.
\<close>

fun rank_loop :: "'c blowfish \<Rightarrow> coeffs option \<Rightarrow> (VideoInfo \<rightharpoonup> u64) \<Rightarrow> VideoInfo list \<Rightarrow> (VideoInfo \<rightharpoonup> u64) outcome" where
  "rank_loop B coeffs rankMap [] = Return rankMap"
| "rank_loop B coeffs rankMap (videoInfo # rest) =
     bind_go (Rank B coeffs (vi_VideoCoefficients videoInfo)) (\<lambda>r.
       rank_loop B coeffs (rankMap(videoInfo \<mapsto> r)) rest)"

definition getVideoRanks :: "'c blowfish \<Rightarrow> coeffs option \<Rightarrow> VideoInfo list \<Rightarrow> (VideoInfo \<rightharpoonup> u64) outcome" where
  "getVideoRanks B coeffs videos = rank_loop B coeffs Map.empty videos"

definition rank_at :: "(VideoInfo \<rightharpoonup> u64) \<Rightarrow> VideoInfo \<Rightarrow> u64" where
  "rank_at rankMap v = (case rankMap v of Some r \<Rightarrow> r | None \<Rightarrow> 0)"

definition cmp_rank :: "(VideoInfo \<rightharpoonup> u64) \<Rightarrow> VideoInfo \<Rightarrow> VideoInfo \<Rightarrow> int" where
  "cmp_rank rankMap a b =
     (if rank_at rankMap a > rank_at rankMap b then -1
      else if rank_at rankMap a = rank_at rankMap b then 0 else 1)"

text \<open>
  The tail of the handler. On the fallback path \<open>videoInfos\<close> is the slice \<open>server.topVideos\<close> itself, so
  the sort reorders the cache in place.
\<close>

definition rank_and_cut :: "'c blowfish \<Rightarrow> ((VideoInfo \<Rightarrow> VideoInfo \<Rightarrow> int) \<Rightarrow> VideoInfo list \<Rightarrow> VideoInfo list) \<Rightarrow>
    coeffs option \<Rightarrow> int \<Rightarrow> VideoInfo list \<Rightarrow> bool \<Rightarrow> ('u, 'v) VideoRecServiceServer \<Rightarrow>
    GetTopVideosResponse outcome \<times> ('u, 'v) VideoRecServiceServer" where
  "rank_and_cut B sortFunc coeffs limit videoInfos isStaleResponse server =
     (case getVideoRanks B coeffs videoInfos of
        Return rankMap \<Rightarrow>
          (let videoInfos = sortFunc (cmp_rank rankMap) videoInfos;
               server = (if isStaleResponse then server\<lparr>topVideos := videoInfos\<rparr> else server);
               videoInfos = (if limit \<noteq> 0 \<and> limit < int (length videoInfos) then take (nat limit) videoInfos
                             else videoInfos)
           in (Return \<lparr>resp_Videos = videoInfos, resp_StaleResponse = isStaleResponse\<rparr>, server))
      | Fails st \<Rightarrow> (Fails st, server)
      | Panics p \<Rightarrow> (Panics p, server)
      | Blocks \<Rightarrow> (Blocks, server))"

section \<open>GetTopVideos\<close>

text \<open>From the video service on: pick a client, fetch the videos or the cache, rank, sort and cut.\<close>

definition fetch_and_rank :: "('u, 'v, 'w) clients \<Rightarrow> 'c blowfish \<Rightarrow>
    ((VideoInfo \<Rightarrow> VideoInfo \<Rightarrow> int) \<Rightarrow> VideoInfo list \<Rightarrow> VideoInfo list) \<Rightarrow> coeffs option \<Rightarrow> int \<Rightarrow> u64 list \<Rightarrow>
    ('u, 'v) VideoRecServiceServer \<Rightarrow> 'w \<Rightarrow>
    (GetTopVideosResponse outcome \<times> ('u, 'v) VideoRecServiceServer \<times> 'w) option" where
  "fetch_and_rank C B sortFunc userCoefficients limit videosToRank server w =
     (case getNextVideoClient server of
        Return (videoClient, server) \<Rightarrow>
          (case video_loop C videoClient videosToRank 0 [] server w of
             None \<Rightarrow> None
           | Some (Return (videoInfos, isStaleResponse), server, w) \<Rightarrow>
               (case rank_and_cut B sortFunc userCoefficients limit videoInfos isStaleResponse server of
                  (r, server) \<Rightarrow> Some (r, server, w))
           | Some (Fails st, server, w) \<Rightarrow> Some (Fails st, server, w)
           | Some (Panics p, server, w) \<Rightarrow> Some (Panics p, server, w)
           | Some (Blocks, server, w) \<Rightarrow> Some (Blocks, server, w))
      | Fails st \<Rightarrow> Some (Fails st, server, w)
      | Panics p \<Rightarrow> Some (Panics p, server, w)
      | Blocks \<Rightarrow> Some (Blocks, server, w))"

text \<open>The body of the handler, without what the deferred functions do.\<close>

definition top_videos_body :: "('u, 'v, 'w) clients \<Rightarrow> 'c blowfish \<Rightarrow>
    ((VideoInfo \<Rightarrow> VideoInfo \<Rightarrow> int) \<Rightarrow> VideoInfo list \<Rightarrow> VideoInfo list) \<Rightarrow> GetTopVideosRequest \<Rightarrow>
    ('u, 'v) VideoRecServiceServer \<Rightarrow> 'w \<Rightarrow>
    (GetTopVideosResponse outcome \<times> ('u, 'v) VideoRecServiceServer \<times> 'w) option" where
  "top_videos_body C B sortFunc req server w =
     (if req_Limit req < 0 then
        Some (Fails (Status InvalidArgument ''VideoRecService: top videos limit must be nonnegative''), server, w)
      else
        (case getNextUserClient server of
           Return (userClient, server) \<Rightarrow>
             (case retrying (\<not> DisableRetry (options server)) (cl_GetUser C userClient [req_UserId req]) w of
                (Return users, w) \<Rightarrow>
                  (case idx_get users 0 of
                     Return user \<Rightarrow>
                       (case subscribed_loop C userClient (req_UserId req) (ui_SubscribedTo user) 0 [] server w of
                          None \<Rightarrow> None
                        | Some (Return videosToRank, server, w) \<Rightarrow>
                            fetch_and_rank C B sortFunc (ui_UserCoefficients user) (req_Limit req)
                              (deduplicate_ids videosToRank) server w
                        | Some (Fails st, server, w) \<Rightarrow> Some (Fails st, server, w)
                        | Some (Panics p, server, w) \<Rightarrow> Some (Panics p, server, w)
                        | Some (Blocks, server, w) \<Rightarrow> Some (Blocks, server, w))
                   | Fails st \<Rightarrow> Some (Fails st, server, w)
                   | Panics p \<Rightarrow> Some (Panics p, server, w)
                   | Blocks \<Rightarrow> Some (Blocks, server, w))
              | (Fails st, w) \<Rightarrow>
                  (case user_query_failed
                          (''VideoRecService: error querying UserService for user '' @
                           dec_string (unat (req_UserId req)) @ '': '') st server of
                     (r, server) \<Rightarrow> Some (r, server, w))
              | (Panics p, w) \<Rightarrow> Some (Panics p, server, w)
              | (Blocks, w) \<Rightarrow> Some (Blocks, server, w))
         | Fails st \<Rightarrow> Some (Fails st, server, w)
         | Panics p \<Rightarrow> Some (Panics p, server, w)
         | Blocks \<Rightarrow> Some (Blocks, server, w)))"

text \<open>
  The deferred functions run on every return and on a panic, and not while the call hangs;
  \<open>activeRequests.Add(^uint64(0))\<close> adds the word of all ones.
\<close>

definition GetTopVideos :: "('u, 'v, 'w) clients \<Rightarrow> 'c blowfish \<Rightarrow>
    ((VideoInfo \<Rightarrow> VideoInfo \<Rightarrow> int) \<Rightarrow> VideoInfo list \<Rightarrow> VideoInfo list) \<Rightarrow> u64 \<Rightarrow> GetTopVideosRequest \<Rightarrow>
    ('u, 'v) VideoRecServiceServer \<Rightarrow> 'w \<Rightarrow>
    (GetTopVideosResponse outcome \<times> ('u, 'v) VideoRecServiceServer \<times> 'w) option" where
  "GetTopVideos C B sortFunc elapsed req server w =
     (let server = server\<lparr>totalRequests := totalRequests server + 1,
                          activeRequests := activeRequests server + 1\<rparr>
      in case top_videos_body C B sortFunc req server w of
           None \<Rightarrow> None
         | Some (Blocks, server, w) \<Rightarrow> Some (Blocks, server, w)
         | Some (r, server, w) \<Rightarrow>
             Some (r, server\<lparr>totalTimeMs := totalTimeMs server + elapsed,
                             activeRequests := activeRequests server + not 0\<rparr>, w))"

section \<open>GetStats and the cache\<close>

record 'f GetStatsResponse =
  gs_TotalRequests :: u64
  gs_TotalErrors :: u64
  gs_ActiveRequests :: u64
  gs_UserServiceErrors :: u64
  gs_VideoServiceErrors :: u64
  gs_AverageLatencyMs :: 'f
  gs_P99LatencyMs :: "'f option"
  gs_StaleResponses :: u64

text \<open>\<open>f32_div\<close> is the quotient of two counters converted to \<open>float32\<close>, a NaN before the first request. A field that
  the response leaves unset is \<open>None\<close>.\<close>

definition GetStats :: "(u64 \<Rightarrow> u64 \<Rightarrow> 'f) \<Rightarrow> ('u, 'v) VideoRecServiceServer \<Rightarrow> 'f GetStatsResponse" where
  "GetStats f32_div server =
     \<lparr>gs_TotalRequests = totalRequests server, gs_TotalErrors = totalErrors server,
      gs_ActiveRequests = activeRequests server, gs_UserServiceErrors = userServiceErrors server,
      gs_VideoServiceErrors = videoServiceErrors server,
      gs_AverageLatencyMs = f32_div (totalTimeMs server) (totalRequests server),
      gs_P99LatencyMs = None, gs_StaleResponses = staleResponses server\<rparr>"

text \<open>
  One turn of the loop of \<open>ContinuallyRefreshCache\<close> and how it ends: with the pause before the next
  turn, in seconds or until a Unix time, or with a panic or a hanging call.
\<close>

datatype refresh = PauseFor int | PauseUntil int | RefreshPanics go_panic | RefreshBlocks

definition refresh_turn :: "('u, 'v, 'w) clients \<Rightarrow> ('u, 'v) VideoRecServiceServer \<Rightarrow> 'w \<Rightarrow>
    refresh \<times> ('u, 'v) VideoRecServiceServer \<times> 'w" where
  "refresh_turn C server w =
     (case getNextVideoClient server of
        Return (videoClient, server) \<Rightarrow>
          (case cl_GetTrendingVideos C videoClient w of
             (Return resp, w) \<Rightarrow>
               (case cl_GetVideo C videoClient (tv_Videos resp) w of
                  (Return infos, w) \<Rightarrow>
                    (PauseUntil (sint (tv_ExpirationTimeS resp)), server\<lparr>topVideos := infos\<rparr>, w)
                | (Fails _, w) \<Rightarrow> (PauseFor 10, server, w)
                | (Panics p, w) \<Rightarrow> (RefreshPanics p, server, w)
                | (Blocks, w) \<Rightarrow> (RefreshBlocks, server, w))
           | (Fails _, w) \<Rightarrow> (PauseFor 10, server, w)
           | (Panics p, w) \<Rightarrow> (RefreshPanics p, server, w)
           | (Blocks, w) \<Rightarrow> (RefreshBlocks, server, w))
      | Fails _ \<Rightarrow> (RefreshBlocks, server, w)
      | Panics p \<Rightarrow> (RefreshPanics p, server, w)
      | Blocks \<Rightarrow> (RefreshBlocks, server, w))"

text \<open>The first \<open>n\<close> turns: the loop goes on after a pause only. With fallback disabled it never starts.\<close>

fun ContinuallyRefreshCache :: "('u, 'v, 'w) clients \<Rightarrow> nat \<Rightarrow> ('u, 'v) VideoRecServiceServer \<Rightarrow> 'w \<Rightarrow>
    refresh list \<times> ('u, 'v) VideoRecServiceServer \<times> 'w" where
  "ContinuallyRefreshCache C 0 server w = ([], server, w)"
| "ContinuallyRefreshCache C (Suc n) server w =
     (if DisableFallback (options server) then ([], server, w)
      else case refresh_turn C server w of
             (RefreshPanics p, server, w) \<Rightarrow> ([RefreshPanics p], server, w)
           | (RefreshBlocks, server, w) \<Rightarrow> ([RefreshBlocks], server, w)
           | (pause, server, w) \<Rightarrow>
               (case ContinuallyRefreshCache C n server w of (ps, server, w) \<Rightarrow> (pause # ps, server, w)))"

end
