(* ===== verification/VideoRecProps.thy ===== *)
theory VideoRecProps
  imports VideoRec
begin

text \<open>
  Facts about the recommendation server that hold whatever its clients do: the rotation over the
  client pools, the accounting of every request, the termination of the batching loops, retries, and
  the fallback to the cache.
\<close>

section \<open>The client pools\<close>

definition pool_ok :: "('u, 'v) VideoRecServiceServer \<Rightarrow> bool" where
  "pool_ok server \<longleftrightarrow>
     0 < ClientPoolSize (options server) \<and> ClientPoolSize (options server) < 2 ^ 63 \<and>
     length (userServiceClientPool server) = nat (ClientPoolSize (options server)) \<and>
     length (videoServiceClientPool server) = nat (ClientPoolSize (options server)) \<and>
     unat (userServiceIdx server) < length (userServiceClientPool server) \<and>
     unat (videoServiceIdx server) < length (videoServiceClientPool server)"

lemma next_index:
  assumes n: "0 < n" "n < 2 ^ 63" and i: "unat (i :: u64) < nat n"
  shows "unat ((i + 1) mod word_of_int n) = (unat i + 1) mod nat n"
    and "word_of_int n \<noteq> (0 :: u64)"
proof -
  have w: "unat (word_of_int n :: u64) = nat n"
    using n by (simp add: unat_eq_nat_uint uint_word_of_int)
  have "unat i + 1 < 2 ^ LENGTH(64)" using n i by simp
  then have "unat (i + 1) = unat i + 1" by (simp add: unat_word_ariths)
  then show "unat ((i + 1) mod word_of_int n) = (unat i + 1) mod nat n" by (simp add: unat_mod_distrib w)
  show "word_of_int n \<noteq> (0 :: u64)" using w n by auto
qed

lemma getNextUserClient_ok:
  assumes "pool_ok server"
  shows "\<exists>i. getNextUserClient server =
      Return (userServiceClientPool server ! unat (userServiceIdx server), server\<lparr>userServiceIdx := i\<rparr>) \<and>
    unat i = (unat (userServiceIdx server) + 1) mod length (userServiceClientPool server) \<and>
    pool_ok (server\<lparr>userServiceIdx := i\<rparr>)"
  using assms next_index [of "ClientPoolSize (options server)" "userServiceIdx server"]
  by (auto simp: pool_ok_def getNextUserClient_def go_simps)

lemma getNextVideoClient_ok:
  assumes "pool_ok server"
  shows "\<exists>i. getNextVideoClient server =
      Return (videoServiceClientPool server ! unat (videoServiceIdx server), server\<lparr>videoServiceIdx := i\<rparr>) \<and>
    unat i = (unat (videoServiceIdx server) + 1) mod length (videoServiceClientPool server) \<and>
    pool_ok (server\<lparr>videoServiceIdx := i\<rparr>)"
  using assms next_index [of "ClientPoolSize (options server)" "videoServiceIdx server"]
  by (auto simp: pool_ok_def getNextVideoClient_def go_simps)

lemma pool_ok_new_server:
  "0 < ClientPoolSize opts \<Longrightarrow> ClientPoolSize opts < 2 ^ 63 \<Longrightarrow> length us = nat (ClientPoolSize opts) \<Longrightarrow>
   length vs = nat (ClientPoolSize opts) \<Longrightarrow> pool_ok (new_server opts us vs)"
  by (simp add: pool_ok_def new_server_def)

text \<open>Consecutive picks, as the requests served make them.\<close>

fun next_user_clients :: "nat \<Rightarrow> ('u, 'v) VideoRecServiceServer \<Rightarrow> ('u list \<times> ('u, 'v) VideoRecServiceServer) outcome" where
  "next_user_clients 0 server = Return ([], server)"
| "next_user_clients (Suc k) server =
     bind_go (getNextUserClient server) (\<lambda>(c, server).
     bind_go (next_user_clients k server) (\<lambda>(cs, server). Return (c # cs, server)))"

lemma next_user_clients_rotate:
  assumes "pool_ok server"
  shows "\<exists>server'. next_user_clients k server =
      Return (map (\<lambda>j. userServiceClientPool server ! ((unat (userServiceIdx server) + j) mod
                    length (userServiceClientPool server))) [0..<k], server') \<and>
    pool_ok server' \<and> userServiceClientPool server' = userServiceClientPool server \<and>
    unat (userServiceIdx server') = (unat (userServiceIdx server) + k) mod length (userServiceClientPool server)"
  using assms
proof (induction k arbitrary: server)
  case 0
  then show ?case by (simp add: pool_ok_def)
next
  case (Suc k)
  let ?pool = "userServiceClientPool server" and ?i = "unat (userServiceIdx server)"
  obtain i where get: "getNextUserClient server = Return (?pool ! ?i, server\<lparr>userServiceIdx := i\<rparr>)"
    and i: "unat i = (?i + 1) mod length ?pool" and ok: "pool_ok (server\<lparr>userServiceIdx := i\<rparr>)"
    using getNextUserClient_ok [OF Suc.prems] by blast
  obtain server' where rest: "next_user_clients k (server\<lparr>userServiceIdx := i\<rparr>) =
      Return (map (\<lambda>j. ?pool ! ((unat i + j) mod length ?pool)) [0..<k], server')"
    and ok': "pool_ok server'" "userServiceClientPool server' = ?pool"
    and i': "unat (userServiceIdx server') = (unat i + k) mod length ?pool"
    using Suc.IH [OF ok] by auto
  have shift: "(unat i + j) mod length ?pool = (?i + Suc j) mod length ?pool" for j
    unfolding i mod_add_left_eq by simp
  have "?i mod length ?pool = ?i" using Suc.prems by (simp add: pool_ok_def)
  then have "map (\<lambda>j. ?pool ! ((?i + j) mod length ?pool)) [0..<Suc k] =
      ?pool ! ?i # map (\<lambda>j. ?pool ! ((unat i + j) mod length ?pool)) [0..<k]"
    by (simp add: upt_conv_Cons map_Suc_upt [symmetric] shift comp_def del: upt_Suc)
  then show ?case using get rest ok' i' shift by simp
qed

text \<open>
  Round robin. Served by a pool of \<open>n\<close> connections, \<open>k\<close> consecutive picks never panic and give
  the pool's slots in rotation from the current index, wrapping at \<open>n\<close>; in particular \<open>n\<close> picks use
  every slot exactly once and leave the index where it was.
\<close>
theorem user_pool_round_robin:
  assumes "pool_ok server"
  shows "\<exists>server'. next_user_clients k server =
      Return (map (\<lambda>j. userServiceClientPool server ! ((unat (userServiceIdx server) + j) mod
                    length (userServiceClientPool server))) [0..<k], server') \<and> pool_ok server' \<and>
    (k = length (userServiceClientPool server) \<longrightarrow>
       userServiceIdx server' = userServiceIdx server \<and>
       next_user_clients k server =
         Return (rotate (unat (userServiceIdx server)) (userServiceClientPool server), server'))"
proof -
  let ?pool = "userServiceClientPool server" and ?i = "unat (userServiceIdx server)"
  obtain server' where s: "next_user_clients k server =
      Return (map (\<lambda>j. ?pool ! ((?i + j) mod length ?pool)) [0..<k], server')" "pool_ok server'"
    and i: "unat (userServiceIdx server') = (?i + k) mod length ?pool"
    using next_user_clients_rotate [OF assms] by blast
  have "?i < length ?pool" using assms by (simp add: pool_ok_def)
  moreover have "map (\<lambda>j. ?pool ! ((?i + j) mod length ?pool)) [0..<length ?pool] = rotate ?i ?pool"
    by (rule nth_equalityI) (simp_all add: nth_rotate)
  moreover have "userServiceIdx server' = userServiceIdx server" if "k = length ?pool"
    using i that \<open>?i < length ?pool\<close> by (simp add: word_unat_eq_iff)
  ultimately show ?thesis using s by auto
qed

section \<open>Accounting\<close>

text \<open>What the two loops may do to the server: count a failure, and nothing else.\<close>

definition user_failure :: "('u, 'v) VideoRecServiceServer \<Rightarrow> ('u, 'v) VideoRecServiceServer" where
  "user_failure server =
     server\<lparr>totalErrors := totalErrors server + 1, userServiceErrors := userServiceErrors server + 1\<rparr>"

definition video_failure :: "bool \<Rightarrow> ('u, 'v) VideoRecServiceServer \<Rightarrow> ('u, 'v) VideoRecServiceServer" where
  "video_failure stale server =
     server\<lparr>totalErrors := totalErrors server + 1, videoServiceErrors := videoServiceErrors server + 1,
            staleResponses := staleResponses server + of_bool stale\<rparr>"

lemma user_query_failed_eq:
  "user_query_failed prefix st server =
     (Fails (Status (st_code st) (prefix @ st_message st)), user_failure server)"
  by (simp add: user_query_failed_def user_failure_def)

lemma video_query_failed_cases:
  assumes "video_query_failed st server = (r, server')"
  shows "server' = video_failure (\<not> DisableFallback (options server)) server \<and>
    (if DisableFallback (options server) \<or> topVideos server = []
     then \<exists>msg. r = Fails (Status (st_code st) msg) else r = Return (topVideos server, True))"
  using assms by (auto simp: video_query_failed_def Let_def video_failure_def split: if_splits)

lemma subscribed_loop_frame:
  assumes "subscribed_loop C c userId subs i acc server w = Some y"
  shows "fst (snd y) = (case fst y of Fails _ \<Rightarrow> user_failure server | _ \<Rightarrow> server)"
  using assms
proof (rule subscribed_loop.raw_induct [rotated], goal_cases)
  case (1 loop C c userId subs i acc server w y)
  note IH = 1(1) and eq = 1(2)
  show ?case
  proof (cases "i < int (length subs)")
    case True
    show ?thesis
    proof (cases "reslice subs i (batch_end (MaxBatchSize (options server)) i subs) :: u64 list outcome")
      case (Return ids)
      obtain q w1 where q: "retrying True (cl_GetUser C c ids) w = (q, w1)" by (rule prod.exhaust)
      show ?thesis
        using eq True Return q IH by (cases q) (auto simp: user_query_failed_eq)
    qed (use eq True in \<open>auto simp: reslice_def split: if_splits\<close>)
  qed (use eq in auto)
qed

lemma video_loop_frame:
  assumes "video_loop C c ids i acc server w = Some y"
  shows "(fst (snd y) = server \<and> (\<forall>st. fst y \<noteq> Fails st) \<and> (\<forall>vs. fst y \<noteq> Return (vs, True))) \<or>
    (fst (snd y) = video_failure (\<not> DisableFallback (options server)) server \<and>
     (if DisableFallback (options server) \<or> topVideos server = [] then \<exists>st. fst y = Fails st
      else fst y = Return (topVideos server, True)))"
  using assms
proof (rule video_loop.raw_induct [rotated], goal_cases)
  case (1 loop C c ids i acc server w y)
  note IH = 1(1) and eq = 1(2)
  show ?case
  proof (cases "i < int (length ids)")
    case True
    show ?thesis
    proof (cases "reslice ids i (batch_end (MaxBatchSize (options server)) i ids) :: u64 list outcome")
      case (Return batch)
      obtain q w1 where q: "retrying (\<not> DisableRetry (options server)) (cl_GetVideo C c batch) w = (q, w1)"
        by (rule prod.exhaust)
      show ?thesis
      proof (cases q)
        case (Return vs)
        then show ?thesis
          using eq True \<open>reslice _ _ _ = _\<close> q by (intro IH) simp
      next
        case (Fails st)
        obtain r server' where f: "video_query_failed st server = (r, server')" by (rule prod.exhaust)
        then have "y = (r, server', w1)" using eq True Return q Fails by simp
        then show ?thesis using video_query_failed_cases [OF f] by (auto split: if_splits)
      qed (use eq True Return q in auto)
    qed (use eq True in \<open>auto simp: reslice_def split: if_splits\<close>)
  qed (use eq in auto)
qed

text \<open>
  How a request may leave the counters: at most one failure is counted, of one of the two services,
  and a stale answer is counted only together with a failure of the video service.
\<close>

definition accounted :: "bool \<Rightarrow> bool \<Rightarrow> bool \<Rightarrow> ('u, 'v) VideoRecServiceServer \<Rightarrow> ('u, 'v) VideoRecServiceServer \<Rightarrow> bool" where
  "accounted userFailed videoFailed stale server server' \<longleftrightarrow>
     totalErrors server' = totalErrors server + of_bool (userFailed \<or> videoFailed) \<and>
     userServiceErrors server' = userServiceErrors server + of_bool userFailed \<and>
     videoServiceErrors server' = videoServiceErrors server + of_bool videoFailed \<and>
     staleResponses server' = staleResponses server + of_bool stale \<and>
     \<not> (userFailed \<and> videoFailed) \<and> (stale \<longrightarrow> videoFailed)"

definition same_core :: "('u, 'v) VideoRecServiceServer \<Rightarrow> ('u, 'v) VideoRecServiceServer \<Rightarrow> bool" where
  "same_core server server' \<longleftrightarrow>
     options server' = options server \<and>
     userServiceClientPool server' = userServiceClientPool server \<and>
     videoServiceClientPool server' = videoServiceClientPool server \<and>
     totalRequests server' = totalRequests server \<and> activeRequests server' = activeRequests server \<and>
     totalTimeMs server' = totalTimeMs server"

lemma getNextUserClient_frame:
  "getNextUserClient server = Return (c, server') \<Longrightarrow> \<exists>i. server' = server\<lparr>userServiceIdx := i\<rparr>"
  "getNextUserClient server \<noteq> Fails st" "getNextUserClient server \<noteq> Blocks"
  by (auto simp: getNextUserClient_def bind_go_Return_iff idx_get_def split: if_splits)

lemma getNextVideoClient_frame:
  "getNextVideoClient server = Return (c, server') \<Longrightarrow> \<exists>i. server' = server\<lparr>videoServiceIdx := i\<rparr>"
  "getNextVideoClient server \<noteq> Fails st" "getNextVideoClient server \<noteq> Blocks"
  by (auto simp: getNextVideoClient_def bind_go_Return_iff idx_get_def split: if_splits)

lemma Rank_not_Fails: "Rank B u v \<noteq> Fails st"
  by (auto simp: Rank_def Let_def split: go_result.splits)

lemma rank_loop_not_Fails: "rank_loop B cs m vs \<noteq> Fails st"
proof (induction B cs m vs rule: rank_loop.induct)
  case (2 B cs m v rest)
  show ?case
  proof (cases "Rank B cs (vi_VideoCoefficients v)")
    case (Return r)
    then show ?thesis using "2.IH" [of r] by (simp add: fun_upd_def)
  next
    case (Fails st)
    then show ?thesis using Rank_not_Fails by blast
  qed simp_all
qed simp

lemma rank_and_cut_frame:
  assumes "rank_and_cut B sf cs limit vs stale server = (r, server')"
  shows "server' = server\<lparr>topVideos := topVideos server'\<rparr> \<and> (\<forall>st. r \<noteq> Fails st) \<and>
    (\<forall>resp. r = Return resp \<longrightarrow> resp_StaleResponse resp = stale)"
  using assms rank_loop_not_Fails [of B cs Map.empty vs]
  by (auto simp: rank_and_cut_def getVideoRanks_def Let_def split: go_result.splits if_splits)

lemma fetch_and_rank_frame:
  assumes "fetch_and_rank C B sf cs limit ids server w = Some (r, server', w')"
  shows "same_core server server' \<and>
    (\<exists>v s. accounted False v s server server' \<and> (\<forall>st. r = Fails st \<longrightarrow> v) \<and>
       (\<forall>resp. r = Return resp \<longrightarrow> resp_StaleResponse resp = v))"
proof (cases "getNextVideoClient server")
  case (Return p)
  obtain c s1 where p: "p = (c, s1)" by (rule prod.exhaust)
  obtain i where s1: "s1 = server\<lparr>videoServiceIdx := i\<rparr>"
    using getNextVideoClient_frame(1) [of server c s1] Return p by auto
  obtain q where q: "video_loop C c ids 0 [] s1 w = Some q"
    using assms Return p by (auto simp: fetch_and_rank_def split: option.splits)
  obtain r1 s2 w1 where q3: "q = (r1, s2, w1)" by (metis prod.exhaust)
  note f = video_loop_frame [OF q, unfolded q3, simplified]
  show ?thesis
  proof (cases r1)
    case (Return x)
    obtain vs stale where x: "x = (vs, stale)" by (rule prod.exhaust)
    obtain r2 s3 where t: "rank_and_cut B sf cs limit vs stale s2 = (r2, s3)" by (rule prod.exhaust)
    have e: "r = r2" "server' = s3"
      using assms \<open>getNextVideoClient server = _\<close> p q q3 Return x t by (simp_all add: fetch_and_rank_def)
    note t' = rank_and_cut_frame [OF t]
    obtain top where s3: "s3 = s2\<lparr>topVideos := top\<rparr>" using t' by blast
    have core: "same_core s2 s3" "accounted False False False s2 s3"
      unfolding s3 by (simp_all add: same_core_def accounted_def)
    show ?thesis
    proof (cases stale)
      case True
      then have "s2 = video_failure True s1" using f Return x by (auto split: if_splits)
      then have "same_core server server' \<and> accounted False True True server server'"
        using core e s1 by (simp add: same_core_def accounted_def video_failure_def)
      then show ?thesis using t' e True by blast
    next
      case False
      then have "s2 = s1" using f Return x by (auto split: if_splits)
      then have "same_core server server' \<and> accounted False False False server server'"
        using core e s1 by (simp add: same_core_def accounted_def)
      then show ?thesis using t' e False by blast
    qed
  next
    case (Fails st)
    then have "server' = video_failure (\<not> DisableFallback (options s1)) s1" "r = Fails st"
      using assms \<open>getNextVideoClient server = _\<close> p q q3 f by (auto simp: fetch_and_rank_def)
    then show ?thesis using s1
      by (intro conjI exI [of _ True] exI [of _ "\<not> DisableFallback (options server)"])
        (simp_all add: same_core_def accounted_def video_failure_def)
  next
    case (Panics pn)
    then have "server' = s1" "r = Panics pn"
      using assms \<open>getNextVideoClient server = _\<close> p q q3 f by (auto simp: fetch_and_rank_def split: if_splits)
    then show ?thesis using s1
      by (intro conjI exI [of _ False]) (simp_all add: same_core_def accounted_def)
  next
    case Blocks
    then have "server' = s1" "r = Blocks"
      using assms \<open>getNextVideoClient server = _\<close> p q q3 f by (auto simp: fetch_and_rank_def split: if_splits)
    then show ?thesis using s1
      by (intro conjI exI [of _ False]) (simp_all add: same_core_def accounted_def)
  qed
next
  case (Panics p)
  then show ?thesis using assms
    by (intro conjI exI [of _ False]) (auto simp: fetch_and_rank_def same_core_def accounted_def)
qed (auto simp: getNextVideoClient_frame(2,3))

text \<open>
  The same for the whole body: apart from the rejection of a negative limit, a request that ends in
  an error has counted exactly one failure.
\<close>

definition request_accounted :: "int \<Rightarrow> GetTopVideosResponse outcome \<Rightarrow>
    ('u, 'v) VideoRecServiceServer \<Rightarrow> ('u, 'v) VideoRecServiceServer \<Rightarrow> bool" where
  "request_accounted limit r server server' \<longleftrightarrow>
     (\<exists>u v s. accounted u v s server server' \<and>
        (\<forall>st. r = Fails st \<longrightarrow> (u \<or> v \<longleftrightarrow> 0 \<le> limit)) \<and>
        (\<forall>resp. r = Return resp \<longrightarrow> \<not> u \<and> (resp_StaleResponse resp \<longleftrightarrow> v)) \<and>
        (\<forall>p. r = Panics p \<longrightarrow> \<not> u))"

lemma request_accounted_intro:
  "accounted u v s server server' \<Longrightarrow>
   (\<forall>st. r = Fails st \<longrightarrow> (u \<or> v \<longleftrightarrow> 0 \<le> limit)) \<Longrightarrow>
   (\<forall>resp. r = Return resp \<longrightarrow> \<not> u \<and> (resp_StaleResponse resp \<longleftrightarrow> v)) \<Longrightarrow>
   (\<forall>p. r = Panics p \<longrightarrow> \<not> u) \<Longrightarrow> request_accounted limit r server server'"
  unfolding request_accounted_def by blast

lemma no_failure_accounted:
  "\<lbrakk>\<forall>st. r \<noteq> Fails st; \<forall>resp. r \<noteq> Return resp; same_core server server';
    accounted False False False server server'\<rbrakk> \<Longrightarrow> request_accounted limit r server server'"
  by (rule request_accounted_intro) auto

text \<open>After the first query: the loop over the subscriptions, then the videos.\<close>

definition after_user :: "('u, 'v, 'w) clients \<Rightarrow> 'c blowfish \<Rightarrow>
    ((VideoInfo \<Rightarrow> VideoInfo \<Rightarrow> int) \<Rightarrow> VideoInfo list \<Rightarrow> VideoInfo list) \<Rightarrow> GetTopVideosRequest \<Rightarrow> 'u \<Rightarrow> UserInfo \<Rightarrow>
    ('u, 'v) VideoRecServiceServer \<Rightarrow> 'w \<Rightarrow>
    (GetTopVideosResponse outcome \<times> ('u, 'v) VideoRecServiceServer \<times> 'w) option" where
  "after_user C B sortFunc req userClient user server w =
     (case subscribed_loop C userClient (req_UserId req) (ui_SubscribedTo user) 0 [] server w of
        None \<Rightarrow> None
      | Some (Return videosToRank, server, w) \<Rightarrow>
          fetch_and_rank C B sortFunc (ui_UserCoefficients user) (req_Limit req)
            (deduplicate_ids videosToRank) server w
      | Some (Fails st, server, w) \<Rightarrow> Some (Fails st, server, w)
      | Some (Panics p, server, w) \<Rightarrow> Some (Panics p, server, w)
      | Some (Blocks, server, w) \<Rightarrow> Some (Blocks, server, w))"

lemma after_user_frame:
  assumes "after_user C B sf req c user server w = Some (r, server', w')" and "0 \<le> req_Limit req"
  shows "same_core server server' \<and> request_accounted (req_Limit req) r server server'"
proof -
  obtain q where q: "subscribed_loop C c (req_UserId req) (ui_SubscribedTo user) 0 [] server w = Some q"
    using assms by (auto simp: after_user_def split: option.splits)
  obtain r1 s1 w1 where q3: "q = (r1, s1, w1)" by (metis prod.exhaust)
  note f = subscribed_loop_frame [OF q, unfolded q3, simplified]
  show ?thesis
  proof (cases r1)
    case (Return ids)
    then have "fetch_and_rank C B sf (ui_UserCoefficients user) (req_Limit req) (deduplicate_ids ids) server w1
        = Some (r, server', w')"
      using assms(1) q q3 f by (simp add: after_user_def)
    from fetch_and_rank_frame [OF this] assms(2) show ?thesis
      unfolding request_accounted_def by blast
  next
    case (Fails st)
    then have s: "server' = user_failure server" "r = Fails st"
      using assms(1) q q3 f by (auto simp: after_user_def)
    have "same_core server server'" "accounted True False False server server'"
      unfolding s(1) by (simp_all add: same_core_def accounted_def user_failure_def)
    then show ?thesis
      using s(2) assms(2) by (auto intro!: request_accounted_intro [of True False False])
  qed (use assms(1) q q3 f in
      \<open>auto simp: after_user_def same_core_def accounted_def intro!: request_accounted_intro [of False False False]\<close>)
qed

lemma idx_get_first [simp]: "idx_get [] 0 = Panics IndexOutOfRange" "idx_get (x # xs) 0 = Return x"
  by (simp_all add: idx_get_def)

lemma top_videos_body_cases:
  assumes "0 \<le> req_Limit req" and "getNextUserClient server = Return (c, s1)"
    and "retrying (\<not> DisableRetry (options s1)) (cl_GetUser C c [req_UserId req]) w = (q, w1)"
  shows "top_videos_body C B sf req server w =
    (case q of
       Return [] \<Rightarrow> Some (Panics IndexOutOfRange, s1, w1)
     | Return (user # _) \<Rightarrow> after_user C B sf req c user s1 w1
     | Fails st \<Rightarrow>
         Some (Fails (Status (st_code st) (''VideoRecService: error querying UserService for user '' @
            dec_string (unat (req_UserId req)) @ '': '' @ st_message st)), user_failure s1, w1)
     | Panics p \<Rightarrow> Some (Panics p, s1, w1)
     | Blocks \<Rightarrow> Some (Blocks, s1, w1))"
  using assms
  by (cases q; cases "case q of Return us \<Rightarrow> us | _ \<Rightarrow> []")
    (auto simp: top_videos_body_def after_user_def user_query_failed_eq)

lemma top_videos_body_frame:
  assumes "top_videos_body C B sf req server w = Some (r, server', w')"
  shows "same_core server server' \<and> request_accounted (req_Limit req) r server server'"
proof (cases "req_Limit req < 0")
  case True
  then have "server' = server" "\<forall>resp. r \<noteq> Return resp" "\<forall>p. r \<noteq> Panics p"
    using assms by (auto simp: top_videos_body_def)
  then show ?thesis using True
    by (auto simp: same_core_def accounted_def intro!: request_accounted_intro [of False False False])
next
  case False
  then have lim: "0 \<le> req_Limit req" by simp
  show ?thesis
  proof (cases "getNextUserClient server")
    case (Return p)
    obtain c s1 where p: "p = (c, s1)" by (rule prod.exhaust)
    have pick: "getNextUserClient server = Return (c, s1)" using Return p by simp
    then obtain i where s1: "s1 = server\<lparr>userServiceIdx := i\<rparr>"
      using getNextUserClient_frame(1) [of server c s1] by auto
    obtain q w1 where q: "retrying (\<not> DisableRetry (options s1)) (cl_GetUser C c [req_UserId req]) w = (q, w1)"
      by (rule prod.exhaust)
    note body = assms [unfolded top_videos_body_cases [OF lim pick q]]
    have to_server: "same_core s1 server' \<and> request_accounted (req_Limit req) r s1 server' \<Longrightarrow> ?thesis"
      using s1 by (simp add: same_core_def request_accounted_def accounted_def)
    show ?thesis
    proof (cases q)
      case (Return us)
      show ?thesis
      proof (cases us)
        case Nil
        then have "server' = s1" "r = Panics IndexOutOfRange" using body Return by auto
        then show ?thesis
          by (intro to_server) (auto simp: same_core_def accounted_def
              intro!: request_accounted_intro [of False False False])
      next
        case (Cons user us')
        then have "after_user C B sf req c user s1 w1 = Some (r, server', w')" using body Return by simp
        from after_user_frame [OF this lim] show ?thesis by (rule to_server)
      qed
    next
      case (Fails st)
      then have s: "server' = user_failure s1" and r: "\<exists>st. r = Fails st" using body by auto
      have "same_core s1 server'" "accounted True False False s1 server'"
        unfolding s by (simp_all add: same_core_def accounted_def user_failure_def)
      then show ?thesis
        using r lim by (intro to_server) (auto intro!: request_accounted_intro [of True False False])
    qed (use body s1 in \<open>auto simp: same_core_def accounted_def
           intro!: request_accounted_intro [of False False False]\<close>)
  next
    case (Panics p)
    then show ?thesis using assms False
      by (auto simp: top_videos_body_def same_core_def accounted_def
          intro!: request_accounted_intro [of False False False])
  qed (auto simp: getNextUserClient_frame(2,3))
qed

lemma GetTopVideos_body:
  assumes "GetTopVideos C B sf elapsed req server w = Some (r, server', w')"
  obtains s1 where "top_videos_body C B sf req
      (server\<lparr>totalRequests := totalRequests server + 1, activeRequests := activeRequests server + 1\<rparr>) w
      = Some (r, s1, w')"
    and "server' = (if r = Blocks then s1
                    else s1\<lparr>totalTimeMs := totalTimeMs s1 + elapsed, activeRequests := activeRequests s1 + not 0\<rparr>)"
  using assms by (auto simp: GetTopVideos_def Let_def split: option.splits go_result.splits prod.splits)

text \<open>
  C3: every request is accounted for, whatever the clients answer. Whenever a call of \<open>GetTopVideos\<close>
  ends, in a response, an error or a panic, \<open>totalRequests\<close> has grown by one, \<open>activeRequests\<close> is back
  at its old value (it stays one higher exactly when the call hangs), and the elapsed time has been
  added. \<open>totalErrors\<close> grows by one exactly when one of the two service counters does, never both; an
  error response is counted unless it rejects a negative limit; a response is marked stale exactly
  when a video-service failure was counted, so a successful fallback counts as an error.
\<close>
theorem every_request_accounted:
  assumes "GetTopVideos C B sf elapsed req server w = Some (r, server', w')"
  shows "totalRequests server' = totalRequests server + 1 \<and>
    activeRequests server' = activeRequests server + of_bool (r = Blocks) \<and>
    totalTimeMs server' = totalTimeMs server + (if r = Blocks then 0 else elapsed) \<and>
    request_accounted (req_Limit req) r server server' \<and>
    options server' = options server \<and>
    userServiceClientPool server' = userServiceClientPool server \<and>
    videoServiceClientPool server' = videoServiceClientPool server"
proof -
  let ?s = "server\<lparr>totalRequests := totalRequests server + 1, activeRequests := activeRequests server + 1\<rparr>"
  obtain s1 where body: "top_videos_body C B sf req ?s w = Some (r, s1, w')"
    and s': "server' = (if r = Blocks then s1
                    else s1\<lparr>totalTimeMs := totalTimeMs s1 + elapsed, activeRequests := activeRequests s1 + not 0\<rparr>)"
    using GetTopVideos_body [OF assms] by blast
  have frame: "same_core ?s s1" "request_accounted (req_Limit req) r ?s s1"
    using top_videos_body_frame [OF body] by auto
  have "accounted u v st server server' \<longleftrightarrow> accounted u v st ?s s1" for u v st
    by (simp add: accounted_def s')
  then have "request_accounted (req_Limit req) r server server'"
    using frame(2) by (simp only: request_accounted_def)
  then show ?thesis
    using frame(1) by (simp add: same_core_def s' word_add_minus_one)
qed

text \<open>Clients for the witnesses: one user without subscriptions, and a video service that always fails.\<close>

definition down_clients :: "(unit, unit, unit) clients" where
  "down_clients =
     \<lparr>cl_GetUser = (\<lambda>_ ids w. (Return (map (\<lambda>i. \<lparr>ui_UserId = i, ui_Username = [], ui_Email = [],
        ui_ProfileUrl = [], ui_SubscribedTo = (if i = 7 then [8] else []), ui_UserCoefficients = None,
        ui_LikedVideos = [1000]\<rparr>) ids), w)),
      cl_GetVideo = (\<lambda>_ _ w. (Fails (Status Unavailable ''down''), w)),
      cl_GetTrendingVideos = (\<lambda>_ w. (Fails (Status Unavailable ''down''), w))\<rparr>"

definition demo_options :: VideoRecServiceOptions where
  "demo_options = \<lparr>UserServiceAddr = [], VideoServiceAddr = [], MaxBatchSize = 50, ClientPoolSize = 1,
     DisableFallback = False, DisableRetry = False\<rparr>"

definition demo_server :: "(unit, unit) VideoRecServiceServer" where
  "demo_server = new_server demo_options [()] [()]"

definition demo_request :: "u64 \<Rightarrow> GetTopVideosRequest" where
  "demo_request uid = \<lparr>req_UserId = uid, req_Limit = 3\<rparr>"

lemmas demo_run = GetTopVideos_def top_videos_body_def demo_request_def demo_server_def demo_options_def
  new_server_def down_clients_def getNextUserClient_def retrying_def subscribed_loop.simps reslice_def
  batch_end_def fetch_and_rank_def getNextVideoClient_def deduplicate_ids_def video_loop.simps
  video_query_failed_def

theorem every_request_accounted_witness:
  "\<exists>st s w. GetTopVideos down_clients plain_cipher (\<lambda>_ vs. vs) 5 (demo_request 7) demo_server () =
     Some (Fails st, s, w) \<and> totalRequests s = 1 \<and> activeRequests s = 0 \<and> totalTimeMs s = 5"
proof -
  obtain st s w where run: "GetTopVideos down_clients plain_cipher (\<lambda>_ vs. vs) 5 (demo_request 7) demo_server () =
      Some (Fails st, s, w)"
    by (simp add: demo_run)
  from every_request_accounted [OF this]
  have "totalRequests s = 1 \<and> activeRequests s = 0 \<and> totalTimeMs s = 5"
    by (simp add: demo_server_def new_server_def)
  with run show ?thesis by blast
qed

theorem user_pool_round_robin_witness:
  "\<exists>s. next_user_clients 3 (new_server (demo_options\<lparr>ClientPoolSize := 3\<rparr>) [''a'', ''b'', ''c''] [(), (), ()]) =
     Return ([''a'', ''b'', ''c''], s)"
proof -
  have "pool_ok (new_server (demo_options\<lparr>ClientPoolSize := 3\<rparr>) [''a'', ''b'', ''c''] [(), (), ()])"
    by (rule pool_ok_new_server) (simp_all add: demo_options_def)
  from user_pool_round_robin [OF this, of 3] show ?thesis by (auto simp: new_server_def)
qed

section \<open>One turn of a batching loop\<close>

lemma batch_end_cases:
  assumes "0 < m" and "0 \<le> i" and "i < int (length xs)"
  shows "reslice xs i (batch_end m i xs) = Return (take (nat m) (drop (nat i) xs))"
    and "take (nat m) (drop (nat i) xs) \<noteq> []"
    and "int (length (take (nat m) (drop (nat i) xs))) \<le> m"
    and "set (take (nat m) (drop (nat i) xs)) \<subseteq> set (drop (nat i) xs)"
    and "drop (nat i) xs = take (nat m) (drop (nat i) xs) @ drop (nat (i + m)) xs"
proof -
  show "reslice xs i (batch_end m i xs) = Return (take (nat m) (drop (nat i) xs))"
    using assms by (auto simp: reslice_def batch_end_def nat_add_distrib nat_diff_distrib)
  show "take (nat m) (drop (nat i) xs) \<noteq> []" using assms by auto
  show "int (length (take (nat m) (drop (nat i) xs))) \<le> m" using assms by auto
  show "set (take (nat m) (drop (nat i) xs)) \<subseteq> set (drop (nat i) xs)" by (rule set_take_subset)
  have "drop (nat (i + m)) xs = drop (nat m) (drop (nat i) xs)"
    using assms by (simp add: nat_add_distrib add.commute)
  then show "drop (nat i) xs = take (nat m) (drop (nat i) xs) @ drop (nat (i + m)) xs"
    by (metis append_take_drop_id)
qed

lemma subscribed_loop_step:
  assumes "0 < MaxBatchSize (options server)" and "0 \<le> i" and "i < int (length subs)"
    and "retrying True (cl_GetUser C c (take (nat (MaxBatchSize (options server))) (drop (nat i) subs))) w = (Return us, w1)"
  shows "subscribed_loop C c userId subs i acc server w =
    subscribed_loop C c userId subs (i + MaxBatchSize (options server)) (acc @ concat (map ui_LikedVideos us)) server w1"
  using assms by (simp add: subscribed_loop.simps [of C c userId subs i] batch_end_cases(1))

lemma video_loop_step:
  assumes "0 < MaxBatchSize (options server)" and "0 \<le> i" and "i < int (length ids)"
    and "retrying (\<not> DisableRetry (options server))
      (cl_GetVideo C c (take (nat (MaxBatchSize (options server))) (drop (nat i) ids))) w = (Return vs, w1)"
  shows "video_loop C c ids i acc server w =
    video_loop C c ids (i + MaxBatchSize (options server)) (acc @ vs) server w1"
  using assms by (simp add: video_loop.simps [of C c ids i] batch_end_cases(1))

section \<open>Termination\<close>

lemma subscribed_loop_ends:
  "0 < MaxBatchSize (options server) \<Longrightarrow> \<exists>y. subscribed_loop C c userId subs i acc server w = Some y"
proof (induction "nat (int (length subs) - i)" arbitrary: i acc w rule: less_induct)
  case less
  have step: "\<exists>y. subscribed_loop C c userId subs (i + MaxBatchSize (options server)) acc' server w' = Some y"
    if "i < int (length subs)" for acc' w'
    using less.hyps [of "i + MaxBatchSize (options server)"] less.prems that by simp
  show ?case
    by (subst subscribed_loop.simps) (auto split: go_result.splits prod.splits simp: step simp del: split_paired_Ex)
qed

lemma video_loop_ends:
  "0 < MaxBatchSize (options server) \<Longrightarrow> \<exists>y. video_loop C c ids i acc server w = Some y"
proof (induction "nat (int (length ids) - i)" arbitrary: i acc w rule: less_induct)
  case less
  have step: "\<exists>y. video_loop C c ids (i + MaxBatchSize (options server)) acc' server w' = Some y"
    if "i < int (length ids)" for acc' w'
    using less.hyps [of "i + MaxBatchSize (options server)"] less.prems that by simp
  show ?case
    by (subst video_loop.simps) (auto split: go_result.splits prod.splits simp: step simp del: split_paired_Ex)
qed

lemma fetch_and_rank_ends:
  assumes "0 < MaxBatchSize (options server)"
  shows "\<exists>y. fetch_and_rank C B sf cs limit ids server w = Some y"
proof (cases "getNextVideoClient server")
  case (Return p)
  obtain c s1 where p: "p = (c, s1)" by (rule prod.exhaust)
  then have "options s1 = options server" using getNextVideoClient_frame(1) [of server c s1] Return by auto
  then obtain y where "video_loop C c ids 0 [] s1 w = Some y"
    using video_loop_ends [of s1] assms by metis
  then show ?thesis using Return p
    by (auto simp: fetch_and_rank_def split: go_result.splits prod.splits)
qed (simp_all add: fetch_and_rank_def)

lemma after_user_ends:
  assumes "0 < MaxBatchSize (options server)"
  shows "\<exists>y. after_user C B sf req c user server w = Some y"
proof -
  obtain q s1 w1 where q: "subscribed_loop C c (req_UserId req) (ui_SubscribedTo user) 0 [] server w = Some (q, s1, w1)"
    using subscribed_loop_ends [OF assms] by (metis prod.exhaust)
  have "options s1 = options server"
    using subscribed_loop_frame [OF q] by (auto simp: user_failure_def split: go_result.splits)
  then show ?thesis
    using q fetch_and_rank_ends [of s1] assms
    by (auto simp: after_user_def split: go_result.splits)
qed

text \<open>
  C9: with a positive batch size \<open>GetTopVideos\<close> always ends. Neither batching loop runs forever,
  whatever the clients answer and however long the lists of subscriptions and liked videos are.
\<close>
theorem get_top_videos_terminates:
  assumes "0 < MaxBatchSize (options server)"
  shows "\<exists>r server' w'. GetTopVideos C B sf elapsed req server w = Some (r, server', w')"
proof -
  let ?s = "server\<lparr>totalRequests := totalRequests server + 1, activeRequests := activeRequests server + 1\<rparr>"
  have "\<exists>y. top_videos_body C B sf req ?s w = Some y"
  proof (cases "0 \<le> req_Limit req \<and> returns (getNextUserClient ?s)")
    case True
    then obtain c s1 where pick: "getNextUserClient ?s = Return (c, s1)" by (auto elim!: returnsE)
    obtain q w1 where q: "retrying (\<not> DisableRetry (options s1)) (cl_GetUser C c [req_UserId req]) w = (q, w1)"
      by (rule prod.exhaust)
    have "options s1 = options server" using getNextUserClient_frame(1) [OF pick] by auto
    then show ?thesis
      using assms after_user_ends [of s1]
      unfolding top_videos_body_cases [OF conjunct1 [OF True] pick q]
      by (auto split: go_result.splits list.splits)
  next
    case False
    then show ?thesis by (auto simp: top_videos_body_def split: go_result.splits)
  qed
  then show ?thesis
    by (auto simp: GetTopVideos_def Let_def split: go_result.splits prod.splits)
qed

theorem get_top_videos_terminates_witness:
  "\<exists>r server' w'. GetTopVideos down_clients plain_cipher (\<lambda>_ vs. vs) 5 (demo_request 7) demo_server () =
     Some (r, server', w')"
  by (rule get_top_videos_terminates) (simp add: demo_server_def new_server_def demo_options_def)

section \<open>Ranked responses\<close>

text \<open>
  What \<open>slices.SortFunc\<close> documents: for a comparison that is a strict weak order the result is a
  permutation in ascending order; nothing is said of the order of equal elements.
\<close>

definition weak_order :: "('a \<Rightarrow> 'a \<Rightarrow> int) \<Rightarrow> bool" where
  "weak_order cmp \<longleftrightarrow>
     (\<forall>a b. cmp a b < 0 \<longleftrightarrow> 0 < cmp b a) \<and> (\<forall>a b c. cmp a b \<le> 0 \<longrightarrow> cmp b c \<le> 0 \<longrightarrow> cmp a c \<le> 0)"

definition sort_ok :: "(('a \<Rightarrow> 'a \<Rightarrow> int) \<Rightarrow> 'a list \<Rightarrow> 'a list) \<Rightarrow> bool" where
  "sort_ok sortFunc \<longleftrightarrow>
     (\<forall>cmp xs. weak_order cmp \<longrightarrow>
        mset (sortFunc cmp xs) = mset xs \<and> sorted_wrt (\<lambda>a b. cmp a b \<le> 0) (sortFunc cmp xs))"

lemma cmp_rank_weak_order: "weak_order (cmp_rank m)"
  by (auto simp: weak_order_def cmp_rank_def)

lemma cmp_rank_le: "cmp_rank m a b \<le> 0 \<longleftrightarrow> rank_at m b \<le> rank_at m a"
  by (auto simp: cmp_rank_def)

lemma rank_loop_value:
  assumes "blowfish_ok B"
  shows "\<exists>m'. rank_loop B cs m vs = Return m' \<and>
    (\<forall>v. v \<in> set vs \<longrightarrow> rank_at m' v = rank_value B cs (vi_VideoCoefficients v)) \<and>
    (\<forall>v. v \<notin> set vs \<longrightarrow> m' v = m v)"
proof (induction vs arbitrary: m)
  case (Cons v vs)
  let ?r = "rank_value B cs (vi_VideoCoefficients v)"
  obtain m' where m': "rank_loop B cs (m(v \<mapsto> ?r)) vs = Return m'"
    "\<forall>u. u \<in> set vs \<longrightarrow> rank_at m' u = rank_value B cs (vi_VideoCoefficients u)"
    "\<forall>u. u \<notin> set vs \<longrightarrow> m' u = (m(v \<mapsto> ?r)) u"
    using Cons.IH by blast
  have "rank_at m' v = ?r"
    using m'(2,3) by (cases "v \<in> set vs") (auto simp: rank_at_def)
  then show ?case using m' Rank_Return [OF assms] by (intro exI [of _ m']) auto
qed simp

lemma getVideoRanks_value:
  assumes "blowfish_ok B"
  shows "\<exists>m. getVideoRanks B cs vs = Return m \<and>
    (\<forall>v\<in>set vs. rank_at m v = rank_value B cs (vi_VideoCoefficients v))"
  using rank_loop_value [OF assms, of cs Map.empty vs] by (auto simp: getVideoRanks_def)

definition by_rank :: "'c blowfish \<Rightarrow> coeffs option \<Rightarrow> VideoInfo list \<Rightarrow> bool" where
  "by_rank B cs vs \<longleftrightarrow>
     sorted_wrt (\<lambda>a b. rank_value B cs (vi_VideoCoefficients b) \<le> rank_value B cs (vi_VideoCoefficients a)) vs"

definition cut :: "int \<Rightarrow> 'a list \<Rightarrow> 'a list" where
  "cut limit vs = (if limit = 0 then vs else take (nat limit) vs)"

lemma rank_and_cut_value:
  assumes "blowfish_ok B" and "sort_ok sf" and "0 \<le> limit"
  shows "\<exists>ws. rank_and_cut B sf cs limit vs stale server =
      (Return \<lparr>resp_Videos = cut limit ws, resp_StaleResponse = stale\<rparr>,
       if stale then server\<lparr>topVideos := ws\<rparr> else server) \<and>
    mset ws = mset vs \<and> by_rank B cs ws"
proof -
  obtain m where m: "getVideoRanks B cs vs = Return m"
    "\<forall>v\<in>set vs. rank_at m v = rank_value B cs (vi_VideoCoefficients v)"
    using getVideoRanks_value [OF assms(1)] by blast
  let ?ws = "sf (cmp_rank m) vs"
  have s: "mset ?ws = mset vs" "sorted_wrt (\<lambda>a b. cmp_rank m a b \<le> 0) ?ws"
    using assms(2) cmp_rank_weak_order by (simp_all add: sort_ok_def)
  have set_ws: "set ?ws = set vs" using s(1) by (rule mset_eq_setD)
  have "by_rank B cs ?ws"
    unfolding by_rank_def
    by (rule sorted_wrt_mono_rel [OF _ s(2)]) (use m(2) set_ws in \<open>simp add: cmp_rank_le\<close>)
  moreover have "rank_and_cut B sf cs limit vs stale server =
      (Return \<lparr>resp_Videos = cut limit ?ws, resp_StaleResponse = stale\<rparr>,
       if stale then server\<lparr>topVideos := ?ws\<rparr> else server)"
    using assms(3) m(1) by (auto simp: rank_and_cut_def cut_def Let_def)
  ultimately show ?thesis using s(1) by blast
qed

text \<open>Insertion sort, an instance of the documented behaviour of \<open>slices.SortFunc\<close>.\<close>

fun insert_cmp :: "('a \<Rightarrow> 'a \<Rightarrow> int) \<Rightarrow> 'a \<Rightarrow> 'a list \<Rightarrow> 'a list" where
  "insert_cmp cmp x [] = [x]"
| "insert_cmp cmp x (y # ys) = (if cmp x y \<le> 0 then x # y # ys else y # insert_cmp cmp x ys)"

fun sort_cmp :: "('a \<Rightarrow> 'a \<Rightarrow> int) \<Rightarrow> 'a list \<Rightarrow> 'a list" where
  "sort_cmp cmp [] = []"
| "sort_cmp cmp (x # xs) = insert_cmp cmp x (sort_cmp cmp xs)"

lemma mset_insert_cmp [simp]: "mset (insert_cmp cmp x xs) = add_mset x (mset xs)"
  by (induction cmp x xs rule: insert_cmp.induct) auto

lemma sorted_insert_cmp:
  assumes w: "weak_order cmp"
  shows "sorted_wrt (\<lambda>a b. cmp a b \<le> 0) xs \<Longrightarrow> sorted_wrt (\<lambda>a b. cmp a b \<le> 0) (insert_cmp cmp x xs)"
proof (induction xs)
  case (Cons y ys)
  have trans: "cmp a b \<le> 0 \<Longrightarrow> cmp b c \<le> 0 \<Longrightarrow> cmp a c \<le> 0" for a b c
    using w unfolding weak_order_def by blast
  show ?case
  proof (cases "cmp x y \<le> 0")
    case True
    then show ?thesis using Cons.prems trans by auto
  next
    case False
    then have "cmp y x \<le> 0" using w unfolding weak_order_def by (metis not_less order.strict_implies_order)
    moreover have "set (insert_cmp cmp x ys) = insert x (set ys)"
      by (metis mset_insert_cmp set_mset_add_mset_insert set_mset_mset)
    ultimately show ?thesis using False Cons by auto
  qed
qed simp

lemma sort_cmp_ok: "sort_ok sort_cmp"
proof -
  have "mset (sort_cmp cmp xs) = mset xs" for cmp :: "'a \<Rightarrow> 'a \<Rightarrow> int" and xs
    by (induction xs) auto
  moreover have "weak_order cmp \<Longrightarrow> sorted_wrt (\<lambda>a b. cmp a b \<le> 0) (sort_cmp cmp xs)"
    for cmp :: "'a \<Rightarrow> 'a \<Rightarrow> int" and xs
    by (induction xs) (auto intro: sorted_insert_cmp)
  ultimately show ?thesis by (simp add: sort_ok_def)
qed

definition demo_video :: "u64 \<Rightarrow> VideoInfo" where
  "demo_video i = \<lparr>vi_VideoId = i, vi_Title = [], vi_Author = [], vi_Url = [], vi_VideoCoefficients = None\<rparr>"

section \<open>Retries\<close>

lemma GetTopVideos_of_body:
  "GetTopVideos C B sf elapsed req server w =
     map_option (\<lambda>(r, s, w). (r, if r = Blocks then s
       else s\<lparr>totalTimeMs := totalTimeMs s + elapsed, activeRequests := activeRequests s + not 0\<rparr>, w))
     (top_videos_body C B sf req
       (server\<lparr>totalRequests := totalRequests server + 1, activeRequests := activeRequests server + 1\<rparr>) w)"
  by (auto simp: GetTopVideos_def Let_def split: option.splits go_result.splits)

text \<open>
  C23: the first query is tried at most twice. When the picked client fails the query for the
  requesting user: with retries disabled the request fails at once with that error's code; otherwise
  the call is repeated once, on the same client; if it fails again the request fails with the second
  error's code; and if it succeeds the whole request goes on exactly as if the first call had never
  been made.
\<close>
theorem initial_query_retry:
  assumes "pool_ok server" and lim: "0 \<le> req_Limit req"
    and c: "c = userServiceClientPool server ! unat (userServiceIdx server)"
    and first: "cl_GetUser C c [req_UserId req] w = (Fails st, w1)"
  shows "if DisableRetry (options server)
    then \<exists>msg s. GetTopVideos C B sf elapsed req server w = Some (Fails (Status (st_code st) msg), s, w1)
    else case cl_GetUser C c [req_UserId req] w1 of
           (Fails st2, w2) \<Rightarrow>
             (\<exists>msg s. GetTopVideos C B sf elapsed req server w = Some (Fails (Status (st_code st2) msg), s, w2))
         | (Return us, w2) \<Rightarrow>
             GetTopVideos C B sf elapsed req server w = GetTopVideos C B sf elapsed req server w1
         | _ \<Rightarrow> True"
proof -
  let ?s = "server\<lparr>totalRequests := totalRequests server + 1, activeRequests := activeRequests server + 1\<rparr>"
  have "pool_ok ?s" using assms(1) by (simp add: pool_ok_def)
  from getNextUserClient_ok [OF this] obtain i
    where pick: "getNextUserClient ?s = Return (c, ?s\<lparr>userServiceIdx := i\<rparr>)"
    using c by auto
  let ?call = "cl_GetUser C c [req_UserId req]" and ?s1 = "?s\<lparr>userServiceIdx := i\<rparr>"
  note body = top_videos_body_cases [OF lim pick surjective_pairing]
  show ?thesis
  proof (cases "DisableRetry (options server)")
    case True
    then have "retrying (\<not> DisableRetry (options ?s1)) ?call w = (Fails st, w1)"
      using first by (simp add: retrying_def)
    then show ?thesis using True by (simp add: GetTopVideos_of_body body)
  next
    case False
    have again: "retrying (\<not> DisableRetry (options ?s1)) ?call w = ?call w1"
      using False first by (simp add: retrying_def)
    obtain q w2 where q: "?call w1 = (q, w2)" by (rule prod.exhaust)
    show ?thesis
    proof (cases q)
      case (Return us)
      then have "retrying (\<not> DisableRetry (options ?s1)) ?call w1 = ?call w1"
        using q by (simp add: retrying_def)
      then have "top_videos_body C B sf req ?s w = top_videos_body C B sf req ?s w1"
        unfolding body again by (simp only: again)
      then show ?thesis using False q Return by (simp add: GetTopVideos_of_body)
    next
      case (Fails st2)
      then show ?thesis using False q again by (simp add: GetTopVideos_of_body body)
    qed (use False q in auto)
  qed
qed

text \<open>Clients that fail while the outside state is below a threshold, and count the calls in it.\<close>

definition flaky_clients :: "nat \<Rightarrow> (unit, unit, nat) clients" where
  "flaky_clients n =
     \<lparr>cl_GetUser = (\<lambda>_ ids k. (if k < n then Fails (Status Unavailable ''flaky'')
                               else fst (cl_GetUser down_clients () ids ()), k + 1)),
      cl_GetVideo = (\<lambda>_ ids k. (Return (map demo_video ids), k + 1)),
      cl_GetTrendingVideos = (\<lambda>_ k. (Fails (Status Unavailable ''down''), k + 1))\<rparr>"

theorem initial_query_retry_witness:
  "GetTopVideos (flaky_clients 1) plain_cipher sort_cmp 5 (demo_request 7) demo_server 0 =
   GetTopVideos (flaky_clients 1) plain_cipher sort_cmp 5 (demo_request 7) demo_server 1"
proof -
  have "pool_ok demo_server" unfolding demo_server_def by (rule pool_ok_new_server) (simp_all add: demo_options_def)
  moreover have "0 \<le> req_Limit (demo_request 7)" by (simp add: demo_request_def)
  moreover have "cl_GetUser (flaky_clients 1) () [req_UserId (demo_request 7)] 0 = (Fails (Status Unavailable ''flaky''), 1)"
    by (simp add: flaky_clients_def)
  ultimately show ?thesis
    using initial_query_retry [of demo_server "demo_request 7" "()" "flaky_clients 1" 0 _ 1 plain_cipher sort_cmp 5]
    by (simp add: flaky_clients_def down_clients_def demo_server_def new_server_def demo_options_def)
qed

text \<open>
  \<open>DisableRetry\<close> does not disable all retries. For the users that the requester is subscribed to,
  a failed batch is asked again even with \<open>DisableRetry\<close> set, and the loop's outcome never depends on
  that option.
\<close>
lemma subscription_retry_ignores_option:
  assumes "i < int (length subs)" and "0 \<le> i" and "0 < MaxBatchSize (options server)"
    and "cl_GetUser C c (take (nat (MaxBatchSize (options server))) (drop (nat i) subs)) w = (Fails st, w1)"
    and "cl_GetUser C c (take (nat (MaxBatchSize (options server))) (drop (nat i) subs)) w1 = (Return us, w2)"
  shows "subscribed_loop C c userId subs i acc server w =
    subscribed_loop C c userId subs (i + MaxBatchSize (options server))
      (acc @ concat (map ui_LikedVideos us)) server w2"
  by (rule subscribed_loop_step [OF assms(3,2,1)]) (simp add: retrying_def assms(4,5))

lemma subscription_retry_ignores_option_witness:
  "subscribed_loop (flaky_clients 1) () 7 [8] 0 [] (demo_server\<lparr>options := demo_options\<lparr>DisableRetry := True\<rparr>\<rparr>) 0 =
   subscribed_loop (flaky_clients 1) () 7 [8] 50 [1000]
     (demo_server\<lparr>options := demo_options\<lparr>DisableRetry := True\<rparr>\<rparr>) 2"
proof -
  let ?s = "demo_server\<lparr>options := demo_options\<lparr>DisableRetry := True\<rparr>\<rparr>"
  have m: "MaxBatchSize demo_options = 50" by (simp add: demo_options_def)
  have "cl_GetUser (flaky_clients 1) () [8] 0 = (Fails (Status Unavailable ''flaky''), 1)"
    "cl_GetUser (flaky_clients 1) () [8] 1 = (fst (cl_GetUser down_clients () [8] ()), 2)"
    by (simp_all add: flaky_clients_def)
  then show ?thesis
    using subscription_retry_ignores_option [of 0 "[8]" ?s "flaky_clients 1" "()" 0 _ 1 _ 2 7 "[]"]
    by (simp add: m down_clients_def)
qed

section \<open>The fallback\<close>

text \<open>
  C11: the fallback when the video service fails every call. With fallback enabled and a filled cache
  the request is still answered: by the whole cache ranked for the user and cut at the limit, marked
  stale. Without fallback, or with an empty cache, it ends in an error. Each of these counts one
  video-service failure, and every one with fallback enabled counts a stale response, even the one
  that ends in an error because nothing is cached.
\<close>
theorem fallback_serves_cache:
  assumes "blowfish_ok B" and "sort_ok sf" and "0 \<le> limit" and "pool_ok server"
    and "0 < MaxBatchSize (options server)" and "ids \<noteq> []"
    and down: "\<And>c batch w. \<exists>st w'. cl_GetVideo C c batch w = (Fails st, w')"
  shows "\<exists>r server' w'. fetch_and_rank C B sf cs limit ids server w = Some (r, server', w') \<and>
    (if DisableFallback (options server) \<or> topVideos server = [] then \<exists>st. r = Fails st
     else \<exists>ws. r = Return \<lparr>resp_Videos = cut limit ws, resp_StaleResponse = True\<rparr> \<and>
            mset ws = mset (topVideos server) \<and> by_rank B cs ws) \<and>
    videoServiceErrors server' = videoServiceErrors server + 1 \<and>
    totalErrors server' = totalErrors server + 1 \<and>
    staleResponses server' = staleResponses server + of_bool (\<not> DisableFallback (options server))"
proof -
  obtain c i where pick: "getNextVideoClient server = Return (c, server\<lparr>videoServiceIdx := i\<rparr>)"
    using getNextVideoClient_ok [OF assms(4)] by blast
  let ?s = "server\<lparr>videoServiceIdx := i\<rparr>" and ?batch = "take (nat (MaxBatchSize (options server))) ids"
  obtain st0 w0 where d0: "cl_GetVideo C c ?batch w = (Fails st0, w0)" using down by blast
  obtain st1 w1 where d1: "cl_GetVideo C c ?batch w0 = (Fails st1, w1)" using down by blast
  have "\<exists>st w'. retrying (\<not> DisableRetry (options server)) (cl_GetVideo C c ?batch) w = (Fails st, w')"
    by (simp add: retrying_def d0 d1)
  then obtain st w1 where q: "retrying (\<not> DisableRetry (options server)) (cl_GetVideo C c ?batch) w = (Fails st, w1)"
    by blast
  obtain r s2 where f: "video_query_failed st ?s = (r, s2)" by (rule prod.exhaust)
  note f' = video_query_failed_cases [OF f]
  have loop: "video_loop C c ids 0 [] ?s w = Some (r, s2, w1)"
    using assms(5,6) q f by (subst video_loop.simps) (simp add: batch_end_cases(1))
  show ?thesis
  proof (cases "DisableFallback (options server) \<or> topVideos server = []")
    case True
    then obtain st2 where "r = Fails st2" using f' by auto
    then show ?thesis using pick loop f' True by (auto simp: fetch_and_rank_def video_failure_def)
  next
    case False
    then have r: "r = Return (topVideos server, True)" using f' by simp
    obtain ws where ws: "rank_and_cut B sf cs limit (topVideos server) True s2 =
        (Return \<lparr>resp_Videos = cut limit ws, resp_StaleResponse = True\<rparr>, s2\<lparr>topVideos := ws\<rparr>)"
      "mset ws = mset (topVideos server)" "by_rank B cs ws"
      using rank_and_cut_value [OF assms(1-3), of cs "topVideos server" True s2] by auto
    show ?thesis using pick loop r ws f' False by (auto simp: fetch_and_rank_def video_failure_def)
  qed
qed

theorem fallback_serves_cache_witness:
  "\<exists>r s w ws. fetch_and_rank down_clients plain_cipher sort_cmp None 1 [1000]
      (demo_server\<lparr>topVideos := [demo_video 1]\<rparr>) () = Some (r, s, w) \<and>
    r = Return \<lparr>resp_Videos = cut 1 ws, resp_StaleResponse = True\<rparr> \<and> mset ws = mset [demo_video 1]"
proof -
  let ?s = "demo_server\<lparr>topVideos := [demo_video 1]\<rparr>"
  have "pool_ok ?s" "0 < MaxBatchSize (options ?s)"
    by (simp_all add: pool_ok_def demo_server_def new_server_def demo_options_def)
  moreover have "\<exists>st w'. cl_GetVideo down_clients c batch w = (Fails st, w')" for c batch w
    by (simp add: down_clients_def)
  ultimately show ?thesis
    using fallback_serves_cache [OF plain_cipher_ok sort_cmp_ok, of 1 ?s "[1000]" down_clients None "()"]
    by (auto simp: demo_server_def new_server_def demo_options_def)
qed

end
