(* ===== verification/FailureInjection.thy ===== *)
theory FailureInjection
  imports GoPrelude
begin

text \<open>
  lab1/failure_injection/failure_injection.go: the injected latency, errors and omitted responses
  of the two backend services.

  The configuration is the pointer stored in the \<open>atomic.Value\<close>: \<open>None\<close> is a nil pointer, which
  \<open>SetInjectionConfigPb\<close> stores when a request carries no config. \<open>math/rand\<close> is a generator state
  \<open>'g\<close> with \<open>Int63n\<close> as the parameter \<open>int63n\<close>, called with a positive argument only; the panic on
  other arguments is written out. Sleeping changes no state.
\<close>

section \<open>Configuration\<close>

record InjectionConfig =
  SleepNs :: int
  FailureRate :: int
  ResponseOmissionRate :: int

record FailureInjector =
  Config :: "InjectionConfig option"

definition MakeFailureInjector :: FailureInjector where
  "MakeFailureInjector =
     \<lparr>Config = Some \<lparr>SleepNs = 0, FailureRate = 0, ResponseOmissionRate = 0\<rparr>\<rparr>"

definition SetInjectionConfig :: "int \<Rightarrow> int \<Rightarrow> int \<Rightarrow> FailureInjector \<Rightarrow> FailureInjector" where
  "SetInjectionConfig sleepNs failureRate responseOmissionRate fi =
     fi\<lparr>Config := Some \<lparr>SleepNs = sleepNs, FailureRate = failureRate,
                       ResponseOmissionRate = responseOmissionRate\<rparr>\<rparr>"

definition ClearInjectionConfig :: "FailureInjector \<Rightarrow> FailureInjector" where
  "ClearInjectionConfig fi = SetInjectionConfig 0 0 0 fi"

definition SetInjectionConfigPb :: "InjectionConfig option \<Rightarrow> FailureInjector \<Rightarrow> FailureInjector" where
  "SetInjectionConfigPb config fi = fi\<lparr>Config := config\<rparr>"

definition GetInjectionConfig :: "FailureInjector \<Rightarrow> InjectionConfig option" where
  "GetInjectionConfig fi = Config fi"

text \<open>
  The RPC \<open>SetInjectionConfig\<close> of both services stores the config and then reads its fields for the
  log line, which dereferences a nil config.
\<close>

definition SetInjectionConfig_rpc :: "InjectionConfig option \<Rightarrow> FailureInjector \<Rightarrow> unit outcome \<times> FailureInjector" where
  "SetInjectionConfig_rpc config fi =
     (case config of
        None \<Rightarrow> (Panics NilPointerDereference, SetInjectionConfigPb config fi)
      | Some _ \<Rightarrow> (Return (), SetInjectionConfigPb config fi))"

section \<open>Injection\<close>

definition oneIn :: "('g \<Rightarrow> int \<Rightarrow> int \<times> 'g) \<Rightarrow> int \<Rightarrow> 'g \<Rightarrow> bool outcome \<times> 'g" where
  "oneIn int63n n g =
     (if n = 0 then (Return False, g)
      else if n < 0 then (Panics InvalidRandArgument, g)
      else case int63n g n of (r, g') \<Rightarrow> (Return (r = 0), g'))"

definition MaybeInject :: "('g \<Rightarrow> int \<Rightarrow> int \<times> 'g) \<Rightarrow> FailureInjector \<Rightarrow> 'g \<Rightarrow> bool outcome \<times> 'g" where
  "MaybeInject int63n fi g =
     (case GetInjectionConfig fi of
        None \<Rightarrow> (Panics NilPointerDereference, g)
      | Some config \<Rightarrow>
          (case oneIn int63n (FailureRate config) g of
             (Return shouldError, g') \<Rightarrow>
               (case oneIn int63n (ResponseOmissionRate config) g' of
                  (Return shouldOmitResponse, g'') \<Rightarrow>
                    (if shouldOmitResponse then Blocks else Return shouldError, g'')
                | (r, g'') \<Rightarrow> (r, g''))
           | (r, g') \<Rightarrow> (r, g')))"

section \<open>Facts about injection\<close>

text \<open>What the library documents: \<open>Int63n(n)\<close> is in \<open>[0,n)\<close>.\<close>

definition int63n_ok :: "('g \<Rightarrow> int \<Rightarrow> int \<times> 'g) \<Rightarrow> bool" where
  "int63n_ok int63n \<longleftrightarrow> (\<forall>g n. 0 < n \<longrightarrow> 0 \<le> fst (int63n g n) \<and> fst (int63n g n) < n)"

definition rates :: "int \<Rightarrow> int \<Rightarrow> int \<Rightarrow> FailureInjector" where
  "rates sl f r = SetInjectionConfig sl f r MakeFailureInjector"

lemma Config_rates [simp]:
  "GetInjectionConfig (rates sl f r) =
     Some \<lparr>SleepNs = sl, FailureRate = f, ResponseOmissionRate = r\<rparr>"
  by (simp add: rates_def SetInjectionConfig_def GetInjectionConfig_def)

lemma oneIn_zero [simp]: "oneIn int63n 0 g = (Return False, g)"
  by (simp add: oneIn_def)

lemma oneIn_one: "int63n_ok int63n \<Longrightarrow> \<exists>g'. oneIn int63n 1 g = (Return True, g')"
proof -
  assume ok: "int63n_ok int63n"
  obtain r g' where r: "int63n g 1 = (r, g')" by (cases "int63n g 1")
  with ok have "0 \<le> r \<and> r < 1" unfolding int63n_ok_def by (metis fst_conv zero_less_one)
  with r show ?thesis by (simp add: oneIn_def)
qed

lemma MaybeInject_off [simp]: "MaybeInject int63n (rates sl 0 0) g = (Return False, g)"
  by (simp add: MaybeInject_def)

lemma MaybeInject_always:
  "int63n_ok int63n \<Longrightarrow> \<exists>g'. MaybeInject int63n (rates sl 1 0) g = (Return True, g')"
  using oneIn_one [of int63n g] by (auto simp: MaybeInject_def)

end
