(* ===== verification/RandGen.thy ===== *)
theory RandGen
  imports FailureInjection Decimal "HOL-Library.State_Monad" "HOL-Library.AList"
begin

text \<open>
  The random generators that fill the databases of the two backend services: \<open>math/rand\<close> (the
  process-wide source) and gofakeit, a package outside the repository. Both are parameters, a
  generator state and functions on it, collected in the record \<open>rand_ops\<close>; \<open>rand_ok\<close> is what is
  documented of \<open>math/rand\<close>. Generating code threads the pair of states through the library's
  state monad.
\<close>

section \<open>The generators\<close>

record ('g, 'f) rand_ops =
  Intn :: "'g \<Rightarrow> int \<Rightarrow> int \<times> 'g"
  Int63n :: "'g \<Rightarrow> int \<Rightarrow> int \<times> 'g"
  Seed :: "int \<Rightarrow> 'g"
  fake :: "string \<Rightarrow> 'f \<Rightarrow> string \<times> 'f"
  fakeSeed :: "int \<Rightarrow> 'f"

definition rand_ok :: "('g, 'f) rand_ops \<Rightarrow> bool" where
  "rand_ok R \<longleftrightarrow>
     (\<forall>g n. 0 < n \<longrightarrow> 0 \<le> fst (Intn R g n) \<and> fst (Intn R g n) < n) \<and> int63n_ok (Int63n R)"

definition draw :: "('g, 'f) rand_ops \<Rightarrow> int \<Rightarrow> ('g \<times> 'f, int) state" where
  "draw R n = State (\<lambda>(g, f). case Intn R g n of (r, g') \<Rightarrow> (r, (g', f)))"

text \<open>\<open>gofake R name\<close> is the call of the gofakeit function of that name.\<close>

definition gofake :: "('g, 'f) rand_ops \<Rightarrow> string \<Rightarrow> ('g \<times> 'f, string) state" where
  "gofake R name = State (\<lambda>(g, f). case fake R name f of (s, f') \<Rightarrow> (s, (g, f')))"

text \<open>A loop with an accumulator: one pass of the body per element.\<close>

fun for_each :: "('b \<Rightarrow> 'a \<Rightarrow> ('s, 'a) state) \<Rightarrow> 'b list \<Rightarrow> 'a \<Rightarrow> ('s, 'a) state" where
  "for_each body [] acc = State_Monad.return acc"
| "for_each body (x # xs) acc = State_Monad.bind (body x acc) (for_each body xs)"

section \<open>Postconditions\<close>

lemma pred_state_return: "P x \<Longrightarrow> pred_state P (State_Monad.return x)"
  by (rule pred_stateI) (auto simp: State_Monad.return_def)

lemma pred_state_bind:
  assumes "pred_state Q m" and "\<And>x. Q x \<Longrightarrow> pred_state P (f x)"
  shows "pred_state P (State_Monad.bind m f)"
proof (rule pred_stateI)
  fix a s s'
  assume run: "run_state (State_Monad.bind m f) s = (a, s')"
  obtain x t where x: "run_state m s = (x, t)" by (rule prod.exhaust)
  then have "Q x" using assms(1) by blast
  moreover have "run_state (f x) t = (a, s')" using run x by simp
  ultimately show "P a" using assms(2) by blast
qed

lemma pred_state_conseq: "pred_state P m \<Longrightarrow> (\<And>x. P x \<Longrightarrow> Q x) \<Longrightarrow> pred_state Q m"
  by (blast intro: pred_stateI)

lemma pred_state_draw: "rand_ok R \<Longrightarrow> 0 < n \<Longrightarrow> pred_state (\<lambda>r. 0 \<le> r \<and> r < n) (draw R n)"
proof (rule pred_stateI)
  fix a s s'
  assume R: "rand_ok R" and n: "0 < n" and run: "run_state (draw R n) s = (a, s')"
  obtain g f where s: "s = (g, f)" by (rule prod.exhaust)
  then have "a = fst (Intn R g n)" using run by (auto simp: draw_def split: prod.splits)
  then show "0 \<le> a \<and> a < n" using R n by (simp add: rand_ok_def)
qed

lemma pred_state_fake: "pred_state (\<lambda>_. True) m"
  by (rule pred_stateI) simp

lemma pred_state_for_each:
  assumes "\<And>x acc. x \<in> set xs \<Longrightarrow> I acc \<Longrightarrow> pred_state I (body x acc)" and "I acc"
  shows "pred_state I (for_each body xs acc)"
  using assms
proof (induction xs arbitrary: acc)
  case Nil
  then show ?case by (simp add: pred_state_return)
next
  case (Cons x xs)
  then show ?case by (simp add: pred_state_bind [of I])
qed

text \<open>An invariant that also follows what has been processed.\<close>

lemma pred_state_for_each_prefix:
  assumes step: "\<And>x pre acc. x \<in> set xs \<Longrightarrow> I pre acc \<Longrightarrow> pred_state (I (pre @ [x])) (body x acc)"
    and "I pre acc"
  shows "pred_state (I (pre @ xs)) (for_each body xs acc)"
  using assms
proof (induction xs arbitrary: pre acc)
  case Nil
  then show ?case by (simp add: pred_state_return)
next
  case (Cons x xs)
  have "pred_state (I (pre @ [x])) (body x acc)" using Cons.prems by simp
  moreover have "pred_state (I ((pre @ [x]) @ xs)) (for_each body xs acc')" if "I (pre @ [x]) acc'" for acc'
    using Cons.IH [of "pre @ [x]" acc'] Cons.prems(1) that by simp
  ultimately show ?case by (simp add: pred_state_bind)
qed

section \<open>Random coefficient maps\<close>

text \<open>\<open>Coeffs[int32(rand.Intn(20))] = uint64(rand.Intn(500))\<close>, \<open>rand.Intn(10) + 10\<close> times.\<close>

definition randomCoeffs :: "('g, 'f) rand_ops \<Rightarrow> ('g \<times> 'f, (32 word \<times> 64 word) list) state" where
  "randomCoeffs R =
     do { k \<leftarrow> draw R 10;
          for_each (\<lambda>_ m. do { key \<leftarrow> draw R 20; val \<leftarrow> draw R 500;
                              State_Monad.return (AList.update (word_of_int key) (word_of_int val) m) })
            [0..<nat (k + 10)] [] }"

lemma randomCoeffs_distinct: "rand_ok R \<Longrightarrow> pred_state (\<lambda>m. distinct (map fst m)) (randomCoeffs R)"
  unfolding randomCoeffs_def
  by (intro pred_state_bind [OF pred_state_fake] pred_state_for_each)
    (auto intro!: pred_state_bind [OF pred_state_fake] pred_state_return distinct_update)

text \<open>Identifiers: \<open>uint64(r + OFFSET)\<close> for small \<open>r\<close> is the word of that number.\<close>

definition id_range :: "int \<Rightarrow> int \<Rightarrow> u64 set" where
  "id_range offset n = word_of_int ` {offset..<offset + n}"

lemma id_rangeI: "0 \<le> r \<Longrightarrow> r < n \<Longrightarrow> word_of_int (r + offset) \<in> id_range offset n"
  unfolding id_range_def by (rule imageI) simp

end
