(* ===== verification/UserService.thy ===== *)
theory UserService
  imports RandGen Messages
begin

text \<open>
  lab1/user_service/server_lib/server_lib.go: the user service, an in-memory database filled at
  start with random users, and the handlers \<open>GetUser\<close> and \<open>SetInjectionConfig\<close>.

  The database is a partial map from user id to user. The process-wide random source of
  \<open>MaybeInject\<close> is threaded through the handler. Sleeps and logging change no state.
\<close>

section \<open>Options and server\<close>

record UserServiceOptions =
  uo_Seed :: int
  uo_SleepNs :: int
  uo_FailureRate :: int
  uo_ResponseOmissionRate :: int
  uo_MaxBatchSize :: int

definition DefaultUserServiceOptions :: UserServiceOptions where
  "DefaultUserServiceOptions =
     \<lparr>uo_Seed = 42, uo_SleepNs = 0, uo_FailureRate = 0, uo_ResponseOmissionRate = 0,
      uo_MaxBatchSize = 50\<rparr>"

definition USER_ID_OFFSET :: int where "USER_ID_OFFSET = 200000"
definition US_VIDEO_ID_OFFSET :: int where "US_VIDEO_ID_OFFSET = 1000"

record UserServiceServer =
  us_options :: UserServiceOptions
  us_fi :: FailureInjector
  us_users :: "u64 \<rightharpoonup> UserInfo"

section \<open>Filling the database\<close>

definition makeRandomUser :: "('g, 'f) rand_ops \<Rightarrow> u64 \<Rightarrow> int \<Rightarrow> int \<Rightarrow> ('g \<times> 'f, UserInfo) state" where
  "makeRandomUser R userId maxUsers maxVideos =
     do { email \<leftarrow> gofake R ''Email'';
          username \<leftarrow> gofake R ''Username'';
          coeffs \<leftarrow> randomCoeffs R;
          subscribeCount \<leftarrow> draw R 50;
          subs \<leftarrow> for_each (\<lambda>_ subs.
                    do { r \<leftarrow> draw R maxUsers;
                         let subscribed = word_of_int (r + USER_ID_OFFSET);
                         State_Monad.return (if subscribed \<noteq> userId then subs @ [subscribed] else subs) })
                  [0..<nat (subscribeCount + 10)] [];
          likeCount \<leftarrow> draw R 20;
          likes \<leftarrow> for_each (\<lambda>_ likes.
                    do { r \<leftarrow> draw R maxVideos;
                         State_Monad.return (likes @ [word_of_int (r + US_VIDEO_ID_OFFSET)]) })
                  [0..<nat (likeCount + 5)] [];
          State_Monad.return
            \<lparr>ui_UserId = userId, ui_Username = username, ui_Email = email,
             ui_ProfileUrl = ''https://user-service.localhost/profile/'' @ dec_string (unat userId),
             ui_SubscribedTo = subs, ui_UserCoefficients = Some coeffs, ui_LikedVideos = likes\<rparr> }"

definition fill_users :: "('g, 'f) rand_ops \<Rightarrow> int \<Rightarrow> int \<Rightarrow> ('g \<times> 'f, u64 \<rightharpoonup> UserInfo) state" where
  "fill_users R videoCount userCount =
     for_each (\<lambda>userId users.
         do { u \<leftarrow> makeRandomUser R (word_of_int userId) userCount videoCount;
              State_Monad.return (users(word_of_int userId \<mapsto> u)) })
       [USER_ID_OFFSET..USER_ID_OFFSET + userCount - 1] Map.empty"

definition makeRandomUsers :: "('g, 'f) rand_ops \<Rightarrow> ('g \<times> 'f, u64 \<rightharpoonup> UserInfo) state" where
  "makeRandomUsers R =
     do { v \<leftarrow> draw R 500;
          u \<leftarrow> draw R 5000;
          fill_users R (v + 100) (u + 5000) }"

text \<open>\<open>rand.Seed\<close> and \<open>gofakeit.Seed\<close> reset both sources; the state left behind is the second component.\<close>

definition MakeUserServiceServer :: "('g, 'f) rand_ops \<Rightarrow> UserServiceOptions \<Rightarrow> UserServiceServer \<times> ('g \<times> 'f)" where
  "MakeUserServiceServer R opts =
     (let fi = SetInjectionConfig (uo_SleepNs opts) (uo_FailureRate opts) (uo_ResponseOmissionRate opts)
                 MakeFailureInjector
      in case run_state (makeRandomUsers R) (Seed R (uo_Seed opts), fakeSeed R (uo_Seed opts)) of
           (users, st) \<Rightarrow> (\<lparr>us_options = opts, us_fi = fi, us_users = users\<rparr>, st))"

section \<open>GetUser\<close>

text \<open>The lookup loop: it stops at the first id that is not in the database.\<close>

fun collect_users :: "(u64 \<rightharpoonup> UserInfo) \<Rightarrow> u64 list \<Rightarrow> UserInfo list outcome" where
  "collect_users users [] = Return []"
| "collect_users users (userId # rest) =
     (case users userId of
        Some info \<Rightarrow> bind_go (collect_users users rest) (\<lambda>infos. Return (info # infos))
      | None \<Rightarrow> Fails (Status NotFound
          (''UserService: user '' @ dec_string (unat userId) @
           '' cannot be found, it may have been deleted or never existed in the first place.'')))"

definition GetUser :: "('g \<Rightarrow> int \<Rightarrow> int \<times> 'g) \<Rightarrow> UserServiceServer \<Rightarrow> u64 list \<Rightarrow> 'g \<Rightarrow> UserInfo list outcome \<times> 'g" where
  "GetUser int63n db userIds g =
     (case MaybeInject int63n (us_fi db) g of
        (r, g') \<Rightarrow>
          (bind_go r (\<lambda>shouldError.
             if shouldError then Fails (Status Internal ''UserService: (injected) internal error!'')
             else if length userIds = 0 then
               Fails (Status InvalidArgument ''UserService: user_ids in GetUserRequest should not be empty'')
             else if int (length userIds) > uo_MaxBatchSize (us_options db) then
               Fails (Status InvalidArgument
                 (''UserService: user_ids exceeded the max batch size '' @
                  int_string (uo_MaxBatchSize (us_options db))))
             else collect_users (us_users db) userIds), g'))"

definition us_SetInjectionConfig :: "InjectionConfig option \<Rightarrow> UserServiceServer \<Rightarrow> unit outcome \<times> UserServiceServer" where
  "us_SetInjectionConfig config db =
     (case SetInjectionConfig_rpc config (us_fi db) of (r, fi) \<Rightarrow> (r, db\<lparr>us_fi := fi\<rparr>))"

section \<open>Lookups\<close>

lemma collect_users_ok:
  "set ids \<subseteq> dom users \<Longrightarrow> collect_users users ids = Return (map (the \<circ> users) ids)"
  by (induction ids) auto

lemma collect_users_missing:
  "\<not> set ids \<subseteq> dom users \<Longrightarrow> \<exists>msg. collect_users users ids = Fails (Status NotFound msg)"
proof (induction ids)
  case (Cons x ids)
  then show ?case
  proof (cases "users x")
    case (Some u)
    then have "\<not> set ids \<subseteq> dom users" using Cons.prems by auto
    with Cons.IH Some show ?thesis by auto
  qed simp
qed simp

lemma collect_users_nonempty: "collect_users users ids = Return us \<Longrightarrow> length us = length ids"
  by (induction ids arbitrary: us) (auto simp: bind_go_Return_iff split: option.splits)

section \<open>The generated database\<close>

definition user_ok :: "int \<Rightarrow> int \<Rightarrow> u64 \<Rightarrow> UserInfo \<Rightarrow> bool" where
  "user_ok videoCount userCount userId u \<longleftrightarrow>
     ui_UserId u = userId \<and>
     set (ui_SubscribedTo u) \<subseteq> id_range USER_ID_OFFSET userCount - {userId} \<and>
     set (ui_LikedVideos u) \<subseteq> id_range US_VIDEO_ID_OFFSET videoCount \<and>
     (\<exists>c. ui_UserCoefficients u = Some c \<and> distinct (map fst c))"

lemma makeRandomUser_ok:
  assumes R: "rand_ok R" and "0 < userCount" and "0 < videoCount"
  shows "pred_state (user_ok videoCount userCount userId) (makeRandomUser R userId userCount videoCount)"
proof -
  have subs: "pred_state (\<lambda>subs. set subs \<subseteq> id_range USER_ID_OFFSET userCount - {userId})
      (for_each (\<lambda>_ subs. do { r \<leftarrow> draw R userCount;
           let subscribed = word_of_int (r + USER_ID_OFFSET);
           State_Monad.return (if subscribed \<noteq> userId then subs @ [subscribed] else subs) }) xs [])"
    for xs :: "nat list"
    by (rule pred_state_for_each)
      (auto intro!: pred_state_bind [OF pred_state_draw [OF R assms(2)]] pred_state_return
        intro: id_rangeI simp: Let_def simp del: of_int_add split: if_splits)
  have likes: "pred_state (\<lambda>likes. set likes \<subseteq> id_range US_VIDEO_ID_OFFSET videoCount)
      (for_each (\<lambda>_ likes. do { r \<leftarrow> draw R videoCount;
           State_Monad.return (likes @ [word_of_int (r + US_VIDEO_ID_OFFSET)]) }) xs [])"
    for xs :: "nat list"
    by (rule pred_state_for_each)
      (auto intro!: pred_state_bind [OF pred_state_draw [OF R assms(3)]] pred_state_return
        intro: id_rangeI simp del: of_int_add)
  show ?thesis
    unfolding makeRandomUser_def
    by (intro pred_state_bind [OF pred_state_fake] pred_state_bind [OF randomCoeffs_distinct [OF R]]
        pred_state_bind [OF subs] pred_state_bind [OF likes] pred_state_return)
      (auto simp: user_ok_def)
qed

definition users_ok :: "int \<Rightarrow> int \<Rightarrow> int list \<Rightarrow> (u64 \<rightharpoonup> UserInfo) \<Rightarrow> bool" where
  "users_ok videoCount userCount ids users \<longleftrightarrow>
     dom users = word_of_int ` set ids \<and>
     (\<forall>k u. users k = Some u \<longrightarrow> user_ok videoCount userCount k u)"

lemma users_ok_update:
  assumes "users_ok v n ids users" and "user_ok v n (word_of_int i) u"
  shows "users_ok v n (ids @ [i]) (users(word_of_int i \<mapsto> u))"
proof -
  have "dom (users(word_of_int i \<mapsto> u)) = insert (word_of_int i) (word_of_int ` set ids)"
    using assms(1) by (simp add: users_ok_def)
  then show ?thesis using assms by (auto simp: users_ok_def split: if_splits)
qed

lemma fill_users_ok:
  assumes R: "rand_ok R" and "0 < userCount" and "0 < videoCount"
  shows "pred_state (users_ok videoCount userCount [USER_ID_OFFSET..USER_ID_OFFSET + userCount - 1])
    (fill_users R videoCount userCount)"
proof -
  have "pred_state (users_ok videoCount userCount ([] @ [USER_ID_OFFSET..USER_ID_OFFSET + userCount - 1]))
    (fill_users R videoCount userCount)"
    unfolding fill_users_def
    by (rule pred_state_for_each_prefix)
      (auto intro!: pred_state_bind [OF makeRandomUser_ok [OF assms]] pred_state_return users_ok_update,
        simp add: users_ok_def)
  then show ?thesis by simp
qed

text \<open>The number of videos the generator assumes is its first draw from the seeded source.\<close>

definition first_draw :: "('g, 'f) rand_ops \<Rightarrow> int \<Rightarrow> int" where
  "first_draw R seed = fst (Intn R (Seed R seed) 500)"

lemma first_draw_nonneg: "rand_ok R \<Longrightarrow> 0 \<le> first_draw R seed"
  by (simp add: rand_ok_def first_draw_def)

lemma MakeUserServiceServer_db:
  assumes R: "rand_ok R" and mk: "MakeUserServiceServer R opts = (db, st)"
  shows "us_options db = opts \<and>
    us_fi db = rates (uo_SleepNs opts) (uo_FailureRate opts) (uo_ResponseOmissionRate opts) \<and>
    (\<exists>n. 5000 \<le> n \<and> n < 10000 \<and>
       users_ok (first_draw R (uo_Seed opts) + 100) n [USER_ID_OFFSET..USER_ID_OFFSET + n - 1] (us_users db))"
proof -
  let ?s = "Seed R (uo_Seed opts)" and ?f = "fakeSeed R (uo_Seed opts)"
  obtain v g1 where v: "Intn R ?s 500 = (v, g1)" by (rule prod.exhaust)
  obtain u g2 where u: "Intn R g1 5000 = (u, g2)" by (rule prod.exhaust)
  have v0: "v = first_draw R (uo_Seed opts)" using v by (simp add: first_draw_def)
  have u0: "0 \<le> u \<and> u < 5000"
    using R u unfolding rand_ok_def by (metis fst_conv zero_less_numeral)
  have run: "run_state (makeRandomUsers R) (?s, ?f) = run_state (fill_users R (v + 100) (u + 5000)) (g2, ?f)"
    by (simp add: makeRandomUsers_def draw_def v u)
  have "0 < v + 100" using first_draw_nonneg [OF R, of "uo_Seed opts"] v0 by simp
  then have "pred_state (users_ok (v + 100) (u + 5000) [USER_ID_OFFSET..USER_ID_OFFSET + (u + 5000) - 1])
      (fill_users R (v + 100) (u + 5000))"
    using u0 by (intro fill_users_ok [OF R]) auto
  then have "users_ok (v + 100) (u + 5000) [USER_ID_OFFSET..USER_ID_OFFSET + (u + 5000) - 1]
      (fst (run_state (makeRandomUsers R) (?s, ?f)))"
    unfolding run by (rule pred_state_run_state)
  then show ?thesis
    using mk u0 v0
    by (auto simp: MakeUserServiceServer_def Let_def rates_def split: prod.splits intro!: exI [of _ "u + 5000"])
qed

lemma users_ok_dom:
  "users_ok v n [USER_ID_OFFSET..USER_ID_OFFSET + n - 1] users \<Longrightarrow> dom users = id_range USER_ID_OFFSET n"
proof -
  have "{USER_ID_OFFSET..USER_ID_OFFSET + n - 1} = {USER_ID_OFFSET..<USER_ID_OFFSET + n}" by auto
  then show "users_ok v n [USER_ID_OFFSET..USER_ID_OFFSET + n - 1] users \<Longrightarrow> dom users = id_range USER_ID_OFFSET n"
    by (simp add: users_ok_def id_range_def)
qed

lemma GetUser_off:
  assumes "us_fi db = rates sl 0 0"
  shows "GetUser int63n db ids g =
    ((if length ids = 0 then
        Fails (Status InvalidArgument ''UserService: user_ids in GetUserRequest should not be empty'')
      else if int (length ids) > uo_MaxBatchSize (us_options db) then
        Fails (Status InvalidArgument
          (''UserService: user_ids exceeded the max batch size '' @
           int_string (uo_MaxBatchSize (us_options db))))
      else collect_users (us_users db) ids), g)"
  by (simp add: GetUser_def assms)

end
