(* ===== verification/VideoService.thy ===== *)
theory VideoService
  imports RandGen Messages
begin

text \<open>
  lab1/video_service/server_lib/server_lib.go: the video service, an in-memory database filled at
  start with random videos, a list of trending videos, and the handlers \<open>GetVideo\<close>,
  \<open>GetTrendingVideos\<close> and \<open>SetInjectionConfig\<close>. The clock is the argument \<open>now\<close> (Unix seconds).
\<close>

section \<open>Options and server\<close>

record VideoServiceOptions =
  vo_Seed :: int
  vo_TtlSeconds :: int
  vo_SleepNs :: int
  vo_FailureRate :: int
  vo_ResponseOmissionRate :: int
  vo_MaxBatchSize :: int

definition DefaultVideoServiceOptions :: VideoServiceOptions where
  "DefaultVideoServiceOptions =
     \<lparr>vo_Seed = 42, vo_TtlSeconds = 60, vo_SleepNs = 0, vo_FailureRate = 0,
      vo_ResponseOmissionRate = 0, vo_MaxBatchSize = 50\<rparr>"

definition VIDEO_ID_OFFSET :: int where "VIDEO_ID_OFFSET = 1000"

record VideoServiceServer =
  vs_options :: VideoServiceOptions
  vs_fi :: FailureInjector
  vs_videos :: "u64 \<rightharpoonup> VideoInfo"
  vs_topVideos :: "u64 list"

definition deduplicateIds :: "u64 list \<Rightarrow> u64 list" where
  "deduplicateIds ids = dedup_loop {} ids"

section \<open>Filling the database\<close>

definition makeTitle :: "('g, 'f) rand_ops \<Rightarrow> int \<Rightarrow> ('g \<times> 'f, string) state" where
  "makeTitle R titleCase =
     (if titleCase = 0 then
        do { a \<leftarrow> gofake R ''AdjectiveDescriptive''; b \<leftarrow> gofake R ''Vegetable'';
             State_Monad.return (a @ '' '' @ b) }
      else if titleCase = 1 then
        do { a \<leftarrow> gofake R ''AdjectiveDescriptive''; b \<leftarrow> gofake R ''Animal'';
             c \<leftarrow> gofake R ''NounUncountable'';
             State_Monad.return (''The '' @ a @ '' '' @ b @ [CHR 0x27] @ ''s '' @ c) }
      else if titleCase = 2 then
        do { a \<leftarrow> gofake R ''AppName''; b \<leftarrow> gofake R ''HackerVerb'';
             State_Monad.return (a @ '': '' @ b) }
      else
        do { a \<leftarrow> gofake R ''AdjectiveDescriptive''; b \<leftarrow> gofake R ''AdverbPlace'';
             State_Monad.return (a @ '' '' @ b) })"

definition makeRandomVideo :: "('g, 'f) rand_ops \<Rightarrow> u64 \<Rightarrow> ('g \<times> 'f, VideoInfo) state" where
  "makeRandomVideo R videoId =
     do { titleCase \<leftarrow> draw R 4;
          title \<leftarrow> makeTitle R titleCase;
          author \<leftarrow> gofake R ''Name'';
          coeffs \<leftarrow> randomCoeffs R;
          State_Monad.return
            \<lparr>vi_VideoId = videoId, vi_Title = title, vi_Author = author,
             vi_Url = ''https://video-data.localhost/blob/'' @ dec_string (unat videoId),
             vi_VideoCoefficients = Some coeffs\<rparr> }"

definition fill_videos :: "('g, 'f) rand_ops \<Rightarrow> int \<Rightarrow> ('g \<times> 'f, u64 \<rightharpoonup> VideoInfo) state" where
  "fill_videos R videoCount =
     for_each (\<lambda>videoId videos.
         do { v \<leftarrow> makeRandomVideo R (word_of_int videoId);
              State_Monad.return (videos(word_of_int videoId \<mapsto> v)) })
       [VIDEO_ID_OFFSET..VIDEO_ID_OFFSET + videoCount - 1] Map.empty"

definition fill_top :: "('g, 'f) rand_ops \<Rightarrow> int \<Rightarrow> int \<Rightarrow> ('g \<times> 'f, u64 list) state" where
  "fill_top R videoCount topVideoCount =
     for_each (\<lambda>_ top. do { r \<leftarrow> draw R videoCount;
                             State_Monad.return (top @ [word_of_int (r + VIDEO_ID_OFFSET)]) })
       [0..<nat topVideoCount] []"

definition makeRandomVideos :: "('g, 'f) rand_ops \<Rightarrow> ('g \<times> 'f, (u64 \<rightharpoonup> VideoInfo) \<times> u64 list) state" where
  "makeRandomVideos R =
     do { v \<leftarrow> draw R 500;
          videos \<leftarrow> fill_videos R (v + 100);
          t \<leftarrow> draw R 10;
          topVideos \<leftarrow> fill_top R (v + 100) (t + 10);
          State_Monad.return (videos, deduplicateIds topVideos) }"

definition MakeVideoServiceServer :: "('g, 'f) rand_ops \<Rightarrow> VideoServiceOptions \<Rightarrow> VideoServiceServer \<times> ('g \<times> 'f)" where
  "MakeVideoServiceServer R opts =
     (let fi = SetInjectionConfig (vo_SleepNs opts) (vo_FailureRate opts) (vo_ResponseOmissionRate opts)
                 MakeFailureInjector
      in case run_state (makeRandomVideos R) (Seed R (vo_Seed opts), fakeSeed R (vo_Seed opts)) of
           ((videos, topVideos), st) \<Rightarrow>
             (\<lparr>vs_options = opts, vs_fi = fi, vs_videos = videos, vs_topVideos = topVideos\<rparr>, st))"

section \<open>Handlers\<close>

fun collect_videos :: "(u64 \<rightharpoonup> VideoInfo) \<Rightarrow> u64 list \<Rightarrow> VideoInfo list outcome" where
  "collect_videos videos [] = Return []"
| "collect_videos videos (videoId # rest) =
     (case videos videoId of
        Some info \<Rightarrow> bind_go (collect_videos videos rest) (\<lambda>infos. Return (info # infos))
      | None \<Rightarrow> Fails (Status NotFound
          (''VideoService: video '' @ dec_string (unat videoId) @
           '' cannot be found, it may have been deleted or never existed in the first place.'')))"

definition GetVideo :: "('g \<Rightarrow> int \<Rightarrow> int \<times> 'g) \<Rightarrow> VideoServiceServer \<Rightarrow> u64 list \<Rightarrow> 'g \<Rightarrow> VideoInfo list outcome \<times> 'g" where
  "GetVideo int63n db videoIds g =
     (case MaybeInject int63n (vs_fi db) g of
        (r, g') \<Rightarrow>
          (bind_go r (\<lambda>shouldError.
             if shouldError then Fails (Status Internal ''VideoService: (injected) internal error!'')
             else if length videoIds = 0 then
               Fails (Status InvalidArgument ''VideoService: video_ids in GetVideoRequest should not be empty'')
             else if int (length videoIds) > vo_MaxBatchSize (vs_options db) then
               Fails (Status InvalidArgument
                 (''VideoService: video_ids exceeded the max batch size '' @
                  int_string (vo_MaxBatchSize (vs_options db))))
             else if length (deduplicateIds videoIds) \<noteq> length videoIds then
               Fails (Status InvalidArgument ''VideoService: duplicate IDs found in video_ids'')
             else collect_videos (vs_videos db) videoIds), g'))"

definition GetTrendingVideos :: "('g \<Rightarrow> int \<Rightarrow> int \<times> 'g) \<Rightarrow> int \<Rightarrow> VideoServiceServer \<Rightarrow> 'g \<Rightarrow>
    GetTrendingVideosResponse outcome \<times> 'g" where
  "GetTrendingVideos int63n now db g =
     (case MaybeInject int63n (vs_fi db) g of
        (r, g') \<Rightarrow>
          (bind_go r (\<lambda>shouldError.
             if shouldError then Fails (Status Internal ''VideoService: (injected) internal error!'')
             else Return \<lparr>tv_Videos = vs_topVideos db,
                          tv_ExpirationTimeS = word_of_int (now + vo_TtlSeconds (vs_options db))\<rparr>), g'))"

definition vs_SetInjectionConfig :: "InjectionConfig option \<Rightarrow> VideoServiceServer \<Rightarrow> unit outcome \<times> VideoServiceServer" where
  "vs_SetInjectionConfig config db =
     (case SetInjectionConfig_rpc config (vs_fi db) of (r, fi) \<Rightarrow> (r, db\<lparr>vs_fi := fi\<rparr>))"

section \<open>Lookups\<close>

lemma deduplicateIds_same_length: "length (deduplicateIds ids) = length ids \<longleftrightarrow> distinct ids"
  using length_dedup_loop_eq [of "{}" ids] dedup_loop_id [of ids "{}"] by (auto simp: deduplicateIds_def)

lemma collect_videos_ok:
  "set ids \<subseteq> dom videos \<Longrightarrow> collect_videos videos ids = Return (map (the \<circ> videos) ids)"
  by (induction ids) auto

lemma collect_videos_missing:
  "\<not> set ids \<subseteq> dom videos \<Longrightarrow> \<exists>msg. collect_videos videos ids = Fails (Status NotFound msg)"
proof (induction ids)
  case (Cons x ids)
  then show ?case
  proof (cases "videos x")
    case (Some u)
    then have "\<not> set ids \<subseteq> dom videos" using Cons.prems by auto
    with Cons.IH Some show ?thesis by auto
  qed simp
qed simp

lemma GetVideo_off:
  assumes "vs_fi db = rates sl 0 0" and "ids \<noteq> []" and "distinct ids"
    and "int (length ids) \<le> vo_MaxBatchSize (vs_options db)"
  shows "GetVideo int63n db ids g = (collect_videos (vs_videos db) ids, g)"
  using assms deduplicateIds_same_length [of ids] by (simp add: GetVideo_def)

section \<open>The generated database\<close>

definition video_ok :: "u64 \<Rightarrow> VideoInfo \<Rightarrow> bool" where
  "video_ok videoId v \<longleftrightarrow>
     vi_VideoId v = videoId \<and> (\<exists>c. vi_VideoCoefficients v = Some c \<and> distinct (map fst c))"

lemma makeRandomVideo_ok:
  "rand_ok R \<Longrightarrow> pred_state (video_ok videoId) (makeRandomVideo R videoId)"
  unfolding makeRandomVideo_def
  by (intro pred_state_bind [OF pred_state_fake] pred_state_bind [OF randomCoeffs_distinct] pred_state_return)
    (auto simp: video_ok_def)

definition videos_ok :: "int list \<Rightarrow> (u64 \<rightharpoonup> VideoInfo) \<Rightarrow> bool" where
  "videos_ok ids videos \<longleftrightarrow>
     dom videos = word_of_int ` set ids \<and> (\<forall>k v. videos k = Some v \<longrightarrow> video_ok k v)"

lemma videos_ok_update:
  assumes "videos_ok ids videos" and "video_ok (word_of_int i) u"
  shows "videos_ok (ids @ [i]) (videos(word_of_int i \<mapsto> u))"
proof -
  have "dom (videos(word_of_int i \<mapsto> u)) = insert (word_of_int i) (word_of_int ` set ids)"
    using assms(1) by (simp add: videos_ok_def)
  then show ?thesis using assms by (auto simp: videos_ok_def split: if_splits)
qed

lemma fill_videos_ok:
  assumes R: "rand_ok R"
  shows "pred_state (videos_ok [VIDEO_ID_OFFSET..VIDEO_ID_OFFSET + n - 1]) (fill_videos R n)"
proof -
  have "pred_state (videos_ok ([] @ [VIDEO_ID_OFFSET..VIDEO_ID_OFFSET + n - 1])) (fill_videos R n)"
    unfolding fill_videos_def
    by (rule pred_state_for_each_prefix)
      (auto intro!: pred_state_bind [OF makeRandomVideo_ok [OF R]] pred_state_return videos_ok_update,
        simp add: videos_ok_def)
  then show ?thesis by simp
qed

lemma fill_top_ok:
  assumes R: "rand_ok R" and "0 < n"
  shows "pred_state (\<lambda>top. set top \<subseteq> id_range VIDEO_ID_OFFSET n \<and> length top = nat k) (fill_top R n k)"
proof -
  have "pred_state (\<lambda>top. set top \<subseteq> id_range VIDEO_ID_OFFSET n \<and> length top = length ([] @ [0..<nat k]))
    (fill_top R n k)"
    unfolding fill_top_def
    by (rule pred_state_for_each_prefix [where I = "\<lambda>pre top. set top \<subseteq> id_range VIDEO_ID_OFFSET n \<and> length top = length pre"])
      (auto intro!: pred_state_bind [OF pred_state_draw [OF R assms(2)]] pred_state_return
        intro: id_rangeI simp del: of_int_add)
  then show ?thesis by simp
qed

lemma ids_upto: "(word_of_int :: int \<Rightarrow> u64) ` set [a..a + n - 1] = id_range a n"
proof -
  have "{a..a + n - 1} = {a..<a + n}" by auto
  then show ?thesis by (simp add: id_range_def)
qed

text \<open>The generated database: every id of the range, keyed by itself, and a valid trending list.\<close>

definition video_db_ok :: "int \<Rightarrow> VideoServiceServer \<Rightarrow> bool" where
  "video_db_ok n db \<longleftrightarrow>
     dom (vs_videos db) = id_range VIDEO_ID_OFFSET n \<and>
     (\<forall>k v. vs_videos db k = Some v \<longrightarrow> video_ok k v) \<and>
     set (vs_topVideos db) \<subseteq> id_range VIDEO_ID_OFFSET n \<and> distinct (vs_topVideos db) \<and>
     vs_topVideos db \<noteq> [] \<and> length (vs_topVideos db) \<le> 19"

lemma makeRandomVideos_tail_ok:
  assumes R: "rand_ok R" and "0 < n"
  shows "pred_state (\<lambda>(videos, top). dom videos = id_range VIDEO_ID_OFFSET n \<and>
      (\<forall>k v. videos k = Some v \<longrightarrow> video_ok k v) \<and>
      set top \<subseteq> id_range VIDEO_ID_OFFSET n \<and> distinct top \<and> top \<noteq> [] \<and> length top \<le> 19)
    (do { videos \<leftarrow> fill_videos R n;
          t \<leftarrow> draw R 10;
          topVideos \<leftarrow> fill_top R n (t + 10);
          State_Monad.return (videos, deduplicateIds topVideos) })"
proof (intro pred_state_bind [OF fill_videos_ok [OF R]] pred_state_bind [OF pred_state_draw [OF R]]
    pred_state_bind [OF fill_top_ok [OF assms]] pred_state_return)
  fix videos :: "u64 \<rightharpoonup> VideoInfo" and t :: int and top :: "u64 list"
  assume v: "videos_ok [VIDEO_ID_OFFSET..VIDEO_ID_OFFSET + n - 1] videos"
    and t: "0 \<le> t \<and> t < 10"
    and top: "set top \<subseteq> id_range VIDEO_ID_OFFSET n \<and> length top = nat (t + 10)"
  have "top \<noteq> []" using t top by auto
  then have "deduplicateIds top \<noteq> []" by (metis deduplicateIds_def Diff_empty set_dedup_loop set_empty)
  moreover have "length (deduplicateIds top) \<le> 19"
  proof -
    have "length top \<le> 19" using t top by (simp add: nat_le_iff)
    then show ?thesis
      using length_dedup_loop_le [of "{}" top] unfolding deduplicateIds_def by (rule order_trans [rotated])
  qed
  ultimately show "case (videos, deduplicateIds top) of (videos, top) \<Rightarrow>
      dom videos = id_range VIDEO_ID_OFFSET n \<and>
      (\<forall>k v. videos k = Some v \<longrightarrow> video_ok k v) \<and>
      set top \<subseteq> id_range VIDEO_ID_OFFSET n \<and> distinct top \<and> top \<noteq> [] \<and> length top \<le> 19"
    using v [unfolded videos_ok_def ids_upto] top by (simp add: deduplicateIds_def)
qed simp

lemma MakeVideoServiceServer_db:
  assumes R: "rand_ok R" and mk: "MakeVideoServiceServer R opts = (db, st)"
  shows "vs_options db = opts \<and>
    vs_fi db = rates (vo_SleepNs opts) (vo_FailureRate opts) (vo_ResponseOmissionRate opts) \<and>
    video_db_ok (fst (Intn R (Seed R (vo_Seed opts)) 500) + 100) db"
proof -
  let ?s = "Seed R (vo_Seed opts)" and ?f = "fakeSeed R (vo_Seed opts)"
  obtain v g1 where v: "Intn R ?s 500 = (v, g1)" by (rule prod.exhaust)
  have v0: "0 \<le> v" using R v unfolding rand_ok_def by (metis fst_conv zero_less_numeral)
  let ?m = "do { videos \<leftarrow> fill_videos R (v + 100);
          t \<leftarrow> draw R 10;
          topVideos \<leftarrow> fill_top R (v + 100) (t + 10);
          State_Monad.return (videos, deduplicateIds topVideos) }"
  have run: "run_state (makeRandomVideos R) (?s, ?f) = run_state ?m (g1, ?f)"
    unfolding makeRandomVideos_def draw_def by (simp add: v)
  obtain videos top st' where r: "run_state ?m (g1, ?f) = ((videos, top), st')"
    by (metis prod.exhaust)
  have "video_db_ok (v + 100) \<lparr>vs_options = opts, vs_fi = fi, vs_videos = videos, vs_topVideos = top\<rparr>" for fi
    using pred_state_run_state [OF makeRandomVideos_tail_ok [OF R], of "v + 100" "(g1, ?f)"] v0 r
    by (simp add: video_db_ok_def)
  then show ?thesis using mk r run v
    by (auto simp: MakeVideoServiceServer_def Let_def rates_def)
qed

end
