(* ===== verification/Backends.thy ===== *)
theory Backends
  imports UserService VideoService
begin

text \<open>
  The two backend services together: what a database made by \<open>MakeUserServiceServer\<close> and
  \<open>MakeVideoServiceServer\<close> answers, the references between the two, the failure-injection RPC, and
  the mock clients of lab1/user_service/mock_client and lab1/video_service/mock_client, which call
  an in-memory server directly.
\<close>

section \<open>Failure injection at the handlers\<close>

lemma oneIn_cases:
  assumes "int63n_ok int63n"
  shows "oneIn int63n n g = (Return True, g') \<Longrightarrow> 0 < n"
    and "n < 0 \<Longrightarrow> oneIn int63n n g = (Panics InvalidRandArgument, g)"
    and "0 \<le> n \<Longrightarrow> \<exists>b g'. oneIn int63n n g = (Return b, g')"
  by (auto simp: oneIn_def split: if_splits prod.splits)

text \<open>
  What \<open>MaybeInject\<close> does for every pair of configured rates. With a negative failure rate every
  call panics. Otherwise an error is reported only if the failure rate is positive, the call hangs
  only if the omission rate is positive, nothing is injected when both are zero (and no random number
  is drawn), a failure rate of one without omissions fails every call, and an omission rate of one
  hangs every call whatever the failure rate.
\<close>
lemma maybe_inject_rates:
  assumes ok: "int63n_ok int63n" and run: "MaybeInject int63n (rates sl f om) g = (r, g')"
  shows "(f < 0 \<longrightarrow> r = Panics InvalidRandArgument) \<and>
    (r = Return True \<longrightarrow> 0 < f) \<and>
    (r = Blocks \<longrightarrow> 0 < om) \<and>
    (f = 0 \<and> om = 0 \<longrightarrow> r = Return False \<and> g' = g) \<and>
    (f = 1 \<and> om = 0 \<longrightarrow> r = Return True) \<and>
    (0 \<le> f \<and> om = 1 \<longrightarrow> r = Blocks)"
proof (cases "f < 0")
  case True
  then show ?thesis using run by (auto simp: MaybeInject_def oneIn_def)
next
  case False
  then obtain b g1 where b: "oneIn int63n f g = (Return b, g1)" using oneIn_cases(3) [OF ok, of f g] by auto
  have f1: "f = 1 \<Longrightarrow> b" using oneIn_one [OF ok, of g] b by auto
  have f0: "b \<Longrightarrow> 0 < f" using oneIn_cases(1) [OF ok] b by simp
  show ?thesis
  proof (cases "om < 0")
    case True
    then have "r = Panics InvalidRandArgument" using run b by (simp add: MaybeInject_def oneIn_def [of _ om])
    then show ?thesis using False True by simp
  next
    case nonneg: False
    then obtain c g2 where c: "oneIn int63n om g1 = (Return c, g2)"
      using oneIn_cases(3) [OF ok, of om g1] by auto
    have o1: "om = 1 \<Longrightarrow> c" using oneIn_one [OF ok, of g1] c by auto
    have o0: "c \<Longrightarrow> 0 < om" using oneIn_cases(1) [OF ok] c by simp
    have r: "r = (if c then Blocks else Return b)" using run b c by (simp add: MaybeInject_def)
    have "om = 0 \<Longrightarrow> \<not> c" using o0 by auto
    moreover have "f = 0 \<and> om = 0 \<Longrightarrow> g' = g" using run by (auto simp: MaybeInject_def)
    ultimately show ?thesis using False r f1 f0 o1 o0 by auto
  qed
qed

definition zero_rand :: "unit \<Rightarrow> int \<Rightarrow> int \<times> unit" where
  "zero_rand g n = (0, ())"

lemma zero_rand_ok: "int63n_ok zero_rand"
  by (simp add: int63n_ok_def zero_rand_def)

lemma maybe_inject_rates_witness:
  "fst (MaybeInject zero_rand (rates 0 1 0) ()) = Return True \<and>
   fst (MaybeInject zero_rand (rates 5 3 1) ()) = Blocks"
proof -
  have "fst (MaybeInject zero_rand (rates 0 1 0) ()) = Return True"
    using maybe_inject_rates [OF zero_rand_ok surjective_pairing, where sl = 0 and f = 1 and om = 0 and g = "()"] by simp
  moreover have "fst (MaybeInject zero_rand (rates 5 3 1) ()) = Blocks"
    using maybe_inject_rates [OF zero_rand_ok surjective_pairing, where sl = 5 and f = 3 and om = 1 and g = "()"] by simp
  ultimately show ?thesis by simp
qed

text \<open>
  A \<open>SetInjectionConfig\<close> request without a config panics in the handler, and the nil config has
  been stored before the panic: every later \<open>GetUser\<close>, \<open>GetVideo\<close> and \<open>GetTrendingVideos\<close> of that
  service panics too, whatever it asks for, until a request with a config arrives.
\<close>
lemma nil_config_poisons_service:
  "fst (us_SetInjectionConfig None db) = Panics NilPointerDereference \<and>
   GetUser int63n (snd (us_SetInjectionConfig None db)) ids g = (Panics NilPointerDereference, g) \<and>
   fst (vs_SetInjectionConfig None vdb) = Panics NilPointerDereference \<and>
   GetVideo int63n (snd (vs_SetInjectionConfig None vdb)) ids g = (Panics NilPointerDereference, g) \<and>
   GetTrendingVideos int63n now (snd (vs_SetInjectionConfig None vdb)) g = (Panics NilPointerDereference, g) \<and>
   us_SetInjectionConfig (Some c) (snd (us_SetInjectionConfig None db)) =
     us_SetInjectionConfig (Some c) db"
  by (simp add: us_SetInjectionConfig_def vs_SetInjectionConfig_def SetInjectionConfig_rpc_def
      SetInjectionConfigPb_def GetUser_def GetVideo_def GetTrendingVideos_def MaybeInject_def
      GetInjectionConfig_def)

section \<open>The generated databases\<close>

lemma made_users:
  assumes "rand_ok R" and "MakeUserServiceServer R opts = (db, st)"
  shows "\<exists>n. 5000 \<le> n \<and> n < 10000 \<and> dom (us_users db) = id_range USER_ID_OFFSET n \<and>
    (\<forall>k u. us_users db k = Some u \<longrightarrow> user_ok (first_draw R (uo_Seed opts) + 100) n k u)"
proof -
  obtain n where n: "5000 \<le> n" "n < 10000"
    and ok: "users_ok (first_draw R (uo_Seed opts) + 100) n [USER_ID_OFFSET..USER_ID_OFFSET + n - 1] (us_users db)"
    using MakeUserServiceServer_db [OF assms] by blast
  then show ?thesis using users_ok_dom [OF ok] unfolding users_ok_def by blast
qed

lemma made_users_off:
  assumes "rand_ok R" and "MakeUserServiceServer R opts = (db, st)"
    and "uo_FailureRate opts = 0" and "uo_ResponseOmissionRate opts = 0"
  shows "us_fi db = rates (uo_SleepNs opts) 0 0" and "us_options db = opts"
  using MakeUserServiceServer_db [OF assms(1,2)] assms(3,4) by auto

lemma made_videos:
  assumes "rand_ok R" and "MakeVideoServiceServer R opts = (db, st)"
  shows "video_db_ok (first_draw R (vo_Seed opts) + 100) db"
  using MakeVideoServiceServer_db [OF assms] by (simp add: first_draw_def)

lemma made_videos_off:
  assumes "rand_ok R" and "MakeVideoServiceServer R opts = (db, st)"
    and "vo_FailureRate opts = 0" and "vo_ResponseOmissionRate opts = 0"
  shows "vs_fi db = rates (vo_SleepNs opts) 0 0" and "vs_options db = opts"
  using MakeVideoServiceServer_db [OF assms(1,2)] assms(3,4) by auto

lemma map_the_ids:
  "set ids \<subseteq> dom m \<Longrightarrow> (\<And>k u. m k = Some u \<Longrightarrow> f u = k) \<Longrightarrow> map f (map (the \<circ> m) ids) = ids"
  by (induction ids) auto

text \<open>A concrete source of randomness for the witnesses: every draw is zero.\<close>

definition zero_ops :: "(unit, unit) rand_ops" where
  "zero_ops = \<lparr>Intn = zero_rand, Int63n = zero_rand, Seed = (\<lambda>_. ()), fake = (\<lambda>_ f. (''x'', f)),
     fakeSeed = (\<lambda>_. ())\<rparr>"

lemma zero_ops_ok: "rand_ok zero_ops"
  using zero_rand_ok by (simp add: rand_ok_def zero_ops_def zero_rand_def)

text \<open>
  C39: what \<open>GetUser\<close> answers, for every list of ids, from a freshly made user service without failure
  injection. There are between 5000 and 9999 users with consecutive ids from 200000. An empty list,
  and one longer than the batch limit, is an InvalidArgument; a list within bounds with an unknown
  id is a NotFound; every other list (repetitions allowed) is answered by the users with exactly
  those ids, in that order. No call panics or hangs.
\<close>
theorem user_service_answers:
  assumes "rand_ok R" and "MakeUserServiceServer R opts = (db, st)"
    and "uo_FailureRate opts = 0" and "uo_ResponseOmissionRate opts = 0"
  shows "\<exists>n. 5000 \<le> n \<and> n < 10000 \<and> (\<forall>ids g. \<exists>r. GetUser int63n db ids g = (r, g) \<and>
    (if ids = [] \<or> uo_MaxBatchSize opts < int (length ids)
     then \<exists>msg. r = Fails (Status InvalidArgument msg)
     else if \<not> set ids \<subseteq> id_range USER_ID_OFFSET n then \<exists>msg. r = Fails (Status NotFound msg)
     else \<exists>us. r = Return us \<and> map ui_UserId us = ids))"
proof -
  obtain n where n: "5000 \<le> n" "n < 10000" and dom: "dom (us_users db) = id_range USER_ID_OFFSET n"
    and ok: "\<forall>k u. us_users db k = Some u \<longrightarrow> user_ok (first_draw R (uo_Seed opts) + 100) n k u"
    using made_users [OF assms(1,2)] by blast
  note off = made_users_off [OF assms]
  have "\<exists>r. GetUser int63n db ids g = (r, g) \<and>
    (if ids = [] \<or> uo_MaxBatchSize opts < int (length ids)
     then \<exists>msg. r = Fails (Status InvalidArgument msg)
     else if \<not> set ids \<subseteq> id_range USER_ID_OFFSET n then \<exists>msg. r = Fails (Status NotFound msg)
     else \<exists>us. r = Return us \<and> map ui_UserId us = ids)" for ids g
  proof (cases "set ids \<subseteq> dom (us_users db)")
    case True
    moreover have "map ui_UserId (map (the \<circ> us_users db) ids) = ids"
      using True ok by (intro map_the_ids) (auto simp: user_ok_def)
    ultimately show ?thesis
      using dom by (simp add: GetUser_off [OF off(1)] off(2) collect_users_ok)
  next
    case False
    then show ?thesis
      using dom collect_users_missing [OF False] by (simp add: GetUser_off [OF off(1)] off(2))
  qed
  then show ?thesis using n by blast
qed

lemma default_users_off:
  "uo_FailureRate DefaultUserServiceOptions = 0" "uo_ResponseOmissionRate DefaultUserServiceOptions = 0"
  "uo_MaxBatchSize DefaultUserServiceOptions = 50"
  by (simp_all add: DefaultUserServiceOptions_def)

theorem user_service_answers_witness:
  "\<exists>msg. fst (GetUser zero_rand (fst (MakeUserServiceServer zero_ops DefaultUserServiceOptions))
      (replicate 51 7) ()) = Fails (Status InvalidArgument msg)"
proof -
  obtain r where "GetUser zero_rand (fst (MakeUserServiceServer zero_ops DefaultUserServiceOptions))
      (replicate 51 7) () = (r, ())" and "\<exists>msg. r = Fails (Status InvalidArgument msg)"
    using user_service_answers [OF zero_ops_ok surjective_pairing default_users_off(1,2), of zero_rand]
    by (auto simp: default_users_off(3) dest!: spec [of _ "replicate 51 7"])
  then show ?thesis by simp
qed

text \<open>
  What \<open>GetVideo\<close> answers, for every list of ids, from a freshly made video service without
  failure injection: an empty list, one above the batch limit and one with a repeated id are each an
  InvalidArgument; a list within bounds with an unknown id is a NotFound; every other list is
  answered by the videos with exactly those ids, in order.
\<close>
lemma video_service_answers:
  assumes "rand_ok R" and "MakeVideoServiceServer R opts = (db, st)"
    and "vo_FailureRate opts = 0" and "vo_ResponseOmissionRate opts = 0"
  shows "\<exists>n. 100 \<le> n \<and> (\<forall>ids g. \<exists>r. GetVideo int63n db ids g = (r, g) \<and>
    (if ids = [] \<or> vo_MaxBatchSize opts < int (length ids) \<or> \<not> distinct ids
     then \<exists>msg. r = Fails (Status InvalidArgument msg)
     else if \<not> set ids \<subseteq> id_range VIDEO_ID_OFFSET n then \<exists>msg. r = Fails (Status NotFound msg)
     else \<exists>vs. r = Return vs \<and> map vi_VideoId vs = ids))"
proof -
  let ?n = "first_draw R (vo_Seed opts) + 100"
  have ok: "video_db_ok ?n db" by (rule made_videos [OF assms(1,2)])
  then have dom: "dom (vs_videos db) = id_range VIDEO_ID_OFFSET ?n"
    and keys: "\<And>k v. vs_videos db k = Some v \<Longrightarrow> video_ok k v" by (simp_all add: video_db_ok_def)
  note off = made_videos_off [OF assms]
  have "\<exists>r. GetVideo int63n db ids g = (r, g) \<and>
    (if ids = [] \<or> vo_MaxBatchSize opts < int (length ids) \<or> \<not> distinct ids
     then \<exists>msg. r = Fails (Status InvalidArgument msg)
     else if \<not> set ids \<subseteq> id_range VIDEO_ID_OFFSET ?n then \<exists>msg. r = Fails (Status NotFound msg)
     else \<exists>vs. r = Return vs \<and> map vi_VideoId vs = ids)" for ids g
  proof (cases "ids = [] \<or> vo_MaxBatchSize opts < int (length ids) \<or> \<not> distinct ids")
    case True
    then show ?thesis by (auto simp: GetVideo_def off deduplicateIds_same_length)
  next
    case False
    then have g: "GetVideo int63n db ids g = (collect_videos (vs_videos db) ids, g)"
      using GetVideo_off [OF off(1), of ids] off(2) by simp
    show ?thesis
    proof (cases "set ids \<subseteq> dom (vs_videos db)")
      case True
      then have "map vi_VideoId (map (the \<circ> vs_videos db) ids) = ids"
        using keys by (intro map_the_ids) (auto simp: video_ok_def)
      then show ?thesis using g True dom False by (simp add: collect_videos_ok)
    next
      case missing: False
      then show ?thesis using g dom False collect_videos_missing [OF missing] by simp
    qed
  qed
  moreover have "100 \<le> ?n" using first_draw_nonneg [OF assms(1)] by simp
  ultimately show ?thesis by blast
qed

lemma default_videos_off:
  "vo_FailureRate DefaultVideoServiceOptions = 0" "vo_ResponseOmissionRate DefaultVideoServiceOptions = 0"
  "vo_MaxBatchSize DefaultVideoServiceOptions = 50" "vo_Seed DefaultVideoServiceOptions = 42"
  by (simp_all add: DefaultVideoServiceOptions_def)

lemma video_service_answers_witness:
  "\<exists>msg. fst (GetVideo zero_rand (fst (MakeVideoServiceServer zero_ops DefaultVideoServiceOptions))
      [7, 7] ()) = Fails (Status InvalidArgument msg)"
proof -
  obtain r where "GetVideo zero_rand (fst (MakeVideoServiceServer zero_ops DefaultVideoServiceOptions))
      [7, 7] () = (r, ())" and "\<exists>msg. r = Fails (Status InvalidArgument msg)"
    using video_service_answers [OF zero_ops_ok surjective_pairing default_videos_off(1,2), of zero_rand]
    by (auto dest!: spec [of _ "[7, 7]"])
  then show ?thesis by simp
qed

text \<open>
  The trending list is always servable. A freshly made video service without failure injection
  answers \<open>GetTrendingVideos\<close> with between 1 and 19 distinct ids and an expiration the configured
  number of seconds ahead; asked back in a single \<open>GetVideo\<close>, that list is answered in full when the
  batch limit admits it, and is refused as a whole with InvalidArgument when the limit is below its
  length.
\<close>
lemma trending_list_fetchable:
  assumes "rand_ok R" and "MakeVideoServiceServer R opts = (db, st)"
    and "vo_FailureRate opts = 0" and "vo_ResponseOmissionRate opts = 0"
  shows "\<exists>ids. GetTrendingVideos int63n now db g =
      (Return \<lparr>tv_Videos = ids, tv_ExpirationTimeS = word_of_int (now + vo_TtlSeconds opts)\<rparr>, g) \<and>
    1 \<le> length ids \<and> length ids \<le> 19 \<and> distinct ids \<and>
    (if int (length ids) \<le> vo_MaxBatchSize opts
     then \<exists>vs. GetVideo int63n db ids g = (Return vs, g) \<and> map vi_VideoId vs = ids
     else \<exists>msg. GetVideo int63n db ids g = (Fails (Status InvalidArgument msg), g))"
proof -
  let ?ids = "vs_topVideos db"
  note ok = made_videos [OF assms(1,2), unfolded video_db_ok_def]
  note off = made_videos_off [OF assms]
  have "GetTrendingVideos int63n now db g =
      (Return \<lparr>tv_Videos = ?ids, tv_ExpirationTimeS = word_of_int (now + vo_TtlSeconds opts)\<rparr>, g)"
    by (simp add: GetTrendingVideos_def off)
  moreover have "1 \<le> length ?ids \<and> length ?ids \<le> 19 \<and> distinct ?ids"
    using ok by (simp add: Suc_le_eq)
  moreover have "\<exists>vs. GetVideo int63n db ?ids g = (Return vs, g) \<and> map vi_VideoId vs = ?ids"
    if "int (length ?ids) \<le> vo_MaxBatchSize opts"
  proof -
    have sub: "set ?ids \<subseteq> dom (vs_videos db)" using ok by simp
    have "GetVideo int63n db ?ids g = (Return (map (the \<circ> vs_videos db) ?ids), g)"
      using GetVideo_off [OF off(1), of ?ids] off(2) ok that sub by (simp add: collect_videos_ok)
    moreover have "map vi_VideoId (map (the \<circ> vs_videos db) ?ids) = ?ids"
      using ok sub by (intro map_the_ids) (auto simp: video_ok_def)
    ultimately show ?thesis by blast
  qed
  moreover have "\<exists>msg. GetVideo int63n db ?ids g = (Fails (Status InvalidArgument msg), g)"
    if "\<not> int (length ?ids) \<le> vo_MaxBatchSize opts"
    using that ok by (simp add: GetVideo_def off)
  ultimately show ?thesis by (intro exI [of _ ?ids]) presburger
qed

lemma trending_list_fetchable_witness:
  "\<exists>ids vs. GetVideo zero_rand (fst (MakeVideoServiceServer zero_ops DefaultVideoServiceOptions)) ids ()
      = (Return vs, ()) \<and> 1 \<le> length ids"
proof -
  obtain ids where "1 \<le> length ids" "length ids \<le> 19"
    "int (length ids) \<le> 50 \<longrightarrow> (\<exists>vs. GetVideo zero_rand
       (fst (MakeVideoServiceServer zero_ops DefaultVideoServiceOptions)) ids () = (Return vs, ()))"
    using trending_list_fetchable [OF zero_ops_ok surjective_pairing default_videos_off(1,2), of zero_rand 0]
    unfolding default_videos_off(3) by metis
  then show ?thesis by auto
qed

section \<open>References between the databases\<close>

lemma references_closed:
  assumes R: "rand_ok R" and mkU: "MakeUserServiceServer R uo = (udb, st)"
    and mkV: "MakeVideoServiceServer R vo = (vdb, st')" and seed: "uo_Seed uo = vo_Seed vo"
    and u: "us_users udb k = Some u"
  shows "ui_UserId u = k \<and>
    (\<forall>s\<in>set (ui_SubscribedTo u). s \<noteq> k \<and> (\<exists>u'. us_users udb s = Some u' \<and> ui_UserId u' = s)) \<and>
    (\<forall>l\<in>set (ui_LikedVideos u). \<exists>v. vs_videos vdb l = Some v \<and> vi_VideoId v = l)"
proof -
  obtain n where dom: "dom (us_users udb) = id_range USER_ID_OFFSET n"
    and ok: "\<forall>k u. us_users udb k = Some u \<longrightarrow> user_ok (first_draw R (uo_Seed uo) + 100) n k u"
    using made_users [OF R mkU] by blast
  have uok: "user_ok (first_draw R (uo_Seed uo) + 100) n k u" using ok u by blast
  have v: "video_db_ok (first_draw R (uo_Seed uo) + 100) vdb" using made_videos [OF R mkV] seed by simp
  have "s \<noteq> k \<and> (\<exists>u'. us_users udb s = Some u' \<and> ui_UserId u' = s)" if "s \<in> set (ui_SubscribedTo u)" for s
  proof -
    have "s \<in> dom (us_users udb)" and "s \<noteq> k" using uok that dom by (auto simp: user_ok_def)
    then show ?thesis using ok unfolding user_ok_def by blast
  qed
  moreover have "\<exists>v. vs_videos vdb l = Some v \<and> vi_VideoId v = l" if "l \<in> set (ui_LikedVideos u)" for l
  proof -
    have "l \<in> dom (vs_videos vdb)"
      using uok v that by (auto simp: user_ok_def video_db_ok_def US_VIDEO_ID_OFFSET_def VIDEO_ID_OFFSET_def)
    then show ?thesis using v unfolding video_db_ok_def video_ok_def by blast
  qed
  ultimately show ?thesis using uok by (simp add: user_ok_def)
qed

text \<open>
  C24: no dangling reference. When both services are made from the same seed, every user's
  subscriptions name other existing users (never the user itself), and every liked video of every
  user exists in the video service's database, under its own id. The two servers never talk to each
  other: this rests on both drawing the number of videos first from the same seeded source.
\<close>
theorem service_references_closed:
  assumes R: "rand_ok R" and mkU: "MakeUserServiceServer R uo = (udb, st)"
    and mkV: "MakeVideoServiceServer R vo = (vdb, st')" and seed: "uo_Seed uo = vo_Seed vo"
    and u: "us_users udb k = Some u"
  shows "ui_UserId u = k \<and>
    (\<forall>s\<in>set (ui_SubscribedTo u). s \<noteq> k \<and> (\<exists>u'. us_users udb s = Some u' \<and> ui_UserId u' = s)) \<and>
    (\<forall>l\<in>set (ui_LikedVideos u). \<exists>v. vs_videos vdb l = Some v \<and> vi_VideoId v = l)"
  using references_closed [OF assms] .

theorem service_references_closed_witness:
  "\<exists>k u. us_users (fst (MakeUserServiceServer zero_ops DefaultUserServiceOptions)) k = Some u \<and>
     (\<forall>l\<in>set (ui_LikedVideos u).
        \<exists>v. vs_videos (fst (MakeVideoServiceServer zero_ops DefaultVideoServiceOptions)) l = Some v)"
proof -
  obtain n where n: "5000 \<le> n"
    and dom: "dom (us_users (fst (MakeUserServiceServer zero_ops DefaultUserServiceOptions))) = id_range USER_ID_OFFSET n"
    using made_users [OF zero_ops_ok surjective_pairing [of "MakeUserServiceServer zero_ops DefaultUserServiceOptions"]]
    by (elim exE conjE)
  have "word_of_int (0 + USER_ID_OFFSET) \<in> id_range USER_ID_OFFSET n" using n by (intro id_rangeI) auto
  then obtain u where u: "us_users (fst (MakeUserServiceServer zero_ops DefaultUserServiceOptions))
      (word_of_int (0 + USER_ID_OFFSET)) = Some u"
    using dom by blast
  have "uo_Seed DefaultUserServiceOptions = vo_Seed DefaultVideoServiceOptions"
    by (simp add: DefaultUserServiceOptions_def DefaultVideoServiceOptions_def)
  note c = service_references_closed [OF zero_ops_ok surjective_pairing surjective_pairing this u]
  show ?thesis by (intro exI conjI, rule u) (use c in blast)
qed

end
