(* ===== verification/VideoRecClients.thy ===== *)
theory VideoRecClients
  imports VideoRecProps Backends
begin

text \<open>
  What the recommendation server needs of its two clients, as locales: while the services are up,
  a query within the batch limit for known ids is answered by exactly those records. The client's
  side of the contract, that the batching loops then collect everything, is proved once inside the
  locale. The mock clients of lab1 provide the contract (the interpretation \<open>mocks\<close>), and the
  end-to-end properties of the three services rest on it.
\<close>

section \<open>The contract\<close>

record services =
  sv_users :: "u64 \<rightharpoonup> UserInfo"
  sv_videos :: "u64 \<rightharpoonup> VideoInfo"
  sv_userLimit :: int
  sv_videoLimit :: int

locale user_client =
  fixes getUser :: "'u \<Rightarrow> u64 list \<Rightarrow> 'w \<Rightarrow> UserInfo list outcome \<times> 'w"
    and serving :: "services \<Rightarrow> 'w \<Rightarrow> bool"
  assumes answers_users:
    "serving S w \<Longrightarrow> ids \<noteq> [] \<Longrightarrow> int (length ids) \<le> sv_userLimit S \<Longrightarrow> set ids \<subseteq> dom (sv_users S) \<Longrightarrow>
     \<exists>w'. getUser c ids w = (Return (map (the \<circ> sv_users S) ids), w') \<and> serving S w'"

locale video_client =
  fixes getVideo :: "'v \<Rightarrow> u64 list \<Rightarrow> 'w \<Rightarrow> VideoInfo list outcome \<times> 'w"
    and serving :: "services \<Rightarrow> 'w \<Rightarrow> bool"
  assumes answers_videos:
    "serving S w \<Longrightarrow> ids \<noteq> [] \<Longrightarrow> distinct ids \<Longrightarrow> int (length ids) \<le> sv_videoLimit S \<Longrightarrow>
     set ids \<subseteq> dom (sv_videos S) \<Longrightarrow>
     \<exists>w'. getVideo c ids w = (Return (map (the \<circ> sv_videos S) ids), w') \<and> serving S w'"

locale rec_clients =
  user_client "cl_GetUser C" serving + video_client "cl_GetVideo C" serving
  for C :: "('u, 'v, 'w) clients" and serving :: "services \<Rightarrow> 'w \<Rightarrow> bool"

section \<open>What the handler should answer\<close>

definition wanted :: "services \<Rightarrow> u64 \<Rightarrow> u64 list" where
  "wanted S userId =
     deduplicate_ids (concat (map (\<lambda>k. ui_LikedVideos (the (sv_users S k)))
                                  (ui_SubscribedTo (the (sv_users S userId)))))"

definition ideal_response :: "'c blowfish \<Rightarrow> ((VideoInfo \<Rightarrow> VideoInfo \<Rightarrow> int) \<Rightarrow> VideoInfo list \<Rightarrow> VideoInfo list) \<Rightarrow>
    services \<Rightarrow> u64 \<Rightarrow> int \<Rightarrow> GetTopVideosResponse outcome" where
  "ideal_response B sf S userId limit =
     fst (rank_and_cut B sf (ui_UserCoefficients (the (sv_users S userId))) limit
            (map (the \<circ> sv_videos S) (wanted S userId)) False
            (new_server \<lparr>UserServiceAddr = [], VideoServiceAddr = [], MaxBatchSize = 1, ClientPoolSize = 1,
               DisableFallback = True, DisableRetry = True\<rparr> ([] :: unit list) ([] :: unit list)))"

lemma rank_and_cut_server_irrelevant:
  "fst (rank_and_cut B sf cs limit vs False s1) = fst (rank_and_cut B sf cs limit vs False s2)"
  "snd (rank_and_cut B sf cs limit vs False s1) = s1"
  by (auto simp: rank_and_cut_def Let_def split: go_result.splits)

text \<open>The user's subscriptions and the videos they like are all known to the services.\<close>

definition resolvable :: "services \<Rightarrow> u64 \<Rightarrow> bool" where
  "resolvable S userId \<longleftrightarrow>
     (\<exists>u. sv_users S userId = Some u \<and> set (ui_SubscribedTo u) \<subseteq> dom (sv_users S)) \<and>
     set (wanted S userId) \<subseteq> dom (sv_videos S)"

section \<open>The handler under the contract\<close>

context rec_clients
begin

lemma subscribed_loop_serving:
  assumes "0 < MaxBatchSize (options server)" and "MaxBatchSize (options server) \<le> sv_userLimit S"
  shows "serving S w \<Longrightarrow> 0 \<le> i \<Longrightarrow> set (drop (nat i) subs) \<subseteq> dom (sv_users S) \<Longrightarrow>
    \<exists>w'. subscribed_loop C c userId subs i acc server w =
      Some (Return (acc @ concat (map (\<lambda>k. ui_LikedVideos (the (sv_users S k))) (drop (nat i) subs))), server, w') \<and>
      serving S w'"
proof (induction "nat (int (length subs) - i)" arbitrary: i acc w rule: less_induct)
  case less
  let ?m = "MaxBatchSize (options server)"
  show ?case
  proof (cases "i < int (length subs)")
    case True
    let ?batch = "take (nat ?m) (drop (nat i) subs)"
    note b = batch_end_cases [OF assms(1) less.prems(2) True]
    have "int (length ?batch) \<le> sv_userLimit S" "set ?batch \<subseteq> dom (sv_users S)"
      using b(3,4) assms(2) less.prems(3) by auto
    then obtain w1 where w1: "cl_GetUser C c ?batch w = (Return (map (the \<circ> sv_users S) ?batch), w1)" "serving S w1"
      using answers_users [OF less.prems(1) b(2)] by blast
    have "set (drop (nat (i + ?m)) subs) \<subseteq> set (drop (nat i) subs)" by (subst b(5)) auto
    then have "set (drop (nat (i + ?m)) subs) \<subseteq> dom (sv_users S)" using less.prems(3) by blast
    with less.hyps [of "i + ?m" w1 "acc @ concat (map ui_LikedVideos (map (the \<circ> sv_users S) ?batch))"]
      w1(2) assms(1) less.prems(2) True
    obtain w2 where w2: "subscribed_loop C c userId subs (i + ?m)
        (acc @ concat (map ui_LikedVideos (map (the \<circ> sv_users S) ?batch))) server w1 =
      Some (Return ((acc @ concat (map ui_LikedVideos (map (the \<circ> sv_users S) ?batch))) @
        concat (map (\<lambda>k. ui_LikedVideos (the (sv_users S k))) (drop (nat (i + ?m)) subs))), server, w2)"
      "serving S w2"
      by auto
    have "concat (map (\<lambda>k. ui_LikedVideos (the (sv_users S k))) (drop (nat i) subs)) =
      concat (map ui_LikedVideos (map (the \<circ> sv_users S) ?batch)) @
        concat (map (\<lambda>k. ui_LikedVideos (the (sv_users S k))) (drop (nat (i + ?m)) subs))"
      by (subst b(5)) (simp add: comp_def)
    then show ?thesis
      using w2 subscribed_loop_step [OF assms(1) less.prems(2) True, of C c w] w1(1)
      by (simp add: retrying_def)
  next
    case False
    then show ?thesis using less.prems(1) by (subst subscribed_loop.simps) auto
  qed
qed

lemma video_loop_serving:
  assumes "0 < MaxBatchSize (options server)" and "MaxBatchSize (options server) \<le> sv_videoLimit S"
    and "distinct ids"
  shows "serving S w \<Longrightarrow> 0 \<le> i \<Longrightarrow> set (drop (nat i) ids) \<subseteq> dom (sv_videos S) \<Longrightarrow>
    \<exists>w'. video_loop C c ids i acc server w =
      Some (Return (acc @ map (the \<circ> sv_videos S) (drop (nat i) ids), False), server, w') \<and> serving S w'"
proof (induction "nat (int (length ids) - i)" arbitrary: i acc w rule: less_induct)
  case less
  let ?m = "MaxBatchSize (options server)"
  show ?case
  proof (cases "i < int (length ids)")
    case True
    let ?batch = "take (nat ?m) (drop (nat i) ids)"
    note b = batch_end_cases [OF assms(1) less.prems(2) True]
    have "int (length ?batch) \<le> sv_videoLimit S" "set ?batch \<subseteq> dom (sv_videos S)" "distinct ?batch"
      using b(3,4) assms(2,3) less.prems(3) by auto
    then obtain w1 where w1: "cl_GetVideo C c ?batch w = (Return (map (the \<circ> sv_videos S) ?batch), w1)" "serving S w1"
      using answers_videos [OF less.prems(1) b(2)] by blast
    have "set (drop (nat (i + ?m)) ids) \<subseteq> set (drop (nat i) ids)" by (subst b(5)) auto
    then have "set (drop (nat (i + ?m)) ids) \<subseteq> dom (sv_videos S)" using less.prems(3) by blast
    with less.hyps [of "i + ?m" w1 "acc @ map (the \<circ> sv_videos S) ?batch"] w1(2) assms(1) less.prems(2) True
    obtain w2 where w2: "video_loop C c ids (i + ?m) (acc @ map (the \<circ> sv_videos S) ?batch) server w1 =
      Some (Return ((acc @ map (the \<circ> sv_videos S) ?batch) @ map (the \<circ> sv_videos S) (drop (nat (i + ?m)) ids),
        False), server, w2)" "serving S w2"
      by auto
    have "map (the \<circ> sv_videos S) (drop (nat i) ids) =
      map (the \<circ> sv_videos S) ?batch @ map (the \<circ> sv_videos S) (drop (nat (i + ?m)) ids)"
      by (subst b(5)) simp
    then show ?thesis
      using w2 video_loop_step [OF assms(1) less.prems(2) True, of C c w] w1(1)
      by (simp add: retrying_def)
  next
    case False
    then show ?thesis using less.prems(1) by (subst video_loop.simps) auto
  qed
qed

lemma fetch_and_rank_serving:
  assumes "pool_ok server" and "0 < MaxBatchSize (options server)"
    and "MaxBatchSize (options server) \<le> sv_videoLimit S" and "serving S w"
    and "distinct ids" and "set ids \<subseteq> dom (sv_videos S)"
  shows "\<exists>i w'. fetch_and_rank C B sf cs limit ids server w =
      Some (fst (rank_and_cut B sf cs limit (map (the \<circ> sv_videos S) ids) False server),
            server\<lparr>videoServiceIdx := i\<rparr>, w') \<and> pool_ok (server\<lparr>videoServiceIdx := i\<rparr>) \<and> serving S w'"
proof -
  obtain i where pick: "getNextVideoClient server =
      Return (videoServiceClientPool server ! unat (videoServiceIdx server), server\<lparr>videoServiceIdx := i\<rparr>)"
    and ok: "pool_ok (server\<lparr>videoServiceIdx := i\<rparr>)"
    using getNextVideoClient_ok [OF assms(1)] by blast
  let ?s = "server\<lparr>videoServiceIdx := i\<rparr>" and ?c = "videoServiceClientPool server ! unat (videoServiceIdx server)"
  have "0 < MaxBatchSize (options ?s)" "MaxBatchSize (options ?s) \<le> sv_videoLimit S" using assms(2,3) by simp_all
  from video_loop_serving [OF this assms(5,4), of 0 ?c "[]"] assms(6) obtain w' where
    loop: "video_loop C ?c ids 0 [] ?s w = Some (Return (map (the \<circ> sv_videos S) ids, False), ?s, w')" "serving S w'"
    by auto
  obtain r s2 where t: "rank_and_cut B sf cs limit (map (the \<circ> sv_videos S) ids) False ?s = (r, s2)"
    by (rule prod.exhaust)
  have "s2 = ?s" using rank_and_cut_server_irrelevant(2) [of B sf cs limit "map (the \<circ> sv_videos S) ids" ?s] t by simp
  moreover have "r = fst (rank_and_cut B sf cs limit (map (the \<circ> sv_videos S) ids) False server)"
    using rank_and_cut_server_irrelevant(1) t by (metis fst_conv)
  ultimately show ?thesis using pick ok loop t by (auto simp: fetch_and_rank_def)
qed

lemma after_user_serving:
  assumes "pool_ok server" and "0 < MaxBatchSize (options server)"
    and "MaxBatchSize (options server) \<le> sv_userLimit S" and "MaxBatchSize (options server) \<le> sv_videoLimit S"
    and "serving S w" and "resolvable S (req_UserId req)"
  shows "\<exists>i w'. after_user C B sf req c (the (sv_users S (req_UserId req))) server w =
      Some (ideal_response B sf S (req_UserId req) (req_Limit req), server\<lparr>videoServiceIdx := i\<rparr>, w') \<and>
    pool_ok (server\<lparr>videoServiceIdx := i\<rparr>) \<and> serving S w'"
proof -
  let ?u = "the (sv_users S (req_UserId req))"
  have r: "set (ui_SubscribedTo ?u) \<subseteq> dom (sv_users S)" "set (wanted S (req_UserId req)) \<subseteq> dom (sv_videos S)"
    using assms(6) by (auto simp: resolvable_def)
  obtain w1 where w1: "subscribed_loop C c (req_UserId req) (ui_SubscribedTo ?u) 0 [] server w =
      Some (Return (concat (map (\<lambda>k. ui_LikedVideos (the (sv_users S k))) (ui_SubscribedTo ?u))), server, w1)"
    "serving S w1"
    using subscribed_loop_serving [OF assms(2,3,5), of 0 "ui_SubscribedTo ?u" c "req_UserId req" "[]"] r(1) by auto
  have "distinct (wanted S (req_UserId req))" by (simp add: wanted_def deduplicate_ids_def)
  from fetch_and_rank_serving [OF assms(1,2,4) w1(2) this r(2)] obtain i w' where
    "fetch_and_rank C B sf (ui_UserCoefficients ?u) (req_Limit req) (wanted S (req_UserId req)) server w1 =
      Some (fst (rank_and_cut B sf (ui_UserCoefficients ?u) (req_Limit req)
        (map (the \<circ> sv_videos S) (wanted S (req_UserId req))) False server), server\<lparr>videoServiceIdx := i\<rparr>, w')"
    "pool_ok (server\<lparr>videoServiceIdx := i\<rparr>)" "serving S w'"
    by blast
  moreover have "fst (rank_and_cut B sf (ui_UserCoefficients ?u) (req_Limit req)
      (map (the \<circ> sv_videos S) (wanted S (req_UserId req))) False server) =
    ideal_response B sf S (req_UserId req) (req_Limit req)"
    unfolding ideal_response_def by (rule rank_and_cut_server_irrelevant(1))
  ultimately show ?thesis using w1(1) by (simp add: after_user_def wanted_def del: split_paired_Ex) blast
qed

lemma GetTopVideos_serving:
  assumes "pool_ok server" and "0 < MaxBatchSize (options server)"
    and "MaxBatchSize (options server) \<le> sv_userLimit S" and "MaxBatchSize (options server) \<le> sv_videoLimit S"
    and "serving S w" and "resolvable S (req_UserId req)" and lim: "0 \<le> req_Limit req"
  shows "\<exists>server' w'. GetTopVideos C B sf elapsed req server w =
      Some (ideal_response B sf S (req_UserId req) (req_Limit req), server', w') \<and>
    pool_ok server' \<and> options server' = options server \<and> serving S w'"
proof -
  let ?s = "server\<lparr>totalRequests := totalRequests server + 1, activeRequests := activeRequests server + 1\<rparr>"
  let ?c = "userServiceClientPool server ! unat (userServiceIdx server)" and ?id = "req_UserId req"
  have "pool_ok ?s" using assms(1) by (simp add: pool_ok_def)
  from getNextUserClient_ok [OF this] obtain i
    where pick: "getNextUserClient ?s = Return (?c, ?s\<lparr>userServiceIdx := i\<rparr>)"
      and ok: "pool_ok (?s\<lparr>userServiceIdx := i\<rparr>)"
    by auto
  have "?id \<in> dom (sv_users S)" using assms(6) by (auto simp: resolvable_def)
  moreover have "int (length [?id]) \<le> sv_userLimit S" using assms(2,3) by simp
  ultimately obtain w1 where w1: "cl_GetUser C ?c [?id] w = (Return [the (sv_users S ?id)], w1)" "serving S w1"
    using answers_users [OF assms(5), of "[?id]" ?c] by auto
  let ?s1 = "?s\<lparr>userServiceIdx := i\<rparr>"
  have "retrying (\<not> DisableRetry (options ?s1)) (cl_GetUser C ?c [?id]) w = (Return [the (sv_users S ?id)], w1)"
    using w1(1) by (simp add: retrying_def)
  note body = top_videos_body_cases [OF lim pick this]
  have "0 < MaxBatchSize (options ?s1)" "MaxBatchSize (options ?s1) \<le> sv_userLimit S"
    "MaxBatchSize (options ?s1) \<le> sv_videoLimit S" using assms(2-4) by simp_all
  from after_user_serving [OF ok this w1(2) assms(6)] obtain j w2 where
    "after_user C B sf req ?c (the (sv_users S ?id)) ?s1 w1 =
      Some (ideal_response B sf S ?id (req_Limit req), ?s1\<lparr>videoServiceIdx := j\<rparr>, w2)"
    "pool_ok (?s1\<lparr>videoServiceIdx := j\<rparr>)" "serving S w2"
    by blast
  then show ?thesis
    by (cases "ideal_response B sf S ?id (req_Limit req) = Blocks")
      (simp_all add: GetTopVideos_of_body body pool_ok_def del: split_paired_Ex)
qed

end

lemma ideal_response_value:
  assumes "blowfish_ok B" and "sort_ok sf" and "0 \<le> limit"
  shows "\<exists>ws. ideal_response B sf S userId limit = Return \<lparr>resp_Videos = cut limit ws, resp_StaleResponse = False\<rparr> \<and>
    mset ws = mset (map (the \<circ> sv_videos S) (wanted S userId)) \<and>
    by_rank B (ui_UserCoefficients (the (sv_users S userId))) ws"
  unfolding ideal_response_def
  using rank_and_cut_value [OF assms, of "ui_UserCoefficients (the (sv_users S userId))"
      "map (the \<circ> sv_videos S) (wanted S userId)" False]
  by (metis fst_conv)

section \<open>The mock clients\<close>

text \<open>
  The state behind the mock clients: the in-memory server of each, the shared random source and the
  clock. A pool holds the same mock client in every slot, so a client is a \<open>unit\<close> value here.
\<close>

record 'g world =
  w_users :: UserServiceServer
  w_videos :: VideoServiceServer
  w_rand :: 'g
  w_now :: int

definition mock_GetUser :: "('g \<Rightarrow> int \<Rightarrow> int \<times> 'g) \<Rightarrow> u64 list \<Rightarrow> 'g world \<Rightarrow> UserInfo list outcome \<times> 'g world" where
  "mock_GetUser int63n ids w =
     (case GetUser int63n (w_users w) ids (w_rand w) of (r, g) \<Rightarrow> (r, w\<lparr>w_rand := g\<rparr>))"

definition mock_GetVideo :: "('g \<Rightarrow> int \<Rightarrow> int \<times> 'g) \<Rightarrow> u64 list \<Rightarrow> 'g world \<Rightarrow> VideoInfo list outcome \<times> 'g world" where
  "mock_GetVideo int63n ids w =
     (case GetVideo int63n (w_videos w) ids (w_rand w) of (r, g) \<Rightarrow> (r, w\<lparr>w_rand := g\<rparr>))"

definition mock_GetTrendingVideos :: "('g \<Rightarrow> int \<Rightarrow> int \<times> 'g) \<Rightarrow> 'g world \<Rightarrow>
    GetTrendingVideosResponse outcome \<times> 'g world" where
  "mock_GetTrendingVideos int63n w =
     (case GetTrendingVideos int63n (w_now w) (w_videos w) (w_rand w) of (r, g) \<Rightarrow> (r, w\<lparr>w_rand := g\<rparr>))"

definition mock_user_SetInjectionConfig :: "InjectionConfig option \<Rightarrow> 'g world \<Rightarrow> unit outcome \<times> 'g world" where
  "mock_user_SetInjectionConfig config w =
     (case us_SetInjectionConfig config (w_users w) of (r, db) \<Rightarrow> (r, w\<lparr>w_users := db\<rparr>))"

definition mock_video_SetInjectionConfig :: "InjectionConfig option \<Rightarrow> 'g world \<Rightarrow> unit outcome \<times> 'g world" where
  "mock_video_SetInjectionConfig config w =
     (case vs_SetInjectionConfig config (w_videos w) of (r, db) \<Rightarrow> (r, w\<lparr>w_videos := db\<rparr>))"

definition mock_clients :: "('g \<Rightarrow> int \<Rightarrow> int \<times> 'g) \<Rightarrow> (unit, unit, 'g world) clients" where
  "mock_clients int63n =
     \<lparr>cl_GetUser = (\<lambda>_. mock_GetUser int63n), cl_GetVideo = (\<lambda>_. mock_GetVideo int63n),
      cl_GetTrendingVideos = (\<lambda>_. mock_GetTrendingVideos int63n)\<rparr>"

text \<open>\<open>MakeMockUserServiceClient\<close> and \<open>MakeMockVideoServiceClient\<close> make the two servers.\<close>

definition MakeMockClients :: "('g, 'f) rand_ops \<Rightarrow> UserServiceOptions \<Rightarrow> VideoServiceOptions \<Rightarrow> int \<Rightarrow> 'g world" where
  "MakeMockClients R uo vo now =
     (case MakeUserServiceServer R uo of
        (udb, _) \<Rightarrow>
          case MakeVideoServiceServer R vo of
            (vdb, (g, _)) \<Rightarrow> \<lparr>w_users = udb, w_videos = vdb, w_rand = g, w_now = now\<rparr>)"

text \<open>No failure injection, and the databases and limits of the two servers.\<close>

definition mock_serving :: "services \<Rightarrow> 'g world \<Rightarrow> bool" where
  "mock_serving S w \<longleftrightarrow>
     (\<exists>sl. us_fi (w_users w) = rates sl 0 0) \<and> (\<exists>sl. vs_fi (w_videos w) = rates sl 0 0) \<and>
     sv_users S = us_users (w_users w) \<and> sv_videos S = vs_videos (w_videos w) \<and>
     sv_userLimit S = uo_MaxBatchSize (us_options (w_users w)) \<and>
     sv_videoLimit S = vo_MaxBatchSize (vs_options (w_videos w))"

interpretation mocks: rec_clients "mock_clients int63n" mock_serving for int63n
proof (unfold_locales, goal_cases)
  case (1 S w ids c)
  then have "mock_GetUser int63n ids w = (Return (map (the \<circ> sv_users S) ids), w)"
    by (auto simp: mock_serving_def mock_GetUser_def GetUser_off collect_users_ok)
  with 1(1) show ?case by (simp add: mock_clients_def)
next
  case (2 S w ids c)
  then have "mock_GetVideo int63n ids w = (Return (map (the \<circ> sv_videos S) ids), w)"
    by (auto simp: mock_serving_def mock_GetVideo_def GetVideo_off collect_videos_ok)
  with 2(1) show ?case by (simp add: mock_clients_def)
qed

section \<open>End to end\<close>

definition made_services :: "'g world \<Rightarrow> services" where
  "made_services w =
     \<lparr>sv_users = us_users (w_users w), sv_videos = vs_videos (w_videos w),
      sv_userLimit = uo_MaxBatchSize (us_options (w_users w)),
      sv_videoLimit = vo_MaxBatchSize (vs_options (w_videos w))\<rparr>"

lemma made_serving:
  assumes "rand_ok R" and "uo_FailureRate uo = 0" and "uo_ResponseOmissionRate uo = 0"
    and "vo_FailureRate vo = 0" and "vo_ResponseOmissionRate vo = 0"
  shows "mock_serving (made_services (MakeMockClients R uo vo now)) (MakeMockClients R uo vo now)"
    and "sv_userLimit (made_services (MakeMockClients R uo vo now)) = uo_MaxBatchSize uo"
    and "sv_videoLimit (made_services (MakeMockClients R uo vo now)) = vo_MaxBatchSize vo"
proof -
  obtain udb st vdb g f where u: "MakeUserServiceServer R uo = (udb, st)"
    and v: "MakeVideoServiceServer R vo = (vdb, (g, f))"
    by (metis prod.exhaust)
  have "us_fi udb = rates (uo_SleepNs uo) 0 0" "us_options udb = uo"
    using made_users_off [OF assms(1) u assms(2,3)] .
  moreover have "vs_fi vdb = rates (vo_SleepNs vo) 0 0" "vs_options vdb = vo"
    using made_videos_off [OF assms(1) v assms(4,5)] .
  ultimately show "mock_serving (made_services (MakeMockClients R uo vo now)) (MakeMockClients R uo vo now)"
    and "sv_userLimit (made_services (MakeMockClients R uo vo now)) = uo_MaxBatchSize uo"
    and "sv_videoLimit (made_services (MakeMockClients R uo vo now)) = vo_MaxBatchSize vo"
    by (auto simp: MakeMockClients_def u v mock_serving_def made_services_def)
qed

lemma set_wanted: "set (wanted S userId) =
    (\<Union>k\<in>set (ui_SubscribedTo (the (sv_users S userId))). set (ui_LikedVideos (the (sv_users S k))))"
  by (simp add: wanted_def deduplicate_ids_def)

lemma made_resolvable:
  assumes R: "rand_ok R" and seed: "uo_Seed uo = vo_Seed vo"
    and user: "us_users (w_users (MakeMockClients R uo vo now)) userId = Some u"
  shows "resolvable (made_services (MakeMockClients R uo vo now)) userId"
proof -
  let ?S = "made_services (MakeMockClients R uo vo now)"
  obtain udb st vdb g f where us: "MakeUserServiceServer R uo = (udb, st)"
    and vs: "MakeVideoServiceServer R vo = (vdb, (g, f))"
    by (metis prod.exhaust)
  have S: "sv_users ?S = us_users udb" "sv_videos ?S = vs_videos vdb"
    by (simp_all add: made_services_def MakeMockClients_def us vs)
  have u: "us_users udb userId = Some u" using user by (simp add: MakeMockClients_def us vs)
  note closed = references_closed [OF R us vs seed]
  have subs: "set (ui_SubscribedTo u) \<subseteq> dom (us_users udb)" using closed [OF u] by blast
  moreover have "l \<in> dom (vs_videos vdb)"
    if k: "k \<in> set (ui_SubscribedTo u)" and l: "l \<in> set (ui_LikedVideos (the (us_users udb k)))" for k l
  proof -
    obtain uk where "us_users udb k = Some uk" using subs k by blast
    then show ?thesis using closed l by fastforce
  qed
  ultimately show ?thesis
    unfolding resolvable_def set_wanted S u by auto
qed

lemma made_video_keys:
  assumes "rand_ok R" and "set ids \<subseteq> dom (sv_videos (made_services (MakeMockClients R uo vo now)))"
  shows "map (vi_VideoId \<circ> (the \<circ> sv_videos (made_services (MakeMockClients R uo vo now)))) ids = ids"
proof -
  obtain udb st vdb g f where us: "MakeUserServiceServer R uo = (udb, st)"
    and vs: "MakeVideoServiceServer R vo = (vdb, (g, f))"
    by (metis prod.exhaust)
  have S: "sv_videos (made_services (MakeMockClients R uo vo now)) = vs_videos vdb"
    by (simp add: made_services_def MakeMockClients_def us vs)
  have "vi_VideoId v = k" if "vs_videos vdb k = Some v" for k v
    using made_videos [OF assms(1) vs] that by (auto simp: video_db_ok_def video_ok_def)
  then show ?thesis
    using map_the_ids [of ids "vs_videos vdb" vi_VideoId] assms(2) unfolding S by simp
qed

lemma mocks_server_ok:
  assumes "MakeVideoRecServiceServerWithMocks opts () () = Return server"
    and "0 < ClientPoolSize opts" and "ClientPoolSize opts < 2 ^ 63"
  shows "pool_ok server" and "options server = opts"
proof -
  have server: "server = new_server opts (replicate (nat (ClientPoolSize opts)) ())
      (replicate (nat (ClientPoolSize opts)) ())"
    using assms by (auto simp: MakeVideoRecServiceServerWithMocks_def split: if_splits)
  show "pool_ok server" unfolding server by (rule pool_ok_new_server) (use assms(2,3) in simp_all)
  show "options server = opts" unfolding server by (simp add: new_server_def)
qed

text \<open>The configurations in which the three services fit together.\<close>

definition compatible :: "VideoRecServiceOptions \<Rightarrow> UserServiceOptions \<Rightarrow> VideoServiceOptions \<Rightarrow> bool" where
  "compatible opts uo vo \<longleftrightarrow>
     uo_FailureRate uo = 0 \<and> uo_ResponseOmissionRate uo = 0 \<and>
     vo_FailureRate vo = 0 \<and> vo_ResponseOmissionRate vo = 0 \<and> uo_Seed uo = vo_Seed vo \<and>
     0 < MaxBatchSize opts \<and> MaxBatchSize opts \<le> uo_MaxBatchSize uo \<and>
     MaxBatchSize opts \<le> vo_MaxBatchSize vo \<and>
     0 < ClientPoolSize opts \<and> ClientPoolSize opts < 2 ^ 63"

lemma mocks_answer:
  assumes R: "rand_ok R" and comp: "compatible opts uo vo"
    and mk: "MakeVideoRecServiceServerWithMocks opts () () = Return server"
    and user: "us_users (w_users (MakeMockClients R uo vo now)) (req_UserId req) = Some u"
    and lim: "0 \<le> req_Limit req"
  shows "\<exists>server' w'. GetTopVideos (mock_clients int63n) B sf elapsed req server (MakeMockClients R uo vo now) =
    Some (ideal_response B sf (made_services (MakeMockClients R uo vo now)) (req_UserId req) (req_Limit req),
      server', w')"
proof -
  note c = comp [unfolded compatible_def]
  have "pool_ok server" and opts: "options server = opts" using mocks_server_ok [OF mk] c by auto
  note serving = made_serving [OF R, of uo vo now]
  have "mock_serving (made_services (MakeMockClients R uo vo now)) (MakeMockClients R uo vo now)"
    using serving(1) c by simp
  moreover have "MaxBatchSize (options server) \<le> sv_userLimit (made_services (MakeMockClients R uo vo now))"
    "MaxBatchSize (options server) \<le> sv_videoLimit (made_services (MakeMockClients R uo vo now))"
    using serving(2,3) c opts by simp_all
  moreover have "resolvable (made_services (MakeMockClients R uo vo now)) (req_UserId req)"
    using made_resolvable [OF R _ user] c by simp
  moreover have "0 < MaxBatchSize (options server)" using c opts by simp
  ultimately show ?thesis
    using mocks.GetTopVideos_serving [OF \<open>pool_ok server\<close>] lim by blast
qed

text \<open>
  C1: the three services together recommend what they should. With both backends made from one seed
  and without injected failures, and with a positive batch size within both batch limits,
  \<open>GetTopVideos\<close> answers every existing user without an error and never from the cache: the videos are
  exactly those liked by the users that the requester is subscribed to, each once, sorted by
  descending rank for the requester, and cut at the limit.
\<close>
theorem recommendations_end_to_end:
  assumes "rand_ok R" and "blowfish_ok B" and "sort_ok sf" and "compatible opts uo vo"
    and "MakeVideoRecServiceServerWithMocks opts () () = Return server"
    and "us_users (w_users (MakeMockClients R uo vo now)) (req_UserId req) = Some u"
    and "0 \<le> req_Limit req"
  shows "\<exists>ws server' w'.
    GetTopVideos (mock_clients int63n) B sf elapsed req server (MakeMockClients R uo vo now) =
      Some (Return \<lparr>resp_Videos = cut (req_Limit req) ws, resp_StaleResponse = False\<rparr>, server', w') \<and>
    by_rank B (ui_UserCoefficients u) ws \<and> distinct (map vi_VideoId ws) \<and>
    set (map vi_VideoId ws) = (\<Union>k\<in>set (ui_SubscribedTo u).
       set (ui_LikedVideos (the (us_users (w_users (MakeMockClients R uo vo now)) k))))"
proof -
  let ?S = "made_services (MakeMockClients R uo vo now)" and ?id = "req_UserId req"
  have u: "the (sv_users ?S ?id) = u" using assms(6) by (simp add: made_services_def)
  obtain ws where ideal: "ideal_response B sf ?S ?id (req_Limit req) =
      Return \<lparr>resp_Videos = cut (req_Limit req) ws, resp_StaleResponse = False\<rparr>"
    and ws: "mset ws = mset (map (the \<circ> sv_videos ?S) (wanted ?S ?id))" "by_rank B (ui_UserCoefficients u) ws"
    using ideal_response_value [OF assms(2,3,7), of ?S ?id] u by auto
  have "resolvable ?S ?id" using made_resolvable [OF assms(1) _ assms(6)] assms(4) by (simp add: compatible_def)
  then have "set (wanted ?S ?id) \<subseteq> dom (sv_videos ?S)" by (simp add: resolvable_def)
  from made_video_keys [OF assms(1) this] ws(1)
  have ids: "mset (map vi_VideoId ws) = mset (wanted ?S ?id)" by (metis mset_map map_map)
  have "distinct (wanted ?S ?id)" by (simp add: wanted_def deduplicate_ids_def)
  then have "distinct (map vi_VideoId ws)" using ids by (metis mset_eq_imp_distinct_iff)
  moreover have "set (map vi_VideoId ws) = set (wanted ?S ?id)" using ids by (rule mset_eq_setD)
  ultimately show ?thesis
    using mocks_answer [OF assms(1,4,5,6,7), of int63n B sf elapsed] ideal ws(2) u
    by (auto simp: set_wanted made_services_def)
qed

text \<open>A default deployment, for the witnesses.\<close>

definition demo_world :: "unit world" where
  "demo_world = MakeMockClients zero_ops DefaultUserServiceOptions DefaultVideoServiceOptions 0"

lemma demo_compatible: "compatible demo_options DefaultUserServiceOptions DefaultVideoServiceOptions"
  by (simp add: compatible_def demo_options_def DefaultUserServiceOptions_def DefaultVideoServiceOptions_def)

lemma demo_mocks: "MakeVideoRecServiceServerWithMocks demo_options () () = Return demo_server"
  by (simp add: MakeVideoRecServiceServerWithMocks_def demo_options_def demo_server_def)

lemma demo_user: "\<exists>u. us_users (w_users demo_world) 200000 = Some u"
proof -
  obtain udb st vdb g f where us: "MakeUserServiceServer zero_ops DefaultUserServiceOptions = (udb, st)"
    and vs: "MakeVideoServiceServer zero_ops DefaultVideoServiceOptions = (vdb, (g, f))"
    by (metis prod.exhaust)
  obtain n where n: "5000 \<le> n" and dom: "dom (us_users udb) = id_range USER_ID_OFFSET n"
    using made_users [OF zero_ops_ok us] by blast
  have "word_of_int (0 + USER_ID_OFFSET) \<in> id_range USER_ID_OFFSET n" using n by (intro id_rangeI) auto
  then have "200000 \<in> dom (us_users udb)" using dom by (simp add: USER_ID_OFFSET_def)
  then show ?thesis by (auto simp: demo_world_def MakeMockClients_def us vs)
qed

theorem recommendations_end_to_end_witness:
  "\<exists>ws server' w'. GetTopVideos (mock_clients zero_rand) plain_cipher sort_cmp 5 (demo_request 200000)
      demo_server demo_world =
    Some (Return \<lparr>resp_Videos = cut 3 ws, resp_StaleResponse = False\<rparr>, server', w') \<and> distinct (map vi_VideoId ws)"
proof -
  obtain u where "us_users (w_users demo_world) (req_UserId (demo_request 200000)) = Some u"
    using demo_user by (auto simp: demo_request_def)
  from recommendations_end_to_end [OF zero_ops_ok plain_cipher_ok sort_cmp_ok demo_compatible demo_mocks
      this [unfolded demo_world_def], of zero_rand 5]
  show ?thesis by (auto simp: demo_request_def demo_world_def)
qed

text \<open>
  C22: batching is invisible. Two servers whose options differ in the batch size, the pool size, or the
  retry and fallback switches answer the same request with the same response, as long as both are
  compatible with the backends: how the ids are split into batches does not show in the answer, not
  even in the order of videos with equal rank.
\<close>
theorem batch_size_irrelevant:
  assumes "rand_ok R" and "compatible opts1 uo vo" and "compatible opts2 uo vo"
    and "MakeVideoRecServiceServerWithMocks opts1 () () = Return server1"
    and "MakeVideoRecServiceServerWithMocks opts2 () () = Return server2"
    and "us_users (w_users (MakeMockClients R uo vo now)) (req_UserId req) = Some u"
    and "0 \<le> req_Limit req"
  shows "\<exists>r s1 w1 s2 w2.
    GetTopVideos (mock_clients int63n) B sf elapsed req server1 (MakeMockClients R uo vo now) = Some (r, s1, w1) \<and>
    GetTopVideos (mock_clients int63n) B sf elapsed req server2 (MakeMockClients R uo vo now) = Some (r, s2, w2)"
  using mocks_answer [OF assms(1,2,4,6,7), of int63n B sf elapsed]
    mocks_answer [OF assms(1,3,5,6,7), of int63n B sf elapsed] by blast

theorem batch_size_irrelevant_witness:
  "\<exists>r s1 w1 s2 w2.
    GetTopVideos (mock_clients zero_rand) plain_cipher sort_cmp 5 (demo_request 200000) demo_server demo_world = Some (r, s1, w1) \<and>
    GetTopVideos (mock_clients zero_rand) plain_cipher sort_cmp 5 (demo_request 200000)
      (new_server (demo_options\<lparr>MaxBatchSize := 1\<rparr>) [()] [()]) demo_world = Some (r, s2, w2)"
proof -
  have "compatible (demo_options\<lparr>MaxBatchSize := 1\<rparr>) DefaultUserServiceOptions DefaultVideoServiceOptions"
    by (simp add: compatible_def demo_options_def DefaultUserServiceOptions_def DefaultVideoServiceOptions_def)
  moreover have "MakeVideoRecServiceServerWithMocks (demo_options\<lparr>MaxBatchSize := 1\<rparr>) () () =
      Return (new_server (demo_options\<lparr>MaxBatchSize := 1\<rparr>) [()] [()])"
    by (simp add: MakeVideoRecServiceServerWithMocks_def demo_options_def)
  moreover obtain u where "us_users (w_users demo_world) (req_UserId (demo_request 200000)) = Some u"
    using demo_user by (auto simp: demo_request_def)
  moreover have "0 \<le> req_Limit (demo_request 200000)" by (simp add: demo_request_def)
  ultimately show ?thesis
    unfolding demo_world_def using batch_size_irrelevant [OF zero_ops_ok demo_compatible _ demo_mocks] by blast
qed

text \<open>
  A batch size of zero makes every request of a subscribed user fail. The loop over the
  subscriptions then asks for an empty batch, which the user service refuses, and the request ends
  with InvalidArgument and a counted user-service error; it does not run forever.
\<close>
theorem zero_batch_size_fails:
  assumes "mock_serving S w" and "0 < sv_userLimit S"
    and pool: "pool_ok server" and zero: "MaxBatchSize (options server) = 0" and lim: "0 \<le> req_Limit req"
    and user: "sv_users S (req_UserId req) = Some u" and subs: "ui_SubscribedTo u \<noteq> []"
  shows "\<exists>msg server'. GetTopVideos (mock_clients int63n) B sf elapsed req server w =
      Some (Fails (Status InvalidArgument msg), server', w) \<and>
    userServiceErrors server' = userServiceErrors server + 1"
proof -
  let ?C = "mock_clients int63n"
  let ?s = "server\<lparr>totalRequests := totalRequests server + 1, activeRequests := activeRequests server + 1\<rparr>"
  obtain sl where fi: "us_fi (w_users w) = rates sl 0 0" using assms(1) by (auto simp: mock_serving_def)
  have ask: "cl_GetUser ?C c [req_UserId req] w = (Return [u], w)" for c
    using assms(1,2) user by (auto simp: mock_serving_def mock_clients_def mock_GetUser_def GetUser_off [OF fi])
  have empty: "\<exists>msg. cl_GetUser ?C c [] w = (Fails (Status InvalidArgument msg), w)" for c
    by (simp add: mock_clients_def mock_GetUser_def GetUser_off [OF fi])
  have "pool_ok ?s" using pool by (simp add: pool_ok_def)
  from getNextUserClient_ok [OF this] obtain c i where pick: "getNextUserClient ?s = Return (c, ?s\<lparr>userServiceIdx := i\<rparr>)"
    by blast
  obtain msg where msg: "retrying True (cl_GetUser ?C c []) w = (Fails (Status InvalidArgument msg), w)"
    using empty [of c] by (auto simp: retrying_def)
  let ?s1 = "?s\<lparr>userServiceIdx := i\<rparr>"
  have "retrying (\<not> DisableRetry (options ?s1)) (cl_GetUser ?C c [req_UserId req]) w = (Return [u], w)"
    using ask by (simp add: retrying_def)
  note body = top_videos_body_cases [OF lim pick this, of B sf]
  have "\<exists>msg. subscribed_loop ?C c (req_UserId req) (ui_SubscribedTo u) 0 [] ?s1 w =
      Some (Fails (Status InvalidArgument msg), user_failure ?s1, w)"
    using subs zero msg
    by (subst subscribed_loop.simps) (simp add: reslice_def batch_end_def user_query_failed_eq)
  then show ?thesis
    by (auto simp: GetTopVideos_of_body body after_user_def user_failure_def)
qed

definition small_world :: "unit world" where
  "small_world =
     \<lparr>w_users = \<lparr>us_options = DefaultUserServiceOptions, us_fi = rates 0 0 0,
        us_users = (\<lambda>i. Some \<lparr>ui_UserId = i, ui_Username = [], ui_Email = [], ui_ProfileUrl = [],
           ui_SubscribedTo = [8], ui_UserCoefficients = None, ui_LikedVideos = [1000]\<rparr>)\<rparr>,
      w_videos = \<lparr>vs_options = DefaultVideoServiceOptions, vs_fi = rates 0 0 0,
        vs_videos = (\<lambda>i. Some (demo_video i)), vs_topVideos = [1000, 1001]\<rparr>,
      w_rand = (), w_now = 0\<rparr>"

lemma small_serving: "mock_serving (made_services small_world) small_world"
  by (auto simp: mock_serving_def small_world_def made_services_def)

theorem zero_batch_size_fails_witness:
  "\<exists>msg s. GetTopVideos (mock_clients zero_rand) plain_cipher sort_cmp 5 (demo_request 7)
      (demo_server\<lparr>options := demo_options\<lparr>MaxBatchSize := 0\<rparr>\<rparr>) small_world =
    Some (Fails (Status InvalidArgument msg), s, small_world)"
proof -
  let ?s = "demo_server\<lparr>options := demo_options\<lparr>MaxBatchSize := 0\<rparr>\<rparr>"
  have "pool_ok ?s" by (simp add: pool_ok_def demo_server_def demo_options_def new_server_def)
  moreover have "0 < sv_userLimit (made_services small_world)"
    by (simp add: made_services_def small_world_def DefaultUserServiceOptions_def)
  moreover have "sv_users (made_services small_world) (req_UserId (demo_request 7)) =
      Some \<lparr>ui_UserId = 7, ui_Username = [], ui_Email = [], ui_ProfileUrl = [],
           ui_SubscribedTo = [8], ui_UserCoefficients = None, ui_LikedVideos = [1000]\<rparr>"
    by (simp add: made_services_def small_world_def demo_request_def)
  ultimately show ?thesis
    using zero_batch_size_fails [OF small_serving, where server = ?s and req = "demo_request 7"]
    by (fastforce simp: demo_request_def)
qed

section \<open>The cache\<close>

text \<open>
  C40: a turn of the cache refresh, against the mock video service. If the trending list fits the
  service's batch limit, the cache becomes exactly the trending videos, in order, and the next turn
  waits for the expiration time the service gave. If it does not fit, the fetch is refused and the
  cache keeps its old content for a pause of ten seconds, and every later turn ends the same way:
  the server's own \<open>MaxBatchSize\<close> is not used here, and the cache is never filled.
\<close>
theorem cache_refresh:
  assumes "vs_fi (w_videos w) = rates sl 0 0" and "pool_ok server"
    and "vs_topVideos (w_videos w) \<noteq> []" and "distinct (vs_topVideos (w_videos w))"
    and "set (vs_topVideos (w_videos w)) \<subseteq> dom (vs_videos (w_videos w))"
    and "\<not> DisableFallback (options server)"
  shows "if int (length (vs_topVideos (w_videos w))) \<le> vo_MaxBatchSize (vs_options (w_videos w))
    then \<exists>server'. refresh_turn (mock_clients int63n) server w =
        (PauseUntil (sint (word_of_int (w_now w + vo_TtlSeconds (vs_options (w_videos w))) :: u64)), server', w) \<and>
      topVideos server' = map (the \<circ> vs_videos (w_videos w)) (vs_topVideos (w_videos w))
    else \<exists>server'. ContinuallyRefreshCache (mock_clients int63n) n server w =
        (replicate n (PauseFor 10), server', w) \<and> topVideos server' = topVideos server"
proof -
  let ?C = "mock_clients int63n" and ?top = "vs_topVideos (w_videos w)"
  let ?exp = "word_of_int (w_now w + vo_TtlSeconds (vs_options (w_videos w))) :: u64"
  have trending: "cl_GetTrendingVideos ?C c w = (Return \<lparr>tv_Videos = ?top, tv_ExpirationTimeS = ?exp\<rparr>, w)" for c
    by (simp add: mock_clients_def mock_GetTrendingVideos_def GetTrendingVideos_def assms(1))
  show ?thesis
  proof (cases "int (length ?top) \<le> vo_MaxBatchSize (vs_options (w_videos w))")
    case True
    then have "cl_GetVideo ?C c ?top w = (Return (map (the \<circ> vs_videos (w_videos w)) ?top), w)" for c
      using assms(3-5)
      by (simp add: mock_clients_def mock_GetVideo_def GetVideo_off [OF assms(1)] collect_videos_ok)
    then show ?thesis
      using getNextVideoClient_ok [OF assms(2)] True trending by (auto simp: refresh_turn_def)
  next
    case False
    then have refuse: "\<exists>msg. cl_GetVideo ?C c ?top w = (Fails (Status InvalidArgument msg), w)" for c
      using assms(3) by (simp add: mock_clients_def mock_GetVideo_def GetVideo_def assms(1))
    have turn: "\<exists>i. refresh_turn ?C s w = (PauseFor 10, s\<lparr>videoServiceIdx := i\<rparr>, w) \<and>
        pool_ok (s\<lparr>videoServiceIdx := i\<rparr>)" if ps: "pool_ok s" for s
    proof -
      obtain c i where pick: "getNextVideoClient s = Return (c, s\<lparr>videoServiceIdx := i\<rparr>)"
        and ok: "pool_ok (s\<lparr>videoServiceIdx := i\<rparr>)"
        using getNextVideoClient_ok [OF ps] by blast
      obtain msg where "cl_GetVideo ?C c ?top w = (Fails (Status InvalidArgument msg), w)" using refuse by blast
      then show ?thesis using pick ok trending by (auto simp: refresh_turn_def)
    qed
    have "\<exists>server'. ContinuallyRefreshCache ?C n s w = (replicate n (PauseFor 10), server', w) \<and>
        topVideos server' = topVideos s" if "pool_ok s" "\<not> DisableFallback (options s)" for s
      using that
    proof (induction n arbitrary: s)
      case (Suc n)
      obtain i where i: "refresh_turn ?C s w = (PauseFor 10, s\<lparr>videoServiceIdx := i\<rparr>, w)"
        "pool_ok (s\<lparr>videoServiceIdx := i\<rparr>)"
        using turn [OF Suc.prems(1)] by blast
      with Suc.IH [OF i(2)] Suc.prems(2) show ?case by auto
    qed simp
    then show ?thesis using False assms(2,6) by simp
  qed
qed

theorem cache_refresh_witness:
  "\<exists>s. refresh_turn (mock_clients zero_rand) demo_server small_world = (PauseUntil 60, s, small_world) \<and>
     topVideos s = [demo_video 1000, demo_video 1001]"
proof -
  have "pool_ok demo_server" unfolding demo_server_def by (rule pool_ok_new_server) (simp_all add: demo_options_def)
  moreover have "vs_fi (w_videos small_world) = rates 0 0 0" by (simp add: small_world_def)
  ultimately show ?thesis
    using cache_refresh [of small_world 0 demo_server zero_rand 0]
    by (simp add: small_world_def demo_server_def new_server_def demo_options_def DefaultVideoServiceOptions_def dom_def)
qed

end
