(* ===== verification/ClientTools.thy ===== *)
theory ClientTools
  imports VideoRecClients Ranker
begin

text \<open>
  lab1/cmd/frontend and lab1/cmd/stats: the programs that call the recommendation service. The
  frontend asks for one user picked from a net id and runs two fixed tests; stats prints the counters.
  A gRPC client is a function from a request and the world to an outcome and the world, as elsewhere;
  \<open>dial\<close> is \<open>grpc.NewClient\<close>. Deadlines belong to the calls. What the frontend needs of the services is
  the locale \<open>frontend_backend\<close>; the three services of lab1 in one process provide it.
\<close>

section \<open>The frontend\<close>

definition getUserId :: "bytes \<Rightarrow> u64" where
  "getUserId netId = fnv64 netId mod 5000 + 200000"

text \<open>All connections are made with insecure credentials.\<close>

datatype dial_option = InsecureCredentials

type_synonym 'conn dialer = "string \<Rightarrow> dial_option list \<Rightarrow> (string, 'conn) go_result"

definition serviceConn :: "'conn dialer \<Rightarrow> string \<Rightarrow> (string, 'conn) go_result" where
  "serviceConn dial address = dial address ([] @ [InsecureCredentials])"

definition fetchUser :: "'conn dialer \<Rightarrow> string \<Rightarrow> ('conn \<Rightarrow> u64 list \<Rightarrow> 'w \<Rightarrow> UserInfo list outcome \<times> 'w) \<Rightarrow>
    u64 \<Rightarrow> 'w \<Rightarrow> UserInfo outcome \<times> 'w" where
  "fetchUser dial userServiceAddr call userId w =
     (case serviceConn dial userServiceAddr of
        Return c \<Rightarrow>
          (case call c [userId] w of
             (Return users, w) \<Rightarrow> if length users \<noteq> 1 then (Panics LogFatal, w) else (Return (users ! 0), w)
           | (Fails e, w) \<Rightarrow> (Panics LogFatal, w)
           | (Panics p, w) \<Rightarrow> (Panics p, w)
           | (Blocks, w) \<Rightarrow> (Blocks, w))
      | Fails e \<Rightarrow> (Panics LogFatal, w)
      | Panics p \<Rightarrow> (Panics p, w)
      | Blocks \<Rightarrow> (Blocks, w))"

type_synonym 'w top_client = "GetTopVideosRequest \<Rightarrow> 'w \<Rightarrow> GetTopVideosResponse outcome \<times> 'w"

definition sendSingleTestRequest :: "u64 \<Rightarrow> 'w top_client \<Rightarrow> 'w \<Rightarrow> VideoInfo list outcome \<times> 'w" where
  "sendSingleTestRequest userId client w =
     (case client \<lparr>req_UserId = userId, req_Limit = 5\<rparr> w of
        (Return out, w) \<Rightarrow> (Return (resp_Videos out), w)
      | (Fails e, w) \<Rightarrow> (Panics LogFatal, w)
      | (Panics p, w) \<Rightarrow> (Panics p, w)
      | (Blocks, w) \<Rightarrow> (Blocks, w))"

text \<open>The two fixed tests; the length is looked at first, so no index is out of range.\<close>

definition test_case_1 :: "VideoInfo list \<Rightarrow> bool" where
  "test_case_1 videos \<longleftrightarrow>
     \<not> (length videos \<noteq> 5 \<or> vi_VideoId (videos ! 0) \<noteq> 1012 \<or> vi_Author (videos ! 1) \<noteq> ''Harry Boehm'' \<or>
        vi_VideoId (videos ! 2) \<noteq> 1209 \<or> vi_Url (videos ! 3) \<noteq> ''https://video-data.localhost/blob/1309'' \<or>
        vi_Title (videos ! 4) \<noteq> ''precious here'')"

definition test_case_2 :: "VideoInfo list \<Rightarrow> bool" where
  "test_case_2 videos \<longleftrightarrow>
     \<not> (length videos \<noteq> 5 \<or> vi_VideoId (videos ! 0) \<noteq> 1196 \<or> vi_Author (videos ! 1) \<noteq> ''Rocky Okuneva'' \<or>
        vi_VideoId (videos ! 2) \<noteq> 1071 \<or> vi_Url (videos ! 3) \<noteq> ''https://video-data.localhost/blob/1041'' \<or>
        vi_Title (videos ! 4) \<noteq> ''witty downstairs'')"

definition and_then :: "'a outcome \<times> 'w \<Rightarrow> ('a \<Rightarrow> 'w \<Rightarrow> 'b outcome \<times> 'w) \<Rightarrow> 'b outcome \<times> 'w" where
  "and_then r f =
     (case r of
        (Return x, w) \<Rightarrow> f x w
      | (Fails e, w) \<Rightarrow> (Fails e, w)
      | (Panics p, w) \<Rightarrow> (Panics p, w)
      | (Blocks, w) \<Rightarrow> (Blocks, w))"

record frontend_flags =
  ff_videoRecServiceAddr :: string
  ff_userServiceAddr :: string
  ff_netId :: bytes

definition frontend_main :: "'conn dialer \<Rightarrow> ('conn \<Rightarrow> u64 list \<Rightarrow> 'w \<Rightarrow> UserInfo list outcome \<times> 'w) \<Rightarrow>
    ('conn \<Rightarrow> 'w top_client) \<Rightarrow> frontend_flags \<Rightarrow> 'w \<Rightarrow> unit outcome \<times> 'w" where
  "frontend_main dial call newClient flags w =
     (case serviceConn dial (ff_videoRecServiceAddr flags) of
        Return vc \<Rightarrow>
          let client = newClient vc; userId = getUserId (ff_netId flags) in
          and_then (fetchUser dial (ff_userServiceAddr flags) call userId w) (\<lambda>_ w.
          and_then (sendSingleTestRequest userId client w) (\<lambda>_ w.
          and_then (sendSingleTestRequest 204054 client w) (\<lambda>videos w.
            if \<not> test_case_1 videos then (Panics LogFatal, w)
            else
              and_then (sendSingleTestRequest 203584 client w) (\<lambda>videos w.
                if \<not> test_case_2 videos then (Panics LogFatal, w) else (Return (), w)))))
      | Fails e \<Rightarrow> (Panics LogFatal, w)
      | Panics p \<Rightarrow> (Panics p, w)
      | Blocks \<Rightarrow> (Blocks, w))"

section \<open>Statistics\<close>

text \<open>
  The columns that \<open>printStats\<close> prints after the time; nothing is printed if the call fails. The main
  program calls once and then once a second, each time in a goroutine of its own.
\<close>

definition printStats :: "'f GetStatsResponse \<Rightarrow> u64 \<times> u64 \<times> u64 \<times> u64 \<times> u64 \<times> 'f \<times> 'f option \<times> u64" where
  "printStats r =
     (gs_TotalRequests r, gs_TotalErrors r, gs_ActiveRequests r, gs_UserServiceErrors r,
      gs_VideoServiceErrors r, gs_AverageLatencyMs r, gs_P99LatencyMs r, gs_StaleResponses r)"

definition gatherStats :: "('w \<Rightarrow> 'f GetStatsResponse outcome \<times> 'w) \<Rightarrow> 'w \<Rightarrow>
    (u64 \<times> u64 \<times> u64 \<times> u64 \<times> u64 \<times> 'f \<times> 'f option \<times> u64) option outcome \<times> 'w" where
  "gatherStats call w =
     (case call w of
        (Return r, w) \<Rightarrow> (Return (Some (printStats r)), w)
      | (Fails e, w) \<Rightarrow> (Return None, w)
      | (Panics p, w) \<Rightarrow> (Panics p, w)
      | (Blocks, w) \<Rightarrow> (Blocks, w))"

section \<open>The frontend under a contract\<close>

lemma and_then_Return [simp]: "and_then (Return x, w) f = f x w"
  by (simp add: and_then_def)

lemma and_then_Panics [simp]: "and_then (Panics p, w) f = (Panics p, w)"
  by (simp add: and_then_def)

locale frontend_backend =
  fixes call :: "'conn \<Rightarrow> u64 list \<Rightarrow> 'w \<Rightarrow> UserInfo list outcome \<times> 'w"
    and top :: "'w top_client"
    and up :: "'w \<Rightarrow> bool"
    and users :: "u64 \<rightharpoonup> UserInfo"
    and answer :: "u64 \<Rightarrow> int \<Rightarrow> VideoInfo list"
  assumes answers_fetch: "up w \<Longrightarrow> users userId = Some u \<Longrightarrow> \<exists>w'. call c [userId] w = (Return [u], w') \<and> up w'"
    and answers_top: "up w \<Longrightarrow> users (req_UserId req) = Some u \<Longrightarrow> 0 \<le> req_Limit req \<Longrightarrow>
      \<exists>w'. top req w = (Return \<lparr>resp_Videos = answer (req_UserId req) (req_Limit req), resp_StaleResponse = False\<rparr>, w') \<and>
        up w'"

context frontend_backend
begin

lemma fetchUser_up:
  assumes "up w" and "users userId = Some u" and "serviceConn dial addr = Return c"
  shows "\<exists>w'. fetchUser dial addr call userId w = (Return u, w') \<and> up w'"
  using answers_fetch [OF assms(1,2), of c] assms(3) by (auto simp: fetchUser_def)

lemma sendSingleTestRequest_up:
  assumes "up w" and "users userId = Some u"
  shows "\<exists>w'. sendSingleTestRequest userId top w = (Return (answer userId 5), w') \<and> up w'"
  using answers_top [of w "\<lparr>req_UserId = userId, req_Limit = 5\<rparr>" u] assms
  by (auto simp: sendSingleTestRequest_def)

lemma frontend_main_up:
  assumes up: "up w" and dials: "\<And>addr. returns (serviceConn dial addr)"
    and known: "getUserId (ff_netId flags) \<in> dom users" "204054 \<in> dom users" "203584 \<in> dom users"
  shows "\<exists>w'. frontend_main dial call (\<lambda>_. top) flags w =
    (if test_case_1 (answer 204054 5) \<and> test_case_2 (answer 203584 5) then Return () else Panics LogFatal, w') \<and> up w'"
proof -
  let ?id = "getUserId (ff_netId flags)"
  obtain c d where cd: "serviceConn dial (ff_videoRecServiceAddr flags) = Return c"
    "serviceConn dial (ff_userServiceAddr flags) = Return d"
    using dials by (meson returnsE)
  obtain u u1 u2 where u: "users ?id = Some u" "users 204054 = Some u1" "users 203584 = Some u2"
    using known by blast
  obtain w1 where w1: "fetchUser dial (ff_userServiceAddr flags) call ?id w = (Return u, w1)" "up w1"
    using fetchUser_up [OF up u(1) cd(2)] by blast
  obtain w2 where w2: "sendSingleTestRequest ?id top w1 = (Return (answer ?id 5), w2)" "up w2"
    using sendSingleTestRequest_up [OF w1(2) u(1)] by blast
  obtain w3 where w3: "sendSingleTestRequest 204054 top w2 = (Return (answer 204054 5), w3)" "up w3"
    using sendSingleTestRequest_up [OF w2(2) u(2)] by blast
  obtain w4 where w4: "sendSingleTestRequest 203584 top w3 = (Return (answer 203584 5), w4)" "up w4"
    using sendSingleTestRequest_up [OF w3(2) u(3)] by blast
  show ?thesis
    by (simp add: frontend_main_def cd w1 w2 w3 w4 Let_def)
qed

end

section \<open>The three services in one process\<close>

type_synonym 'g deployment = "(unit, unit) VideoRecServiceServer \<times> 'g world"

definition local_GetUser :: "('g \<Rightarrow> int \<Rightarrow> int \<times> 'g) \<Rightarrow> u64 list \<Rightarrow> 'g deployment \<Rightarrow>
    UserInfo list outcome \<times> 'g deployment" where
  "local_GetUser int63n ids = (\<lambda>(server, w). case mock_GetUser int63n ids w of (r, w) \<Rightarrow> (r, server, w))"

text \<open>A call of the handler that never ends never answers.\<close>

definition served_GetTopVideos :: "(unit, unit, 'w) clients \<Rightarrow> 'c blowfish \<Rightarrow>
    ((VideoInfo \<Rightarrow> VideoInfo \<Rightarrow> int) \<Rightarrow> VideoInfo list \<Rightarrow> VideoInfo list) \<Rightarrow> u64 \<Rightarrow>
    ((unit, unit) VideoRecServiceServer \<times> 'w) top_client" where
  "served_GetTopVideos C B sf elapsed req =
     (\<lambda>(server, w).
        case GetTopVideos C B sf elapsed req server w of
          Some (r, server, w) \<Rightarrow> (r, server, w)
        | None \<Rightarrow> (Blocks, server, w))"

definition recommended :: "'c blowfish \<Rightarrow> ((VideoInfo \<Rightarrow> VideoInfo \<Rightarrow> int) \<Rightarrow> VideoInfo list \<Rightarrow> VideoInfo list) \<Rightarrow>
    services \<Rightarrow> u64 \<Rightarrow> int \<Rightarrow> VideoInfo list" where
  "recommended B sf S userId limit =
     (case ideal_response B sf S userId limit of Return resp \<Rightarrow> resp_Videos resp | _ \<Rightarrow> [])"

definition deployed :: "'c blowfish \<Rightarrow> ((VideoInfo \<Rightarrow> VideoInfo \<Rightarrow> int) \<Rightarrow> VideoInfo list \<Rightarrow> VideoInfo list) \<Rightarrow>
    services \<Rightarrow> 'g deployment \<Rightarrow> bool" where
  "deployed B sf S = (\<lambda>(server, w).
     blowfish_ok B \<and> sort_ok sf \<and> pool_ok server \<and> 0 < MaxBatchSize (options server) \<and>
     MaxBatchSize (options server) \<le> sv_userLimit S \<and> MaxBatchSize (options server) \<le> sv_videoLimit S \<and>
     mock_serving S w \<and> (\<forall>userId\<in>dom (sv_users S). resolvable S userId))"

lemma recommended_value:
  assumes "blowfish_ok B" and "sort_ok sf" and "0 \<le> limit"
  shows "ideal_response B sf S userId limit =
    Return \<lparr>resp_Videos = recommended B sf S userId limit, resp_StaleResponse = False\<rparr>"
  using ideal_response_value [OF assms, of S userId] by (auto simp: recommended_def)

interpretation local_backend: frontend_backend "\<lambda>_ :: unit. local_GetUser int63n"
  "served_GetTopVideos (mock_clients int63n) B sf elapsed" "deployed B sf S" "sv_users S" "recommended B sf S"
  for int63n B sf elapsed S
proof (unfold_locales, goal_cases)
  case (1 w userId u c)
  obtain server world where w: "w = (server, world)" by (rule prod.exhaust)
  have d: "mock_serving S world" "int (length [userId]) \<le> sv_userLimit S"
    using 1(1) by (auto simp: deployed_def w)
  have "set [userId] \<subseteq> dom (sv_users S)" using 1(2) by auto
  then obtain world' where "cl_GetUser (mock_clients int63n) () [userId] world =
      (Return (map (the \<circ> sv_users S) [userId]), world')" "mock_serving S world'"
    using mocks.answers_users [OF d(1), of "[userId]" int63n "()"] d(2) by auto
  then show ?case using 1 by (auto simp: w deployed_def local_GetUser_def mock_clients_def)
next
  case (2 w req u)
  obtain server world where w: "w = (server, world)" by (rule prod.exhaust)
  have d: "pool_ok server" "0 < MaxBatchSize (options server)" "MaxBatchSize (options server) \<le> sv_userLimit S"
    "MaxBatchSize (options server) \<le> sv_videoLimit S" "mock_serving S world" "resolvable S (req_UserId req)"
    and Bsf: "blowfish_ok B" "sort_ok sf"
    using 2(1,2) by (auto simp: deployed_def w)
  obtain server' world' where "GetTopVideos (mock_clients int63n) B sf elapsed req server world =
      Some (ideal_response B sf S (req_UserId req) (req_Limit req), server', world')"
    "pool_ok server'" "options server' = options server" "mock_serving S world'"
    using mocks.GetTopVideos_serving [OF d 2(3)] by blast
  then show ?case
    using 2(1) recommended_value [OF Bsf 2(3)] by (auto simp: w deployed_def served_GetTopVideos_def)
qed

lemma made_deployed:
  assumes "rand_ok R" and "blowfish_ok B" and "sort_ok sf" and "compatible opts uo vo"
    and "MakeVideoRecServiceServerWithMocks opts () () = Return server"
  shows "deployed B sf (made_services (MakeMockClients R uo vo now)) (server, MakeMockClients R uo vo now)"
proof -
  note c = assms(4) [unfolded compatible_def]
  have "resolvable (made_services (MakeMockClients R uo vo now)) k"
    if "k \<in> dom (sv_users (made_services (MakeMockClients R uo vo now)))" for k
    using made_resolvable [OF assms(1)] c that by (auto simp: made_services_def)
  moreover have "pool_ok server" "options server = opts"
    using mocks_server_ok [OF assms(5)] c by auto
  moreover note made_serving [OF assms(1), of uo vo now]
  ultimately show ?thesis using assms(2,3) c by (auto simp: deployed_def)
qed

text \<open>Every database has the first 5000 users.\<close>

lemma first_users_exist:
  assumes "rand_ok R" and "MakeUserServiceServer R uo = (db, st)" and "unat x < 5000"
  shows "(x :: u64) + 200000 \<in> dom (us_users db)"
proof -
  obtain n where n: "5000 \<le> n" "dom (us_users db) = id_range USER_ID_OFFSET n"
    using made_users [OF assms(1,2)] by blast
  have "word_of_int (int (unat x) + USER_ID_OFFSET) \<in> id_range USER_ID_OFFSET n"
    by (rule id_rangeI) (use n(1) assms(3) in linarith)+
  moreover have "word_of_int (int (unat x) + USER_ID_OFFSET) = x + 200000"
    by (simp add: USER_ID_OFFSET_def of_nat_unat)
  ultimately show ?thesis using n(2) by simp
qed

lemma made_first_users:
  assumes "rand_ok R" and "unat x < 5000"
  shows "(x :: u64) + 200000 \<in> dom (sv_users (made_services (MakeMockClients R uo vo now)))"
proof -
  obtain db st where u: "MakeUserServiceServer R uo = (db, st)" by (rule prod.exhaust)
  show ?thesis using first_users_exist [OF assms(1) u assms(2)]
    by (auto simp: made_services_def MakeMockClients_def u split: prod.splits)
qed

lemma getUserId_below: "\<exists>x. getUserId netId = x + 200000 \<and> unat x < 5000"
  unfolding getUserId_def by (intro exI [of _ "fnv64 netId mod 5000"] conjI)
    (simp_all add: unat_mod_distrib)

text \<open>
  C36: the frontend against the three services. With compatible options, whatever net id is given, the
  user picked for it exists, all four calls succeed, and the program ends normally exactly if the first
  five recommendations for users 204054 and 203584 are the ones its two tests expect; otherwise it ends
  the process with a fatal log message.
\<close>
theorem frontend_reports_its_tests:
  fixes dial :: "unit dialer"
  assumes "rand_ok R" and "blowfish_ok B" and "sort_ok sf" and "compatible opts uo vo"
    and "MakeVideoRecServiceServerWithMocks opts () () = Return server"
    and "\<And>addr. returns (serviceConn dial addr)"
  shows "fst (frontend_main dial (\<lambda>_. local_GetUser int63n) (\<lambda>_. served_GetTopVideos (mock_clients int63n) B sf elapsed) flags
      (server, MakeMockClients R uo vo now)) =
    (let answer = recommended B sf (made_services (MakeMockClients R uo vo now)) in
     if test_case_1 (answer 204054 5) \<and> test_case_2 (answer 203584 5) then Return () else Panics LogFatal)"
proof -
  let ?users = "dom (sv_users (made_services (MakeMockClients R uo vo now)))"
  obtain x where "getUserId (ff_netId flags) = x + 200000" "unat x < 5000" using getUserId_below by blast
  then have "getUserId (ff_netId flags) \<in> ?users" using made_first_users [OF assms(1)] by simp
  moreover have "(4054 :: u64) + 200000 \<in> ?users" "(3584 :: u64) + 200000 \<in> ?users"
    by (rule made_first_users [OF assms(1)], simp)+
  then have "(204054 :: u64) \<in> ?users" "(203584 :: u64) \<in> ?users" by simp_all
  ultimately show ?thesis
    using local_backend.frontend_main_up [OF made_deployed [OF assms(1-5)] assms(6)]
    by (metis fst_conv)
qed

definition default_frontend_flags :: frontend_flags where
  "default_frontend_flags = \<lparr>ff_videoRecServiceAddr = ''[::]:8080'', ff_userServiceAddr = ''[::]:8081'',
     ff_netId = [120, 115, 54, 54]\<rparr>"

theorem frontend_reports_its_tests_witness:
  "fst (frontend_main (\<lambda>_ _. Return ()) (\<lambda>_. local_GetUser zero_rand)
      (\<lambda>_. served_GetTopVideos (mock_clients zero_rand) plain_cipher sort_cmp 5) default_frontend_flags (demo_server, demo_world)) =
    (let answer = recommended plain_cipher sort_cmp (made_services demo_world) in
     if test_case_1 (answer 204054 5) \<and> test_case_2 (answer 203584 5) then Return () else Panics LogFatal)"
  using frontend_reports_its_tests [OF zero_ops_ok plain_cipher_ok sort_cmp_ok demo_compatible demo_mocks,
      of "\<lambda>_ _. Return ()" zero_rand 5 default_frontend_flags 0]
  by (simp add: serviceConn_def demo_world_def)

end
