(* ===== verification/LoadGen.thy ===== *)
theory LoadGen
  imports ClientTools
begin

text \<open>
  lab1/cmd/loadgen: the load generator. Every connection goroutine cycles through the users that each
  database has and starts one goroutine per request; five shared counters are updated by atomic
  additions and printed once a second by \<open>reportStats\<close>. Every atomic operation is a step of
  \<open>load_move\<close>; the answers, the random limits and the times are arbitrary.
\<close>

section \<open>State\<close>

record load_counters =
  totalSent :: u64
  totalResponses :: u64
  totalSuccesses :: u64
  totalLatencyMs :: u64
  totalStale :: u64

text \<open>
  A request goroutine: spawned with the user id it will ask for, inside the call (user id and limit),
  then counting. On every path the response is counted before the success.
\<close>

datatype send_pc =
    Unborn
  | Spawned u64
  | InCall u64 int
  | CountStale
  | CountResponse bool
  | CountLatency bool
  | CountSuccess bool
  | Answered bool

record report_line =
  ln_total_sent :: u64
  ln_total_responses :: u64
  ln_total_errors :: u64
  ln_latencyMs :: u64
  ln_stale_responses :: u64

text \<open>The reporter between its five loads, with what it has computed so far.\<close>

datatype report_pc =
    Ticking
  | LoadSuccesses u64
  | LoadLatency u64 u64
  | LoadStale u64 u64 u64
  | LoadSent u64 u64 u64 u64

record load_sys =
  counters :: load_counters
  conns :: "nat \<Rightarrow> u64 option"
  sends :: "nat \<Rightarrow> send_pc"
  report :: report_pc
  printed :: "report_line list"
  exited :: bool

section \<open>Operations\<close>

definition getNextUserId :: "u64 \<Rightarrow> u64" where
  "getNextUserId userId = (userId + 1) mod 5000 + 200000"

text \<open>The burst that \<open>main\<close> allows and the number of connections it opens.\<close>

definition load_plan :: "int \<Rightarrow> int \<times> int" where
  "load_plan targetQps =
     (let maxBurst = 100; maxBurst = (if maxBurst > targetQps then targetQps else maxBurst);
          numConns = 1000; numConns = (if targetQps < numConns then targetQps else numConns)
      in (maxBurst, numConns))"

record load_flags =
  lf_videoRecServiceAddr :: string
  lf_targetQps :: int

definition default_load_flags :: load_flags where
  "default_load_flags = \<lparr>lf_videoRecServiceAddr = ''[::]:8080'', lf_targetQps = 20\<rparr>"

lemma default_load_plan: "load_plan (lf_targetQps default_load_flags) = (20, 20)"
  by (simp add: load_plan_def default_load_flags_def)

text \<open>
  The body of the goroutine of connection \<open>c\<close>: dial, or end the process; then, whenever the limiter lets
  it, start a request and go on to the next user.
\<close>

inductive conn_move :: "int \<Rightarrow> nat \<Rightarrow> load_sys \<Rightarrow> load_sys \<Rightarrow> bool" where
  dialled: "int c < snd (load_plan targetQps) \<Longrightarrow> conns s c = None \<Longrightarrow>
    conn_move targetQps c s (s\<lparr>conns := (conns s)(c \<mapsto> 200000)\<rparr>)"
| dial_failed: "int c < snd (load_plan targetQps) \<Longrightarrow> conns s c = None \<Longrightarrow>
    conn_move targetQps c s (s\<lparr>exited := True\<rparr>)"
| launched: "conns s c = Some userId \<Longrightarrow> sends s g = Unborn \<Longrightarrow>
    conn_move targetQps c s (s\<lparr>sends := (sends s)(g := Spawned userId), conns := (conns s)(c \<mapsto> getNextUserId userId)\<rparr>)"

text \<open>\<open>sendRequest\<close> in goroutine \<open>g\<close>: its next control point and the counters.\<close>

inductive sendRequest :: "send_pc \<times> load_counters \<Rightarrow> send_pc \<times> load_counters \<Rightarrow> bool" where
  send: "1 \<le> responseLimit \<Longrightarrow> responseLimit \<le> 10 \<Longrightarrow>
    sendRequest (Spawned userId, n) (InCall userId responseLimit, n\<lparr>totalSent := totalSent n + 1\<rparr>)"
| call_fails: "sendRequest (InCall userId limit, n) (CountResponse False, n)"
| call_answers: "sendRequest (InCall userId limit, n) (if stale then CountStale else CountResponse True, n)"
| count_stale: "sendRequest (CountStale, n) (CountResponse True, n\<lparr>totalStale := totalStale n + 1\<rparr>)"
| count_response: "sendRequest (CountResponse success, n)
    (CountLatency success, n\<lparr>totalResponses := totalResponses n + 1\<rparr>)"
| count_latency: "sendRequest (CountLatency success, n)
    (CountSuccess success, n\<lparr>totalLatencyMs := totalLatencyMs n + elapsed\<rparr>)"
| count_success: "sendRequest (CountSuccess success, n)
    (Answered success, if success then n\<lparr>totalSuccesses := totalSuccesses n + 1\<rparr> else n)"

text \<open>\<open>reportStats\<close>: one load per step; the line is printed with the last one.\<close>

fun reportStats :: "report_pc \<Rightarrow> load_counters \<Rightarrow> report_pc \<times> report_line list" where
  "reportStats Ticking n = (LoadSuccesses (totalResponses n), [])"
| "reportStats (LoadSuccesses numReqs) n = (LoadLatency numReqs (numReqs - totalSuccesses n), [])"
| "reportStats (LoadLatency numReqs numErrors) n = (LoadStale numReqs numErrors (totalLatencyMs n), [])"
| "reportStats (LoadStale numReqs numErrors latencyMs) n = (LoadSent numReqs numErrors latencyMs (totalStale n), [])"
| "reportStats (LoadSent numReqs numErrors latencyMs stale) n =
     (Ticking, [\<lparr>ln_total_sent = totalSent n, ln_total_responses = numReqs, ln_total_errors = numErrors,
                 ln_latencyMs = latencyMs, ln_stale_responses = stale\<rparr>])"

inductive load_step :: "int \<Rightarrow> load_sys \<Rightarrow> load_sys \<Rightarrow> bool" where
  conn: "\<not> exited s \<Longrightarrow> conn_move targetQps c s t \<Longrightarrow> load_step targetQps s t"
| request: "\<not> exited s \<Longrightarrow> sendRequest (sends s g, counters s) (pc, n) \<Longrightarrow>
    load_step targetQps s (s\<lparr>sends := (sends s)(g := pc), counters := n\<rparr>)"
| reporter: "\<not> exited s \<Longrightarrow> reportStats (report s) (counters s) = (pc, lines) \<Longrightarrow>
    load_step targetQps s (s\<lparr>report := pc, printed := printed s @ lines\<rparr>)"

definition load_init :: load_sys where
  "load_init = \<lparr>counters = \<lparr>totalSent = 0, totalResponses = 0, totalSuccesses = 0, totalLatencyMs = 0, totalStale = 0\<rparr>,
     conns = (\<lambda>_. None), sends = (\<lambda>_. Unborn), report = Ticking, printed = [], exited = False\<rparr>"

inductive load_reach :: "int \<Rightarrow> load_sys \<Rightarrow> bool" where
  init: "load_reach targetQps load_init"
| step: "load_reach targetQps s \<Longrightarrow> load_step targetQps s t \<Longrightarrow> load_reach targetQps t"

inductive_cases sendRequestE: "sendRequest (pc, n) (pc', n')"

section \<open>What the counters count\<close>

definition has_sent :: "send_pc \<Rightarrow> bool" where
  "has_sent pc = (case pc of Unborn \<Rightarrow> False | Spawned _ \<Rightarrow> False | _ \<Rightarrow> True)"

definition has_responded :: "send_pc \<Rightarrow> bool" where
  "has_responded pc = (case pc of CountLatency _ \<Rightarrow> True | CountSuccess _ \<Rightarrow> True | Answered _ \<Rightarrow> True | _ \<Rightarrow> False)"

definition calls :: "(send_pc \<Rightarrow> bool) \<Rightarrow> load_sys \<Rightarrow> nat set" where
  "calls P s = {g. P (sends s g)}"

definition known_id :: "u64 \<Rightarrow> bool" where
  "known_id k \<longleftrightarrow> (\<exists>x. k = x + 200000 \<and> unat x < 5000)"

definition request_ok :: "send_pc \<Rightarrow> bool" where
  "request_ok pc =
     (case pc of Spawned k \<Rightarrow> known_id k | InCall k limit \<Rightarrow> known_id k \<and> 1 \<le> limit \<and> limit \<le> 10 | _ \<Rightarrow> True)"

lemmas pc_simps = has_sent_def has_responded_def request_ok_def

definition load_inv :: "load_sys \<Rightarrow> bool" where
  "load_inv s \<longleftrightarrow>
     finite (calls has_sent s) \<and>
     totalSent (counters s) = of_nat (card (calls has_sent s)) \<and>
     totalResponses (counters s) = of_nat (card (calls has_responded s)) \<and>
     totalSuccesses (counters s) = of_nat (card (calls ((=) (Answered True)) s)) \<and>
     (\<forall>c k. conns s c = Some k \<longrightarrow> known_id k) \<and> (\<forall>g. request_ok (sends s g))"

lemma known_id_first: "known_id 200000"
  unfolding known_id_def by (intro exI [of _ 0]) simp

lemma known_id_next: "known_id (getNextUserId k)"
  unfolding known_id_def getNextUserId_def
  by (intro exI [of _ "(k + 1) mod 5000"] conjI) (simp_all add: unat_mod_distrib)

lemma calls_subset: "(\<And>pc. P pc \<Longrightarrow> Q pc) \<Longrightarrow> calls P s \<subseteq> calls Q s"
  by (auto simp: calls_def)

lemma succeeded_subset: "calls ((=) (Answered True)) s \<subseteq> calls has_responded s"
  by (rule calls_subset) (auto simp: pc_simps)

lemma responded_subset: "calls has_responded s \<subseteq> calls has_sent s"
  by (rule calls_subset) (auto simp: pc_simps split: send_pc.splits)

text \<open>A set of calls that a step of goroutine \<open>g\<close> can only enter grows by at most \<open>g\<close>.\<close>

lemma calls_update:
  assumes "finite (calls P s)" and "P (sends s g) \<Longrightarrow> P pc"
    and t: "sends t = (sends s)(g := pc)"
  shows "finite (calls P t)"
    and "(of_nat (card (calls P t)) :: u64) = of_nat (card (calls P s)) + of_bool (\<not> P (sends s g) \<and> P pc)"
  using assms(1,2) finite_where_update [of P "sends s" g pc] card_where_update [of P "sends s" g pc, where 'r = u64]
  by (auto simp: calls_def t)

text \<open>Each step of a request enters the sets it should, and counts when it enters.\<close>

lemma sendRequest_counts:
  assumes "sendRequest (pc, n) (pc', n')"
  shows "has_sent pc \<Longrightarrow> has_sent pc'" and "has_responded pc \<Longrightarrow> has_responded pc'"
    and "Answered True = pc \<Longrightarrow> Answered True = pc'"
    and "totalSent n' = totalSent n + of_bool (\<not> has_sent pc \<and> has_sent pc')"
    and "totalResponses n' = totalResponses n + of_bool (\<not> has_responded pc \<and> has_responded pc')"
    and "totalSuccesses n' = totalSuccesses n + of_bool (Answered True \<noteq> pc \<and> Answered True = pc')"
    and "request_ok pc \<Longrightarrow> request_ok pc'"
  by (rule sendRequestE [OF assms]; auto simp: pc_simps split: if_splits)+

lemma load_inv_request:
  assumes "load_inv s" and step: "sendRequest (sends s g, counters s) (pc, n)"
  shows "load_inv (s\<lparr>sends := (sends s)(g := pc), counters := n\<rparr>)" (is "load_inv ?t")
proof -
  have fin: "finite (calls has_sent s)" using assms(1) by (simp add: load_inv_def)
  note c = sendRequest_counts [OF step]
  note fins = fin finite_subset [OF responded_subset fin]
    finite_subset [OF succeeded_subset finite_subset [OF responded_subset fin]]
  have t: "sends ?t = (sends s)(g := pc)" by simp
  note sent = calls_update [OF fins(1) c(1) t] and resp = calls_update [OF fins(2) c(2) t]
    and succ = calls_update [OF fins(3) c(3) t]
  show ?thesis
    using assms(1) c(4-7) sent resp(2) succ(2) by (auto simp: load_inv_def)
qed

lemma load_inv_conn:
  assumes "load_inv s" and "conn_move q c s t"
  shows "load_inv t"
  using assms(2)
proof cases
  case (launched userId g)
  have fin: "finite (calls has_sent s)" using assms(1) by (simp add: load_inv_def)
  have same: "calls P t = calls P s" if "\<not> P Unborn" "\<not> P (Spawned userId)" for P
    using that launched by (auto simp: calls_def)
  have "calls has_sent t = calls has_sent s" "calls has_responded t = calls has_responded s"
    "calls ((=) (Answered True)) t = calls ((=) (Answered True)) s"
    by (rule same; simp add: pc_simps)+
  moreover have "known_id userId" using assms(1) launched by (auto simp: load_inv_def)
  ultimately show ?thesis
    using assms(1) launched known_id_next by (auto simp: load_inv_def request_ok_def)
qed (use assms(1) known_id_first in \<open>auto simp: load_inv_def calls_def\<close>)

lemma load_inv_reach: "load_reach q s \<Longrightarrow> load_inv s"
proof (induction rule: load_reach.induct)
  case (init q)
  show ?case by (simp add: load_inv_def load_init_def calls_def pc_simps)
next
  case (step q s t)
  from step.hyps(2) show ?case
  proof cases
    case (conn c)
    then show ?thesis using load_inv_conn step.IH by blast
  next
    case (request g pc n)
    then show ?thesis using load_inv_request [OF step.IH] by simp
  next
    case (reporter pc lines)
    then show ?thesis using step.IH by (simp add: load_inv_def calls_def)
  qed
qed

section \<open>A run with one request\<close>

definition one_call :: "send_pc \<Rightarrow> load_counters \<Rightarrow> report_pc \<Rightarrow> report_line list \<Rightarrow> load_sys" where
  "one_call pc n rp ls = \<lparr>counters = n, conns = (\<lambda>_. None)(0 \<mapsto> 200001), sends = (\<lambda>_. Unborn)(0 := pc),
     report = rp, printed = ls, exited = False\<rparr>"

definition counted :: "u64 \<Rightarrow> u64 \<Rightarrow> u64 \<Rightarrow> load_counters" where
  "counted sent resp succ = \<lparr>totalSent = sent, totalResponses = resp, totalSuccesses = succ,
     totalLatencyMs = 0, totalStale = 0\<rparr>"

lemma one_call_request:
  assumes "load_reach q (one_call pc n rp ls)" and "sendRequest (pc, n) (pc', n')"
  shows "load_reach q (one_call pc' n' rp ls)"
  using load_reach.step [OF assms(1) load_step.request, of 0 pc' n'] assms(2)
  by (simp add: one_call_def)

lemma one_call_report:
  assumes "load_reach q (one_call pc n rp ls)" and "reportStats rp n = (rp', ls')"
  shows "load_reach q (one_call pc n rp' (ls @ ls'))"
  using load_reach.step [OF assms(1) load_step.reporter, of rp' ls'] assms(2)
  by (simp add: one_call_def)

lemma one_call_spawned: "load_reach 20 (one_call (Spawned 200000) (counted 0 0 0) Ticking [])"
proof -
  let ?s = "load_init\<lparr>conns := (conns load_init)(0 \<mapsto> 200000)\<rparr>"
  have "conn_move 20 0 load_init ?s"
    by (rule conn_move.dialled) (simp_all add: load_plan_def load_init_def)
  then have "load_reach 20 ?s"
    by (intro load_reach.step [OF load_reach.init] load_step.conn) (simp_all add: load_init_def)
  moreover have "\<not> exited ?s" by (simp add: load_init_def)
  moreover have "conn_move 20 0 ?s (?s\<lparr>sends := (sends ?s)(0 := Spawned 200000),
      conns := (conns ?s)(0 \<mapsto> getNextUserId 200000)\<rparr>)"
    by (rule conn_move.launched) (simp_all add: load_init_def)
  ultimately have "load_reach 20 (?s\<lparr>sends := (sends ?s)(0 := Spawned 200000),
      conns := (conns ?s)(0 \<mapsto> getNextUserId 200000)\<rparr>)"
    by (blast intro: load_reach.step load_step.conn)
  moreover have "getNextUserId 200000 = 200001" by (simp add: getNextUserId_def)
  ultimately show ?thesis by (simp add: one_call_def load_init_def counted_def)
qed

text \<open>The request succeeds between the first two loads of the reporter.\<close>

definition wrapped_line :: report_line where
  "wrapped_line = \<lparr>ln_total_sent = 1, ln_total_responses = 0, ln_total_errors = - 1, ln_latencyMs = 0,
     ln_stale_responses = 0\<rparr>"

lemma one_call_overtakes:
  "load_reach 20 (one_call (Answered True) (counted 1 1 1) Ticking [wrapped_line])"
proof -
  have "load_reach 20 (one_call (Spawned 200000) (counted 0 0 0) (LoadSuccesses 0) [])"
    using one_call_report [OF one_call_spawned] by (simp add: counted_def)
  from one_call_request [OF this send [of 1]]
  have "load_reach 20 (one_call (InCall 200000 1) (counted 1 0 0) (LoadSuccesses 0) [])"
    by (simp add: counted_def)
  from one_call_request [OF this call_answers [of _ _ _ False]]
  have "load_reach 20 (one_call (CountResponse True) (counted 1 0 0) (LoadSuccesses 0) [])" by simp
  from one_call_request [OF this count_response]
  have "load_reach 20 (one_call (CountLatency True) (counted 1 1 0) (LoadSuccesses 0) [])"
    by (simp add: counted_def)
  from one_call_request [OF this count_latency [of _ _ 0]]
  have "load_reach 20 (one_call (CountSuccess True) (counted 1 1 0) (LoadSuccesses 0) [])"
    by (simp add: counted_def)
  from one_call_request [OF this count_success]
  have "load_reach 20 (one_call (Answered True) (counted 1 1 1) (LoadSuccesses 0) [])"
    by (simp add: counted_def)
  from one_call_report [OF this]
  have "load_reach 20 (one_call (Answered True) (counted 1 1 1) (LoadLatency 0 (- 1)) [])"
    by (simp add: counted_def)
  from one_call_report [OF this]
  have "load_reach 20 (one_call (Answered True) (counted 1 1 1) (LoadStale 0 (- 1) 0) [])"
    by (simp add: counted_def)
  from one_call_report [OF this]
  have "load_reach 20 (one_call (Answered True) (counted 1 1 1) (LoadSent 0 (- 1) 0 0) [])"
    by (simp add: counted_def)
  from one_call_report [OF this] show ?thesis by (simp add: counted_def wrapped_line_def)
qed

lemma one_call_calls:
  "\<not> P Unborn \<Longrightarrow> calls P (one_call pc n rp ls) = (if P pc then {0} else {})"
  by (auto simp: calls_def one_call_def)

lemma answered_cases: "(\<exists>success. pc = Answered success) \<longleftrightarrow> Answered True = pc \<or> Answered False = pc"
  by (cases pc) auto

section \<open>What the load generator shows\<close>

text \<open>
  The printed error count can wrap around. One request that succeeds between the reporter's load of
  \<open>totalResponses\<close> and its load of \<open>totalSuccesses\<close> makes it print 18446744073709551615 errors although
  every call that was sent has succeeded.
\<close>
lemma error_count_wraps:
  "\<exists>s line. load_reach 20 s \<and> calls has_sent s = calls ((=) (Answered True)) s \<and> printed s = [line] \<and>
     ln_total_sent line = 1 \<and> ln_total_responses line = 0 \<and> unat (ln_total_errors line) = 18446744073709551615"
  by (intro exI [of _ wrapped_line] exI [of _ "one_call (Answered True) (counted 1 1 1) Ticking [wrapped_line]"] conjI)
    (rule one_call_overtakes, simp_all add: one_call_calls pc_simps,
     simp_all add: one_call_def wrapped_line_def unsigned_minus_1_eq_mask mask_eq_exp_minus_1)


text \<open>
  The tools ask for users that exist. The id the frontend derives from any net id, and every id that
  the load generator asks for in any schedule and at any target rate, is a user of every database the
  user service can make, and the limits it asks for are between 1 and 10.
\<close>
lemma clients_ask_for_users:
  assumes "rand_ok R" and "MakeUserServiceServer R uo = (db, st)"
    and "load_reach targetQps s" and "sends s g = InCall userId limit"
  shows "getUserId netId \<in> dom (us_users db)" and "userId \<in> dom (us_users db)"
    and "1 \<le> limit \<and> limit \<le> 10"
proof -
  have known: "k \<in> dom (us_users db)" if k: "known_id k" for k
    using k first_users_exist [OF assms(1,2)] unfolding known_id_def by blast
  have "known_id (getUserId netId)" using getUserId_below unfolding known_id_def by blast
  then show "getUserId netId \<in> dom (us_users db)" by (rule known)
  have "request_ok (InCall userId limit)"
    using load_inv_reach [OF assms(3)] assms(4) unfolding load_inv_def by metis
  then show "userId \<in> dom (us_users db)" and "1 \<le> limit \<and> limit \<le> 10"
    using known by (simp_all add: request_ok_def)
qed

text \<open>The errors computed when nothing is in flight.\<close>

lemma settled_errors:
  assumes "load_inv s" and "report s = LoadSuccesses (totalResponses (counters s))"
    and settled: "calls has_responded s = calls (\<lambda>pc. \<exists>success. pc = Answered success) s"
  shows "fst (reportStats (report s) (counters s)) =
    LoadLatency (of_nat (card (calls has_responded s))) (of_nat (card (calls ((=) (Answered False)) s)))"
proof -
  have resp: "totalResponses (counters s) = of_nat (card (calls has_responded s))"
    and succ: "totalSuccesses (counters s) = of_nat (card (calls ((=) (Answered True)) s))"
    using assms(1) by (auto simp: load_inv_def)
  have split: "calls has_responded s = calls ((=) (Answered True)) s \<union> calls ((=) (Answered False)) s"
    unfolding settled by (simp only: calls_def answered_cases Collect_disj_eq)
  have disj: "calls ((=) (Answered True)) s \<inter> calls ((=) (Answered False)) s = {}"
    by (simp add: calls_def disjoint_iff) (metis send_pc.inject(6))
  have "finite (calls has_responded s)"
    using assms(1) responded_subset by (auto simp: load_inv_def intro: rev_finite_subset)
  then have "card (calls has_responded s) =
      card (calls ((=) (Answered True)) s) + card (calls ((=) (Answered False)) s)"
    unfolding split by (intro card_Un_disjoint disj) simp_all
  then show ?thesis by (simp add: assms(2) resp succ)
qed

text \<open>
  C35: what the counters of the load generator mean. In every reachable state \<open>totalSent\<close>,
  \<open>totalResponses\<close> and \<open>totalSuccesses\<close> are the numbers (modulo 2^64) of the calls that have been sent,
  that have come back, and that have come back without an error, each of these sets containing the next.
  If no returned call is still on its way to count its success, and none has come back since the
  reporter loaded \<open>totalResponses\<close>, the errors it computes are exactly the calls that failed; without
  that, the printed error count can wrap around to 18446744073709551615 although every call has
  succeeded. Every call asks for a user that is in every database the user service can make, with a
  limit between 1 and 10.
\<close>
theorem load_generator_counts:
  assumes "load_reach targetQps s"
  shows "finite (calls has_sent s) \<and>
    calls has_responded s \<subseteq> calls has_sent s \<and>
    calls ((=) (Answered True)) s \<subseteq> calls has_responded s \<and>
    totalSent (counters s) = of_nat (card (calls has_sent s)) \<and>
    totalResponses (counters s) = of_nat (card (calls has_responded s)) \<and>
    totalSuccesses (counters s) = of_nat (card (calls ((=) (Answered True)) s)) \<and>
    (report s = LoadSuccesses (totalResponses (counters s)) \<and>
       calls has_responded s = calls (\<lambda>pc. \<exists>success. pc = Answered success) s \<longrightarrow>
     fst (reportStats (report s) (counters s)) =
       LoadLatency (of_nat (card (calls has_responded s))) (of_nat (card (calls ((=) (Answered False)) s)))) \<and>
    (\<exists>s' line. load_reach 20 s' \<and> calls has_sent s' = calls ((=) (Answered True)) s' \<and> printed s' = [line] \<and>
       ln_total_sent line = 1 \<and> ln_total_responses line = 0 \<and> unat (ln_total_errors line) = 18446744073709551615) \<and>
    (\<forall>g userId limit R uo. rand_ok R \<and> sends s g = InCall userId limit \<longrightarrow>
       userId \<in> dom (us_users (fst (MakeUserServiceServer R uo))) \<and> 1 \<le> limit \<and> limit \<le> 10)"
proof (intro conjI)
  note inv = load_inv_reach [OF assms, unfolded load_inv_def]
  show "finite (calls has_sent s)" "totalSent (counters s) = of_nat (card (calls has_sent s))"
    "totalResponses (counters s) = of_nat (card (calls has_responded s))"
    "totalSuccesses (counters s) = of_nat (card (calls ((=) (Answered True)) s))"
    using inv by blast+
  show "report s = LoadSuccesses (totalResponses (counters s)) \<and>
       calls has_responded s = calls (\<lambda>pc. \<exists>success. pc = Answered success) s \<longrightarrow>
     fst (reportStats (report s) (counters s)) =
       LoadLatency (of_nat (card (calls has_responded s))) (of_nat (card (calls ((=) (Answered False)) s)))"
    using settled_errors [OF load_inv_reach [OF assms]] by blast
  show "\<forall>g userId limit R uo. rand_ok R \<and> sends s g = InCall userId limit \<longrightarrow>
       userId \<in> dom (us_users (fst (MakeUserServiceServer R uo))) \<and> 1 \<le> limit \<and> limit \<le> 10"
    using clients_ask_for_users(2,3) [OF _ surjective_pairing assms] by blast
qed (rule responded_subset succeeded_subset error_count_wraps)+

theorem load_generator_counts_witness:
  "totalSent (counters (one_call (InCall 200000 7) (counted 1 0 0) Ticking [])) =
     of_nat (card (calls has_sent (one_call (InCall 200000 7) (counted 1 0 0) Ticking []))) \<and>
   (200000 :: u64) \<in> dom (us_users (fst (MakeUserServiceServer zero_ops DefaultUserServiceOptions)))"
proof -
  have run: "load_reach 20 (one_call (InCall 200000 7) (counted 1 0 0) Ticking [])"
    using one_call_request [OF one_call_spawned send [of 7]] by (simp add: counted_def)
  have "sends (one_call (InCall 200000 7) (counted 1 0 0) Ticking []) 0 = InCall 200000 7"
    by (simp add: one_call_def)
  then show ?thesis
    using load_generator_counts [OF run] zero_ops_ok by blast
qed

end
