(* ===== verification/StatsTool.thy ===== *)
theory StatsTool
  imports ClientTools
begin

text \<open>
  lab1/cmd/stats/stats.go as a program: it dials the recommendation service, prints a header, asks for the
  statistics once, and then starts one goroutine per second that asks again. A goroutine's call and the
  line it prints are one step; the goroutines end in any order.
\<close>

section \<open>The program\<close>

record stats_flags =
  sf_videoRecServiceAddr :: string

definition default_stats_flags :: stats_flags where
  "default_stats_flags = \<lparr>sf_videoRecServiceAddr = ''[::]:8080''\<rparr>"

type_synonym 'f stats_row = "u64 \<times> u64 \<times> u64 \<times> u64 \<times> u64 \<times> 'f \<times> 'f option \<times> u64"

text \<open>The names of the columns; the first is the time.\<close>

definition printHeader :: "string list" where
  "printHeader = [''now_us'', ''total_requests'', ''total_errors'', ''active_requests'', ''user_service_errors'',
     ''video_service_errors'', ''average_latency_ms'', ''p99_latency_ms'', ''stale_responses'']"

datatype stats_pc = Dialled | Looping

record ('f, 'w) stats_sys =
  st_pc :: stats_pc
  st_outside :: 'w
  st_ticks :: nat
  st_running :: nat
  st_printed :: "'f stats_row option list"
  st_crashed :: bool

definition stats_start :: "'conn dialer \<Rightarrow> stats_flags \<Rightarrow> 'w \<Rightarrow> ('conn \<times> ('f, 'w) stats_sys) outcome" where
  "stats_start dial flags w =
     (case serviceConn dial (sf_videoRecServiceAddr flags) of
        Return c \<Rightarrow> Return (c, \<lparr>st_pc = Dialled, st_outside = w, st_ticks = 0, st_running = 0, st_printed = [], st_crashed = False\<rparr>)
      | Fails e \<Rightarrow> Panics LogFatal
      | Panics p \<Rightarrow> Panics p
      | Blocks \<Rightarrow> Blocks)"

text \<open>
  \<open>call\<close> is the \<open>GetStats\<close> of the client; an element of \<open>st_printed\<close> is a line, or \<open>None\<close> for the message
  that the call failed. A call that hangs is a goroutine that takes no step; while the first call
  hangs there are no others. A panic in any of them ends the process.
\<close>

inductive stats_step :: "('w \<Rightarrow> 'f GetStatsResponse outcome \<times> 'w) \<Rightarrow> ('f, 'w) stats_sys \<Rightarrow> ('f, 'w) stats_sys \<Rightarrow> bool" for call where
  gather_first: "\<not> st_crashed s \<Longrightarrow> st_pc s = Dialled \<Longrightarrow> gatherStats call (st_outside s) = (Return row, w) \<Longrightarrow>
    stats_step call s (s\<lparr>st_pc := Looping, st_outside := w, st_printed := st_printed s @ [row]\<rparr>)"
| tick: "\<not> st_crashed s \<Longrightarrow> st_pc s = Looping \<Longrightarrow>
    stats_step call s (s\<lparr>st_ticks := Suc (st_ticks s), st_running := Suc (st_running s)\<rparr>)"
| gather: "\<not> st_crashed s \<Longrightarrow> st_running s = Suc n \<Longrightarrow> gatherStats call (st_outside s) = (Return row, w) \<Longrightarrow>
    stats_step call s (s\<lparr>st_running := n, st_outside := w, st_printed := st_printed s @ [row]\<rparr>)"
| crash: "\<not> st_crashed s \<Longrightarrow> st_pc s = Dialled \<or> 0 < st_running s \<Longrightarrow> gatherStats call (st_outside s) = (Panics p, w) \<Longrightarrow>
    stats_step call s (s\<lparr>st_crashed := True, st_outside := w\<rparr>)"
| others: "stats_step call s (s\<lparr>st_outside := w\<rparr>)"

section \<open>What is printed\<close>

text \<open>Every line belongs to one call and to one second, and shows what the service answered.\<close>

definition answered_row :: "('w \<Rightarrow> 'f GetStatsResponse outcome \<times> 'w) \<Rightarrow> 'f stats_row option \<Rightarrow> bool" where
  "answered_row call row \<longleftrightarrow> row = None \<or> (\<exists>w resp w'. call w = (Return resp, w') \<and> row = Some (printStats resp))"

definition stats_inv :: "('w \<Rightarrow> 'f GetStatsResponse outcome \<times> 'w) \<Rightarrow> ('f, 'w) stats_sys \<Rightarrow> bool" where
  "stats_inv call s \<longleftrightarrow>
     length (st_printed s) + st_running s = st_ticks s + of_bool (st_pc s = Looping) \<and>
     (\<forall>row\<in>set (st_printed s). answered_row call row)"

lemma gatherStats_row: "gatherStats call w = (Return row, w') \<Longrightarrow> answered_row call row"
  by (fastforce simp: gatherStats_def answered_row_def split: prod.splits go_result.splits)

lemma stats_step_inv: "stats_step call s t \<Longrightarrow> stats_inv call s \<Longrightarrow> stats_inv call t"
  by (induction rule: stats_step.induct) (auto simp: stats_inv_def dest: gatherStats_row)

lemma stats_lines:
  assumes "stats_start dial flags w = Return (c, s)" and "(stats_step call)\<^sup>*\<^sup>* s t"
  shows "stats_inv call t \<and> length (st_printed t) \<le> Suc (st_ticks t)"
proof -
  have "stats_inv call s" using assms(1) by (auto simp: stats_start_def stats_inv_def split: go_result.splits)
  with assms(2) have "stats_inv call t" by (induction rule: rtranclp_induct) (auto intro: stats_step_inv)
  then show ?thesis by (cases "st_pc t") (auto simp: stats_inv_def)
qed

text \<open>Against the service itself: the columns are its counters, in the order of the header.\<close>

lemma stats_of_server:
  "gatherStats (\<lambda>server. (Return (GetStats f32_div server), server)) server =
     (Return (Some (totalRequests server, totalErrors server, activeRequests server, userServiceErrors server,
        videoServiceErrors server, f32_div (totalTimeMs server) (totalRequests server), None, staleResponses server)), server)"
  by (simp add: gatherStats_def printStats_def GetStats_def)

end
