(* ===== verification/VideoRecAnswers.thy ===== *)
theory VideoRecAnswers
  imports VideoRecProps
begin

text \<open>
  What a response of the recommendation server is made of, whatever the clients answer: the world of
  the outside carries the list of the answers that the clients gave, and the response is computed from
  exactly those.
\<close>

section \<open>Recorded answers\<close>

text \<open>A successful call: the ids it asked for and what it answered.\<close>

datatype answer = UserAnswer "u64 list" "UserInfo list" | VideoAnswer "u64 list" "VideoInfo list"

definition recorded :: "('a \<Rightarrow> answer) \<Rightarrow> ('w \<Rightarrow> 'a outcome \<times> 'w) \<Rightarrow> 'w \<times> answer list \<Rightarrow> 'a outcome \<times> 'w \<times> answer list" where
  "recorded entry call = (\<lambda>(w, log). case call w of
     (Return x, w') \<Rightarrow> (Return x, w', log @ [entry x])
   | (r, w') \<Rightarrow> (r, w', log))"

definition answering :: "('u, 'v, 'w) clients \<Rightarrow> ('u, 'v, 'w \<times> answer list) clients" where
  "answering C =
     \<lparr>cl_GetUser = (\<lambda>c ids. recorded (UserAnswer ids) (cl_GetUser C c ids)),
      cl_GetVideo = (\<lambda>c ids. recorded (VideoAnswer ids) (cl_GetVideo C c ids)),
      cl_GetTrendingVideos = (\<lambda>c (w, log). case cl_GetTrendingVideos C c w of (r, w') \<Rightarrow> (r, w', log))\<rparr>"

lemma retrying_recorded:
  "retrying enabled call w = (q, w') \<Longrightarrow>
   retrying enabled (recorded entry call) (w, log) = (q, w', log @ (case q of Return x \<Rightarrow> [entry x] | _ \<Rightarrow> []))"
  by (auto simp: retrying_def recorded_def split: prod.splits go_result.splits if_splits)

definition user_answers :: "(u64 list \<times> UserInfo list) list \<Rightarrow> answer list" where
  "user_answers subs = map (\<lambda>(ids, infos). UserAnswer ids infos) subs"

definition video_answers :: "(u64 list \<times> VideoInfo list) list \<Rightarrow> answer list" where
  "video_answers vids = map (\<lambda>(ids, infos). VideoAnswer ids infos) vids"

section \<open>The two loops\<close>

text \<open>A batch and what is left after it.\<close>

lemma reslice_batch:
  assumes "reslice xs i (batch_end m i xs) = Return b" and "i < int (length xs)"
  shows "b @ drop (nat (i + m)) xs = drop (nat i) xs"
proof -
  have i: "0 \<le> i" "i \<le> batch_end m i xs" and b: "b = take (nat (batch_end m i xs - i)) (drop (nat i) xs)"
    using assms(1) by (auto simp: reslice_def split: if_splits)
  show ?thesis
  proof (cases "i + m > int (length xs)")
    case True
    then show ?thesis using b assms(2) i(1) by (simp add: batch_end_def)
  next
    case False
    then have "0 \<le> m" "b = take (nat m) (drop (nat i) xs)" using i(2) b by (simp_all add: batch_end_def)
    moreover have "drop (nat (i + m)) xs = drop (nat m) (drop (nat i) xs)"
      using i(1) \<open>0 \<le> m\<close> by (simp add: nat_add_distrib add.commute)
    ultimately show ?thesis by (simp only: append_take_drop_id)
  qed
qed

lemma subscribed_loop_answers:
  assumes "subscribed_loop C c userId subs i acc server w = Some y"
  shows "fst y = Return ids \<longrightarrow> (\<exists>got. (\<forall>log. subscribed_loop (answering C) c userId subs i acc server (w, log) =
        Some (Return ids, server, snd (snd y), log @ user_answers got)) \<and>
    concat (map fst got) = drop (nat i) subs \<and> ids = acc @ concat (map ui_LikedVideos (concat (map snd got))))"
  using assms
proof (rule subscribed_loop.raw_induct [rotated], goal_cases)
  case (1 loop C c userId subs i acc server w y)
  note IH = 1(1) and eq = 1(2)
  note unfold = subscribed_loop.simps [of "answering C" c userId subs i acc server]
  have "\<exists>got. (\<forall>log. subscribed_loop (answering C) c userId subs i acc server (w, log) =
        Some (Return ids, server, snd (snd y), log @ user_answers got)) \<and>
    concat (map fst got) = drop (nat i) subs \<and> ids = acc @ concat (map ui_LikedVideos (concat (map snd got)))"
    if ret: "fst y = Return ids"
  proof (cases "i < int (length subs)")
    case True
    obtain batch where b: "reslice subs i (batch_end (MaxBatchSize (options server)) i subs) = (Return batch :: u64 list outcome)"
      using eq ret True by (cases "reslice subs i (batch_end (MaxBatchSize (options server)) i subs) :: u64 list outcome") auto
    obtain q w1 where q: "retrying True (cl_GetUser C c batch) w = (q, w1)" by (rule prod.exhaust)
    obtain infos where infos: "q = Return infos" using eq ret True b q by (cases q) (auto simp: user_query_failed_eq)
    have rest: "loop C c userId subs (i + MaxBatchSize (options server)) (acc @ concat (map ui_LikedVideos infos)) server w1 = Some y"
      using eq True b q infos by simp
    obtain got where got: "\<forall>log. subscribed_loop (answering C) c userId subs (i + MaxBatchSize (options server))
          (acc @ concat (map ui_LikedVideos infos)) server (w1, log) = Some (Return ids, server, snd (snd y), log @ user_answers got)"
      "concat (map fst got) = drop (nat (i + MaxBatchSize (options server))) subs"
      "ids = (acc @ concat (map ui_LikedVideos infos)) @ concat (map ui_LikedVideos (concat (map snd got)))"
      using IH [OF rest] ret by blast
    have "retrying True (cl_GetUser (answering C) c batch) (w, log) = (Return infos, w1, log @ [UserAnswer batch infos])" for log
      using retrying_recorded [OF q, of "UserAnswer batch" log] infos by (simp add: answering_def)
    then have "subscribed_loop (answering C) c userId subs i acc server (w, log) =
        Some (Return ids, server, snd (snd y), log @ user_answers ((batch, infos) # got))" for log
      using got(1) by (subst unfold) (simp add: True b user_answers_def)
    then show ?thesis using got(2,3) reslice_batch [OF b True] by (intro exI [of _ "(batch, infos) # got"]) simp
  next
    case False
    then have "subscribed_loop (answering C) c userId subs i acc server (w, log) =
        Some (Return ids, server, snd (snd y), log @ user_answers [])" for log
      using eq ret by (subst unfold) (auto simp: user_answers_def)
    then show ?thesis using False eq ret by (intro exI [of _ "[]"]) auto
  qed
  then show ?case by blast
qed

text \<open>If the loop falls back to the cache, some ids have been left unanswered.\<close>

definition videos_answered :: "u64 list \<Rightarrow> bool \<Rightarrow> (u64 list \<times> VideoInfo list) list \<Rightarrow> bool" where
  "videos_answered ids stale got \<longleftrightarrow>
     (if stale then \<exists>rest. rest \<noteq> [] \<and> concat (map fst got) @ rest = ids else concat (map fst got) = ids)"

lemma video_loop_answers:
  assumes "video_loop C c ids i acc server w = Some y"
  shows "fst y = Return (vs, stale) \<longrightarrow> (\<exists>got.
    (\<forall>log. video_loop (answering C) c ids i acc server (w, log) =
        Some (Return (vs, stale), fst (snd y), snd (snd y), log @ video_answers got)) \<and>
    videos_answered (drop (nat i) ids) stale got \<and> (\<not> stale \<longrightarrow> vs = acc @ concat (map snd got)))"
  using assms
proof (rule video_loop.raw_induct [rotated], goal_cases)
  case (1 loop C c ids i acc server w y)
  note IH = 1(1) and eq = 1(2)
  note unfold = video_loop.simps [of "answering C" c ids i acc server]
  have "\<exists>got. (\<forall>log. video_loop (answering C) c ids i acc server (w, log) =
        Some (Return (vs, stale), fst (snd y), snd (snd y), log @ video_answers got)) \<and>
    videos_answered (drop (nat i) ids) stale got \<and> (\<not> stale \<longrightarrow> vs = acc @ concat (map snd got))"
    if ret: "fst y = Return (vs, stale)"
  proof (cases "i < int (length ids)")
    case True
    let ?m = "MaxBatchSize (options server)" and ?retry = "\<not> DisableRetry (options server)"
    obtain batch where b: "reslice ids i (batch_end ?m i ids) = (Return batch :: u64 list outcome)"
      using eq ret True by (cases "reslice ids i (batch_end ?m i ids) :: u64 list outcome") auto
    obtain q w1 where q: "retrying ?retry (cl_GetVideo C c batch) w = (q, w1)" by (rule prod.exhaust)
    have asked: "retrying ?retry (cl_GetVideo (answering C) c batch) (w, log) =
        (q, w1, log @ (case q of Return x \<Rightarrow> [VideoAnswer batch x] | _ \<Rightarrow> []))" for log
      using retrying_recorded [OF q, of "VideoAnswer batch" log] by (simp add: answering_def)
    show ?thesis
    proof (cases q)
      case (Return infos)
      have rest: "loop C c ids (i + ?m) (acc @ infos) server w1 = Some y" using eq True b q Return by simp
      obtain got where got: "\<forall>log. video_loop (answering C) c ids (i + ?m) (acc @ infos) server (w1, log) =
          Some (Return (vs, stale), fst (snd y), snd (snd y), log @ video_answers got)"
        "videos_answered (drop (nat (i + ?m)) ids) stale got" "\<not> stale \<longrightarrow> vs = (acc @ infos) @ concat (map snd got)"
        using IH [OF rest] ret by blast
      have "video_loop (answering C) c ids i acc server (w, log) =
          Some (Return (vs, stale), fst (snd y), snd (snd y), log @ video_answers ((batch, infos) # got))" for log
        using got(1) by (subst unfold) (simp add: True b asked Return video_answers_def)
      moreover have "videos_answered (drop (nat i) ids) stale ((batch, infos) # got)"
        using got(2) unfolding videos_answered_def reslice_batch [OF b True, symmetric] by (cases stale) auto
      ultimately show ?thesis using got(3) by (intro exI [of _ "(batch, infos) # got"]) simp
    next
      case (Fails st)
      obtain r server' where f: "video_query_failed st server = (r, server')" by (rule prod.exhaust)
      have y: "y = (r, server', w1)" using eq True b q Fails f by simp
      then have stale using video_query_failed_cases [OF f] ret by (auto split: if_splits)
      have "video_loop (answering C) c ids i acc server (w, log) =
          Some (Return (vs, stale), fst (snd y), snd (snd y), log @ video_answers [])" for log
        using ret y by (subst unfold) (simp add: True b asked Fails f video_answers_def)
      moreover have "drop (nat i) ids \<noteq> []" using True b by (auto simp: reslice_def split: if_splits)
      ultimately show ?thesis using \<open>stale\<close> by (intro exI [of _ "[]"]) (simp add: videos_answered_def)
    qed (use eq True b q ret in auto)
  next
    case False
    then have "video_loop (answering C) c ids i acc server (w, log) =
        Some (Return (vs, stale), fst (snd y), snd (snd y), log @ video_answers [])" for log
      using eq ret by (subst unfold) (auto simp: video_answers_def)
    then show ?thesis using False eq ret by (intro exI [of _ "[]"]) (auto simp: videos_answered_def)
  qed
  then show ?case by blast
qed

section \<open>A response\<close>

text \<open>What the ranked list is a reordering of, and what becomes of the cache.\<close>

definition ranked_list :: "('u, 'v) VideoRecServiceServer \<Rightarrow> ('u, 'v) VideoRecServiceServer \<Rightarrow> bool \<Rightarrow>
    (u64 list \<times> VideoInfo list) list \<Rightarrow> VideoInfo list \<Rightarrow> bool" where
  "ranked_list server server' stale vids ws \<longleftrightarrow>
     (if stale
      then mset ws = mset (topVideos server) \<and> topVideos server' = ws \<and> ws \<noteq> [] \<and> \<not> DisableFallback (options server)
      else mset ws = mset (concat (map snd vids)) \<and> topVideos server' = topVideos server)"

lemma fetch_and_rank_answers:
  assumes "blowfish_ok B" and "sort_ok sf" and "0 \<le> limit"
    and "fetch_and_rank C B sf cs limit ids server w = Some (Return resp, server', w')"
  shows "\<exists>vids ws. (\<forall>log. fetch_and_rank (answering C) B sf cs limit ids server (w, log) =
        Some (Return resp, server', w', log @ video_answers vids)) \<and>
    videos_answered ids (resp_StaleResponse resp) vids \<and> resp_Videos resp = cut limit ws \<and> by_rank B cs ws \<and>
    ranked_list server server' (resp_StaleResponse resp) vids ws"
proof -
  obtain c s1 where pick: "getNextVideoClient server = Return (c, s1)"
    using assms(4) by (auto simp: fetch_and_rank_def split: go_result.splits)
  obtain i where s1: "s1 = server\<lparr>videoServiceIdx := i\<rparr>"
    using getNextVideoClient_frame(1) [OF pick] by auto
  obtain vs stale s2 where loop: "video_loop C c ids 0 [] s1 w = Some (Return (vs, stale), s2, w')"
    and tail: "rank_and_cut B sf cs limit vs stale s2 = (Return resp, server')"
    using assms(4) pick
    by (auto simp: fetch_and_rank_def split: option.splits go_result.splits prod.splits)
  obtain vids where logged: "\<forall>log. video_loop (answering C) c ids 0 [] s1 (w, log) =
      Some (Return (vs, stale), s2, w', log @ video_answers vids)"
    and vids: "videos_answered ids stale vids" "\<not> stale \<longrightarrow> vs = concat (map snd vids)"
    using video_loop_answers [OF loop, of vs stale] by auto
  obtain ws where ws: "mset ws = mset vs" "by_rank B cs ws"
    and resp: "resp = \<lparr>resp_Videos = cut limit ws, resp_StaleResponse = stale\<rparr>"
    and s': "server' = (if stale then s2\<lparr>topVideos := ws\<rparr> else s2)"
    using rank_and_cut_value [OF assms(1-3), of cs vs stale s2] tail by auto
  have "if stale then s2 = video_failure True s1 \<and> vs = topVideos server \<and> vs \<noteq> [] \<and>
      \<not> DisableFallback (options server) else s2 = s1"
    using video_loop_frame [OF loop] s1 by (auto split: if_splits)
  then have "ranked_list server server' stale vids ws"
    using ws s' s1 vids(2) by (auto simp: ranked_list_def video_failure_def split: if_splits)
  moreover have "\<forall>log. fetch_and_rank (answering C) B sf cs limit ids server (w, log) =
      Some (Return resp, server', w', log @ video_answers vids)"
    using logged pick tail by (simp add: fetch_and_rank_def)
  ultimately show ?thesis using vids(1) ws(2) resp by auto
qed

text \<open>
  C4: every response is ranked, cut and made of what the clients answered, whatever they answer. A
  \<open>GetTopVideos\<close> that returns has received answers about the requesting user first, then about all the
  users that this user is subscribed to, in batches, and then about videos; recording the answers changes
  nothing else. The videos of the response are the first \<open>limit\<close> (all of them for 0) of a list that is
  sorted by descending rank for the coefficients of the requesting user. If the response is fresh, that
  list is a reordering of exactly the videos answered, the ids asked for are the distinct videos that the
  subscribed users like, and the cache is left alone. A response is stale only if fallback is enabled and
  some of those ids stayed unanswered; then that list is a reordering of the nonempty cache, and the
  server's cache is left in this user's order, because the handler sorts the shared slice in place.
\<close>
theorem responses_ranked_and_cut:
  assumes "blowfish_ok B" and "sort_ok sf"
    and "GetTopVideos C B sf elapsed req server w = Some (Return resp, server', w')"
  shows "\<exists>user us subs vids ws.
    GetTopVideos (answering C) B sf elapsed req server (w, []) = Some (Return resp, server', w',
      UserAnswer [req_UserId req] (user # us) # user_answers subs @ video_answers vids) \<and>
    concat (map fst subs) = ui_SubscribedTo user \<and>
    videos_answered (deduplicate_ids (concat (map ui_LikedVideos (concat (map snd subs))))) (resp_StaleResponse resp) vids \<and>
    resp_Videos resp = cut (req_Limit req) ws \<and> by_rank B (ui_UserCoefficients user) ws \<and>
    ranked_list server server' (resp_StaleResponse resp) vids ws"
proof -
  let ?s = "server\<lparr>totalRequests := totalRequests server + 1, activeRequests := activeRequests server + 1\<rparr>"
  obtain s2 where body: "top_videos_body C B sf req ?s w = Some (Return resp, s2, w')"
    and s': "server' = s2\<lparr>totalTimeMs := totalTimeMs s2 + elapsed, activeRequests := activeRequests s2 + not 0\<rparr>"
    by (rule GetTopVideos_body [OF assms(3)]) simp
  have lim: "0 \<le> req_Limit req" using body by (auto simp: top_videos_body_def split: if_splits)
  obtain c s1 where pick: "getNextUserClient ?s = Return (c, s1)"
    using body lim by (auto simp: top_videos_body_def split: go_result.splits)
  obtain i where s1: "s1 = ?s\<lparr>userServiceIdx := i\<rparr>" using getNextUserClient_frame(1) [OF pick] by auto
  obtain q w0 where q: "retrying (\<not> DisableRetry (options s1)) (cl_GetUser C c [req_UserId req]) w = (q, w0)"
    by (rule prod.exhaust)
  obtain user us where us: "q = Return (user # us)" and rest: "after_user C B sf req c user s1 w0 = Some (Return resp, s2, w')"
    using body unfolding top_videos_body_cases [OF lim pick q] by (auto split: go_result.splits list.splits)
  obtain ids s3 w1 where loop: "subscribed_loop C c (req_UserId req) (ui_SubscribedTo user) 0 [] s1 w0 = Some (Return ids, s3, w1)"
    and fr: "fetch_and_rank C B sf (ui_UserCoefficients user) (req_Limit req) (deduplicate_ids ids) s3 w1 =
      Some (Return resp, s2, w')"
    using rest by (auto simp: after_user_def split: option.splits go_result.splits)
  have s3: "s3 = s1" using subscribed_loop_frame [OF loop] by simp
  let ?first = "[UserAnswer [req_UserId req] (user # us)]"
  have first: "retrying (\<not> DisableRetry (options s1)) (cl_GetUser (answering C) c [req_UserId req]) (w, []) =
      (Return (user # us), w0, ?first)"
    using retrying_recorded [OF q, of "UserAnswer [req_UserId req]" "[]"] us by (simp add: answering_def)
  obtain subs where subs: "\<forall>log. subscribed_loop (answering C) c (req_UserId req) (ui_SubscribedTo user) 0 [] s1 (w0, log) =
      Some (Return ids, s1, w1, log @ user_answers subs)"
    "concat (map fst subs) = ui_SubscribedTo user" "ids = concat (map ui_LikedVideos (concat (map snd subs)))"
    using subscribed_loop_answers [OF loop, of ids] by auto
  obtain vids ws where vids: "\<forall>log. fetch_and_rank (answering C) B sf (ui_UserCoefficients user) (req_Limit req)
        (deduplicate_ids ids) s1 (w1, log) = Some (Return resp, s2, w', log @ video_answers vids)"
    "videos_answered (deduplicate_ids ids) (resp_StaleResponse resp) vids"
    "resp_Videos resp = cut (req_Limit req) ws" "by_rank B (ui_UserCoefficients user) ws"
    "ranked_list s1 s2 (resp_StaleResponse resp) vids ws"
    using fetch_and_rank_answers [OF assms(1,2) lim fr] unfolding s3 by blast
  have "after_user (answering C) B sf req c user s1 (w0, ?first) =
      Some (Return resp, s2, w', ?first @ user_answers subs @ video_answers vids)"
    using subs(1) vids(1) by (simp add: after_user_def)
  then have "top_videos_body (answering C) B sf req ?s (w, []) =
      Some (Return resp, s2, w', ?first @ user_answers subs @ video_answers vids)"
    using top_videos_body_cases [OF lim pick first, of B sf] by simp
  then have "GetTopVideos (answering C) B sf elapsed req server (w, []) =
      Some (Return resp, server', w', ?first @ user_answers subs @ video_answers vids)"
    unfolding s' by (simp add: GetTopVideos_of_body)
  moreover have "ranked_list server server' (resp_StaleResponse resp) vids ws"
    using vids(5) s1 s' by (auto simp: ranked_list_def split: if_splits)
  ultimately show ?thesis using subs(2,3) vids(2-4) by auto
qed

theorem responses_ranked_and_cut_witness:
  "\<exists>resp s w ws. GetTopVideos down_clients plain_cipher sort_cmp 5 (demo_request 7)
      (demo_server\<lparr>topVideos := [demo_video 1000]\<rparr>) () = Some (Return resp, s, w) \<and>
    resp_Videos resp = cut 3 ws \<and> mset ws = mset [demo_video 1000] \<and> resp_StaleResponse resp"
proof -
  obtain r where r: "Rank plain_cipher None None = Return r"
    using Rank_Return [OF plain_cipher_ok] by blast
  have "\<exists>resp s w. GetTopVideos down_clients plain_cipher sort_cmp 5 (demo_request 7)
      (demo_server\<lparr>topVideos := [demo_video 1000]\<rparr>) () = Some (Return resp, s, w) \<and> resp_StaleResponse resp"
    by (simp add: demo_run rank_and_cut_def getVideoRanks_def demo_video_def r Let_def)
  then obtain resp s w where run: "GetTopVideos down_clients plain_cipher sort_cmp 5 (demo_request 7)
      (demo_server\<lparr>topVideos := [demo_video 1000]\<rparr>) () = Some (Return resp, s, w)" and st: "resp_StaleResponse resp"
    by blast
  from responses_ranked_and_cut [OF plain_cipher_ok sort_cmp_ok run] st
  obtain ws where "resp_Videos resp = cut 3 ws" "mset ws = mset [demo_video 1000]"
    by (auto simp: demo_request_def ranked_list_def)
  with run st show ?thesis by blast
qed

end
