(* ===== verification/VideoRecBatches.thy ===== *)
theory VideoRecBatches
  imports VideoRecProps
begin

text \<open>
  What a \<open>GetTopVideos\<close> request asks of the two backends. The clients are wrapped so that the state of
  the outside carries the list of the calls that reached it.
\<close>

section \<open>Recorded calls\<close>

datatype backend_call = UserCall "u64 list" | VideoCall "u64 list" | TrendingCall

definition recording :: "('u, 'v, 'w) clients \<Rightarrow> ('u, 'v, 'w \<times> backend_call list) clients" where
  "recording C =
     \<lparr>cl_GetUser = (\<lambda>c ids (w, log). case cl_GetUser C c ids w of (r, w') \<Rightarrow> (r, w', log @ [UserCall ids])),
      cl_GetVideo = (\<lambda>c ids (w, log). case cl_GetVideo C c ids w of (r, w') \<Rightarrow> (r, w', log @ [VideoCall ids])),
      cl_GetTrendingVideos = (\<lambda>c (w, log). case cl_GetTrendingVideos C c w of (r, w') \<Rightarrow> (r, w', log @ [TrendingCall]))\<rparr>"

fun asks_for :: "u64 \<Rightarrow> backend_call \<Rightarrow> bool" where
  "asks_for v (VideoCall ids) \<longleftrightarrow> v \<in> set ids"
| "asks_for v _ \<longleftrightarrow> False"

text \<open>Requests that the backends accept: not empty, within the batch size, videos without duplicates.\<close>

fun proper_call :: "int \<Rightarrow> backend_call \<Rightarrow> bool" where
  "proper_call m (UserCall ids) \<longleftrightarrow> ids \<noteq> [] \<and> int (length ids) \<le> m"
| "proper_call m (VideoCall ids) \<longleftrightarrow> ids \<noteq> [] \<and> int (length ids) \<le> m \<and> distinct ids"
| "proper_call m TrendingCall \<longleftrightarrow> False"

definition proper_log :: "int \<Rightarrow> (u64 \<Rightarrow> nat) \<Rightarrow> backend_call list \<Rightarrow> bool" where
  "proper_log m k log \<longleftrightarrow> (\<forall>call\<in>set log. proper_call m call) \<and> (\<forall>v. length (filter (asks_for v) log) \<le> k v)"

lemma proper_log_Nil [simp]: "proper_log m k []"
  by (simp add: proper_log_def)

lemma proper_log_append:
  "proper_log m k xs \<Longrightarrow> proper_log m k' ys \<Longrightarrow> proper_log m (\<lambda>v. k v + k' v) (xs @ ys)"
  unfolding proper_log_def by (auto intro: add_mono)

lemma proper_log_mono: "proper_log m k xs \<Longrightarrow> (\<And>v. k v \<le> k' v) \<Longrightarrow> proper_log m k' xs"
  unfolding proper_log_def by (blast intro: order_trans)

lemma proper_log_replicate:
  "proper_call m call \<Longrightarrow> n \<le> n' \<Longrightarrow> proper_log m (\<lambda>v. if asks_for v call then n' else 0) (replicate n call)"
  by (simp add: proper_log_def)

text \<open>The calls that a computation adds to the log.\<close>

definition asks :: "int \<Rightarrow> (u64 \<Rightarrow> nat) \<Rightarrow> backend_call list \<Rightarrow> 'w \<times> backend_call list \<Rightarrow> bool" where
  "asks m k log w' \<longleftrightarrow> (\<exists>new. snd w' = log @ new \<and> proper_log m k new)"

lemma asks_none [simp]: "asks m k log (w, log)"
  by (simp add: asks_def)

lemma asks_trans:
  "asks m k log w1 \<Longrightarrow> asks m k' (snd w1) w2 \<Longrightarrow> (\<And>v. k v + k' v \<le> k'' v) \<Longrightarrow> asks m k'' log w2"
  unfolding asks_def by (metis append_assoc proper_log_append proper_log_mono)

lemma asks_mono: "asks m k log w \<Longrightarrow> (\<And>v. k v \<le> k' v) \<Longrightarrow> asks m k' log w"
  unfolding asks_def using proper_log_mono by blast

lemma retrying_user:
  assumes "retrying enabled (cl_GetUser (recording C) c ids) (w, log) = (q, w')" and "proper_call m (UserCall ids)"
  shows "asks m (\<lambda>_. 0) log w'"
proof -
  obtain n where "snd w' = log @ replicate n (UserCall ids)"
    using assms(1) that [of 1] that [of 2]
    by (auto simp: retrying_def recording_def numeral_2_eq_2 split: prod.splits go_result.splits if_splits)
  then show ?thesis using proper_log_replicate [OF assms(2), of n n] by (auto simp: asks_def)
qed

lemma retrying_video:
  assumes "retrying enabled (cl_GetVideo (recording C) c ids) (w, log) = (q, w')" and "proper_call m (VideoCall ids)"
  shows "asks m (\<lambda>v. if v \<in> set ids then (if enabled then 2 else 1) else 0) log w'"
proof -
  obtain n where "snd w' = log @ replicate n (VideoCall ids)" "n \<le> (if enabled then 2 else 1)"
    using assms(1) that [of 1] that [of 2]
    by (auto simp: retrying_def recording_def numeral_2_eq_2 split: prod.splits go_result.splits if_splits)
  then show ?thesis using proper_log_replicate [OF assms(2), of n] unfolding asks_def by fastforce
qed

section \<open>The two loops\<close>

lemma subscribed_loop_adds:
  assumes "subscribed_loop (recording C) c userId subs i acc server w = Some y"
    and "0 \<le> i" and m: "MaxBatchSize (options server) = m" "0 < m"
  shows "asks m (\<lambda>_. 0) (snd w) (snd (snd y))"
  using assms(1,2)
proof (induction "nat (int (length subs) - i)" arbitrary: i acc w rule: less_induct)
  case less
  show ?case
  proof (cases "i < int (length subs)")
    case True
    note slice = batch_end_cases [OF m(2) less.prems(2) True]
    let ?ids = "take (nat m) (drop (nat i) subs)"
    have proper: "proper_call m (UserCall ?ids)" using slice(2,3) by (simp only: proper_call.simps) simp
    obtain q w1 where q: "retrying True (cl_GetUser (recording C) c ?ids) w = (q, w1)" by (rule prod.exhaust)
    have sent: "asks m (\<lambda>_. 0) (snd w) w1" using retrying_user [OF _ proper] q by (metis prod.collapse)
    note eq = less.prems(1) [unfolded subscribed_loop.simps [of "recording C" c userId subs i]]
    show ?thesis
    proof (cases q)
      case (Return us)
      then have "subscribed_loop (recording C) c userId subs (i + m) (acc @ concat (map ui_LikedVideos us)) server w1 = Some y"
        using eq True m q by (simp add: slice(1))
      then have "asks m (\<lambda>_. 0) (snd w1) (snd (snd y))" by (rule less.hyps [rotated]) (use True less.prems m in simp_all)
      then show ?thesis by (rule asks_trans [OF sent]) simp
    next
      case (Fails st)
      then have "snd (snd y) = w1" using eq True m q by (auto simp: slice(1) user_query_failed_eq)
      then show ?thesis using sent by simp
    qed (use eq True m q sent in \<open>auto simp: slice(1)\<close>)
  next
    case False
    then have "snd (snd y) = w" using less.prems(1) by (auto simp: subscribed_loop.simps [of "recording C" c userId subs i])
    then show ?thesis using asks_none [of m "\<lambda>_. 0" "snd w" "fst w"] by simp
  qed
qed

text \<open>From batch \<open>i\<close> on a video is asked for only if it comes after \<open>i\<close>.\<close>

lemma video_loop_adds:
  assumes "video_loop (recording C) c ids i acc server w = Some y"
    and "0 \<le> i" and m: "MaxBatchSize (options server) = m" "0 < m" and ids: "distinct ids"
  defines "k \<equiv> (if DisableRetry (options server) then 1 else 2 :: nat)"
  shows "asks m (\<lambda>v. if v \<in> set (drop (nat i) ids) then k else 0) (snd w) (snd (snd y))"
  using assms(1,2)
proof (induction "nat (int (length ids) - i)" arbitrary: i acc w rule: less_induct)
  case less
  show ?case
  proof (cases "i < int (length ids)")
    case True
    note slice = batch_end_cases [OF m(2) less.prems(2) True]
    let ?ids = "take (nat m) (drop (nat i) ids)"
    have proper: "proper_call m (VideoCall ?ids)" using slice(2,3) ids by (simp only: proper_call.simps) simp
    obtain q w1 where q: "retrying (\<not> DisableRetry (options server)) (cl_GetVideo (recording C) c ?ids) w = (q, w1)"
      by (rule prod.exhaust)
    have sent: "asks m (\<lambda>v. if v \<in> set ?ids then k else 0) (snd w) w1"
      by (rule asks_mono [OF retrying_video [OF _ proper, of "\<not> DisableRetry (options server)" C c "fst w" "snd w" q]])
        (use q in \<open>simp_all add: k_def\<close>)
    have sent': "asks m (\<lambda>v. if v \<in> set (drop (nat i) ids) then k else 0) (snd w) w1"
      by (rule asks_mono [OF sent]) (use slice(4) in auto)
    note eq = less.prems(1) [unfolded video_loop.simps [of "recording C" c ids i]]
    show ?thesis
    proof (cases q)
      case (Return vs)
      then have "video_loop (recording C) c ids (i + m) (acc @ vs) server w1 = Some y"
        using eq True m q by (simp add: slice(1))
      then have rest: "asks m (\<lambda>v. if v \<in> set (drop (nat (i + m)) ids) then k else 0) (snd w1) (snd (snd y))"
        by (rule less.hyps [rotated]) (use True less.prems m in simp_all)
      have "distinct (?ids @ drop (nat (i + m)) ids)" unfolding slice(5) [symmetric] using ids by simp
      then have apart: "set ?ids \<inter> set (drop (nat (i + m)) ids) = {}" by simp
      have whole: "set (drop (nat i) ids) = set ?ids \<union> set (drop (nat (i + m)) ids)"
        by (subst slice(5)) simp
      show ?thesis by (rule asks_trans [OF sent rest]) (use apart whole in auto)
    next
      case (Fails st)
      then have "snd (snd y) = w1" using eq True m q by (auto simp: slice(1) split: prod.splits)
      then show ?thesis using sent' by simp
    qed (use eq True m q sent' in \<open>auto simp: slice(1)\<close>)
  next
    case False
    then have "snd (snd y) = w" using less.prems(1) by (auto simp: video_loop.simps [of "recording C" c ids i])
    then show ?thesis using asks_none [of m _ "snd w" "fst w"] by simp
  qed
qed

section \<open>A request\<close>

lemma fetch_and_rank_adds:
  assumes "fetch_and_rank (recording C) B sf cs limit ids server w = Some (r, server', w')" and "distinct ids"
    and "0 < MaxBatchSize (options server)"
  shows "asks (MaxBatchSize (options server)) (\<lambda>v. if DisableRetry (options server) then 1 else 2) (snd w) w'"
proof (cases "getNextVideoClient server")
  case (Return p)
  obtain c s1 where p: "p = (c, s1)" by (rule prod.exhaust)
  then have s1: "options s1 = options server" using getNextVideoClient_frame(1) [of server c s1] Return by auto
  obtain q s2 w1 where q: "video_loop (recording C) c ids 0 [] s1 w = Some (q, s2, w1)"
    using assms(1) Return p by (auto simp: fetch_and_rank_def split: option.splits)
  have "w' = w1"
    using assms(1) Return p q by (auto simp: fetch_and_rank_def split: go_result.splits prod.splits)
  then show ?thesis
    using asks_mono [OF video_loop_adds [OF q order_refl refl _ assms(2)]] s1 assms(3) by simp
next
  case (Panics pn)
  then show ?thesis using assms(1) asks_none [of _ _ "snd w" "fst w"] by (simp add: fetch_and_rank_def)
qed (simp_all add: getNextVideoClient_frame)

lemma after_user_adds:
  assumes "after_user (recording C) B sf req c u server w = Some (r, server', w')" and "0 < MaxBatchSize (options server)"
  shows "asks (MaxBatchSize (options server)) (\<lambda>v. if DisableRetry (options server) then 1 else 2) (snd w) w'"
proof -
  obtain q s1 w1 where q: "subscribed_loop (recording C) c (req_UserId req) (ui_SubscribedTo u) 0 [] server w = Some (q, s1, w1)"
    using assms(1) by (auto simp: after_user_def split: option.splits)
  have users: "asks (MaxBatchSize (options server)) (\<lambda>_. 0) (snd w) w1"
    using subscribed_loop_adds [OF q order_refl refl assms(2)] by simp
  show ?thesis
  proof (cases q)
    case (Return ids)
    then have "s1 = server" using subscribed_loop_frame [OF q] by simp
    then have "fetch_and_rank (recording C) B sf (ui_UserCoefficients u) (req_Limit req) (deduplicate_ids ids) server w1 =
        Some (r, server', w')"
      using assms(1) q Return by (simp add: after_user_def)
    from asks_trans [OF users fetch_and_rank_adds [OF this _ assms(2)]] show ?thesis by (simp add: deduplicate_ids_def)
  qed (use assms(1) q asks_mono [OF users] in \<open>auto simp: after_user_def\<close>)
qed

text \<open>
  C10: what a request asks of the backends is bounded. With a positive batch size every call that
  \<open>GetTopVideos\<close> makes names at least one and at most \<open>MaxBatchSize\<close> users or videos, the videos of a
  call are distinct, the trending list is never asked for, and no video is asked for by more than two
  calls of one request, or one with retries disabled: whatever the clients answer, and whether the
  request ends in a response, an error, a panic or not at all.
\<close>
theorem backend_calls_bounded:
  assumes "GetTopVideos (recording C) B sf elapsed req server (w, []) = Some (r, server', w', log)"
    and "0 < MaxBatchSize (options server)"
  shows "(\<forall>call\<in>set log. proper_call (MaxBatchSize (options server)) call) \<and>
    (\<forall>v. length (filter (asks_for v) log) \<le> (if DisableRetry (options server) then 1 else 2))"
proof -
  let ?s = "server\<lparr>totalRequests := totalRequests server + 1, activeRequests := activeRequests server + 1\<rparr>"
  let ?m = "MaxBatchSize (options server)" and ?k = "\<lambda>v :: u64. if DisableRetry (options server) then 1 else 2 :: nat"
  obtain s1 where body: "top_videos_body (recording C) B sf req ?s (w, []) = Some (r, s1, w', log)"
    using GetTopVideos_body [OF assms(1)] by metis
  have "asks ?m ?k [] (w', log)"
  proof (cases "0 \<le> req_Limit req \<and> returns (getNextUserClient ?s)")
    case True
    then obtain c s2 where pick: "getNextUserClient ?s = Return (c, s2)" by (auto elim!: returnsE)
    have s2: "options s2 = options server" using getNextUserClient_frame(1) [OF pick] by auto
    obtain q w1 where q: "retrying (\<not> DisableRetry (options s2)) (cl_GetUser (recording C) c [req_UserId req]) (w, []) = (q, w1)"
      by (rule prod.exhaust)
    have first: "asks ?m (\<lambda>_. 0) [] w1" using retrying_user [OF q] assms(2) by simp
    note body' = body [unfolded top_videos_body_cases [OF conjunct1 [OF True] pick q]]
    show ?thesis
    proof (cases "\<exists>u us. q = Return (u # us)")
      case True
      then obtain u us where "q = Return (u # us)" by blast
      then have "after_user (recording C) B sf req c u s2 w1 = Some (r, s1, w', log)" using body' by simp
      then have "asks ?m ?k (snd w1) (w', log)" using after_user_adds [of C B sf req c u s2 w1 r s1] s2 assms(2) by simp
      then show ?thesis by (rule asks_trans [OF first]) simp
    next
      case False
      then have "(w', log) = w1" using body' by (auto split: go_result.splits list.splits)
      then show ?thesis using asks_mono [OF first, of ?k] by simp
    qed
  next
    case False
    then have "log = []" using body by (auto simp: top_videos_body_def split: go_result.splits if_splits)
    then show ?thesis by simp
  qed
  then show ?thesis by (simp add: asks_def proper_log_def)
qed

theorem backend_calls_bounded_witness:
  "\<exists>r s w log. GetTopVideos (recording down_clients) plain_cipher (\<lambda>_ vs. vs) 5 (demo_request 7) demo_server ((), []) =
       Some (r, s, w, log) \<and>
     length (filter (asks_for 1000) log) \<le> 2"
proof -
  have "0 < MaxBatchSize (options demo_server)" by (simp add: demo_server_def new_server_def demo_options_def)
  moreover obtain r s w log where "GetTopVideos (recording down_clients) plain_cipher (\<lambda>_ vs. vs) 5 (demo_request 7) demo_server ((), []) =
       Some (r, s, w, log)"
    by (simp add: demo_run recording_def)
  ultimately show ?thesis
    using backend_calls_bounded [of down_clients plain_cipher "\<lambda>_ vs. vs" 5 "demo_request 7" demo_server "()" r s w log]
    by (auto simp: demo_server_def new_server_def demo_options_def)
qed

end
