(* ===== verification/VideoRecThreads.thy ===== *)
theory VideoRecThreads
  imports VideoRecProps
begin

text \<open>
  lab1/video_rec_service/server_lib/server_lib.go under concurrent requests: every call of \<open>GetTopVideos\<close>
  is a goroutine of its own beside the goroutine of \<open>ContinuallyRefreshCache\<close>. A step is an atomic
  addition, a critical section of one of the server's mutexes, a call of a client, or an access to the
  array of the cache; clients answer arbitrarily. The cached videos are an array that the refresh
  allocates and the server refers to: a request that falls back sorts that very array.
\<close>

section \<open>State\<close>

text \<open>A slice of videos: an array of the request's own, or one shared through the cache.\<close>

datatype videos_ref = Own "VideoInfo list" | Shared nat

text \<open>How a request ends: with a prefix of a slice and the staleness flag, an error or a panic.\<close>

type_synonym gtv_result = "(videos_ref \<times> nat \<times> bool) outcome"

datatype ('u, 'v) gtv_pc =
    Idle
  | Entered GetTopVideosRequest
  | Validating GetTopVideosRequest
  | AskingUser GetTopVideosRequest 'u bool
  | AskingSubs GetTopVideosRequest 'u UserInfo int "u64 list" bool
  | UserFailed1 gtv_result
  | UserFailed2 gtv_result
  | PickingVideo GetTopVideosRequest UserInfo "u64 list"
  | AskingVideos GetTopVideosRequest 'v UserInfo "u64 list" int "VideoInfo list" bool
  | VideoFailed1 GetTopVideosRequest UserInfo grpc_status
  | VideoFailed2 GetTopVideosRequest UserInfo grpc_status
  | CountingStale GetTopVideosRequest UserInfo grpc_status
  | ReadingCache GetTopVideosRequest UserInfo grpc_status
  | Ranking GetTopVideosRequest UserInfo videos_ref bool nat "VideoInfo \<rightharpoonup> u64"
  | Sorting GetTopVideosRequest nat "VideoInfo \<rightharpoonup> u64" nat nat
  | Loading GetTopVideosRequest nat "VideoInfo \<rightharpoonup> u64" nat nat
  | Storing1 GetTopVideosRequest nat "VideoInfo \<rightharpoonup> u64" nat nat "nat \<times> VideoInfo" "nat \<times> VideoInfo"
  | Storing2 GetTopVideosRequest nat "VideoInfo \<rightharpoonup> u64" nat nat "nat \<times> VideoInfo"
  | Leaving1 gtv_result
  | Leaving2 gtv_result
  | Ended gtv_result

record ('u, 'v) rec_shared =
  srv :: "('u, 'v) VideoRecServiceServer"
  arrays :: "nat \<Rightarrow> VideoInfo list"
  next_array :: nat
  cache :: "nat option"

definition videos_in :: "videos_ref \<Rightarrow> ('u, 'v) rec_shared \<Rightarrow> VideoInfo list" where
  "videos_in ref s = (case ref of Own xs \<Rightarrow> xs | Shared a \<Rightarrow> arrays s a)"

definition cut_length :: "int \<Rightarrow> nat \<Rightarrow> nat" where
  "cut_length limit n = (if limit \<noteq> 0 \<and> limit < int n then nat limit else n)"

section \<open>Steps of a request\<close>

text \<open>The error statuses of the handler.\<close>

definition user_error :: "string \<Rightarrow> grpc_status \<Rightarrow> gtv_result" where
  "user_error prefix st = Fails (Status (st_code st) (prefix @ st_message st))"

definition first_prefix :: "GetTopVideosRequest \<Rightarrow> string" where
  "first_prefix req = ''VideoRecService: error querying UserService for user '' @
     dec_string (unat (req_UserId req)) @ '': ''"

definition subs_prefix :: "GetTopVideosRequest \<Rightarrow> string" where
  "subs_prefix req = ''VideoRecService: error querying UserService for users that user '' @
     dec_string (unat (req_UserId req)) @ '' is subscribed to: ''"

definition next_batch :: "('u, 'v) VideoRecServiceServer \<Rightarrow> int \<Rightarrow> u64 list \<Rightarrow> u64 list outcome" where
  "next_batch sv i xs = reslice xs i (batch_end (MaxBatchSize (options sv)) i xs)"

text \<open>
  Up to the video service. A boolean tells whether the current call is the second attempt; a call that
  blocks is a goroutine that takes no more steps.
\<close>

inductive user_move :: "('u, 'v) gtv_pc \<times> ('u, 'v) rec_shared \<Rightarrow> ('u, 'v) gtv_pc \<times> ('u, 'v) rec_shared \<Rightarrow> bool" where
  enter: "user_move (Idle, s) (Entered req, s\<lparr>srv := (srv s)\<lparr>totalRequests := totalRequests (srv s) + 1\<rparr>\<rparr>)"
| activate: "user_move (Entered req, s) (Validating req, s\<lparr>srv := (srv s)\<lparr>activeRequests := activeRequests (srv s) + 1\<rparr>\<rparr>)"
| invalid: "req_Limit req < 0 \<Longrightarrow> user_move (Validating req, s)
    (Leaving1 (Fails (Status InvalidArgument ''VideoRecService: top videos limit must be nonnegative'')), s)"
| pick_user: "0 \<le> req_Limit req \<Longrightarrow> getNextUserClient (srv s) = Return (c, sv) \<Longrightarrow>
    user_move (Validating req, s) (AskingUser req c False, s\<lparr>srv := sv\<rparr>)"
| pick_user_panics: "0 \<le> req_Limit req \<Longrightarrow> getNextUserClient (srv s) = Panics p \<Longrightarrow>
    user_move (Validating req, s) (Leaving1 (Panics p), s)"
| user_answers: "user_move (AskingUser req c again, s)
    (case users of [] \<Rightarrow> Leaving1 (Panics IndexOutOfRange) | u # _ \<Rightarrow> AskingSubs req c u 0 [] False, s)"
| user_again: "\<not> DisableRetry (options (srv s)) \<Longrightarrow>
    user_move (AskingUser req c False, s) (AskingUser req c True, s)"
| user_fails: "again \<or> DisableRetry (options (srv s)) \<Longrightarrow>
    user_move (AskingUser req c again, s) (UserFailed1 (user_error (first_prefix req) st), s)"
| user_panics: "user_move (AskingUser req c again, s) (Leaving1 (Panics p), s)"
| subs_answered: "i < int (length (ui_SubscribedTo u)) \<Longrightarrow>
    next_batch (srv s) i (ui_SubscribedTo u) = Return ids \<Longrightarrow>
    user_move (AskingSubs req c u i acc again, s)
      (AskingSubs req c u (i + MaxBatchSize (options (srv s))) (acc @ concat (map ui_LikedVideos (infos :: UserInfo list))) False, s)"
| subs_slice_panics: "i < int (length (ui_SubscribedTo u)) \<Longrightarrow>
    next_batch (srv s) i (ui_SubscribedTo u) = Panics p \<Longrightarrow>
    user_move (AskingSubs req c u i acc again, s) (Leaving1 (Panics p), s)"
| subs_again: "i < int (length (ui_SubscribedTo u)) \<Longrightarrow> next_batch (srv s) i (ui_SubscribedTo u) = Return ids \<Longrightarrow>
    user_move (AskingSubs req c u i acc False, s) (AskingSubs req c u i acc True, s)"
| subs_fails: "i < int (length (ui_SubscribedTo u)) \<Longrightarrow> next_batch (srv s) i (ui_SubscribedTo u) = Return ids \<Longrightarrow>
    user_move (AskingSubs req c u i acc True, s) (UserFailed1 (user_error (subs_prefix req) st), s)"
| subs_panics: "i < int (length (ui_SubscribedTo u)) \<Longrightarrow> next_batch (srv s) i (ui_SubscribedTo u) = Return ids \<Longrightarrow>
    user_move (AskingSubs req c u i acc again, s) (Leaving1 (Panics p), s)"
| subs_done: "\<not> i < int (length (ui_SubscribedTo u)) \<Longrightarrow>
    user_move (AskingSubs req c u i acc again, s) (PickingVideo req u (deduplicate_ids acc), s)"
| user_failed1: "user_move (UserFailed1 r, s) (UserFailed2 r, s\<lparr>srv := (srv s)\<lparr>totalErrors := totalErrors (srv s) + 1\<rparr>\<rparr>)"
| user_failed2: "user_move (UserFailed2 r, s)
    (Leaving1 r, s\<lparr>srv := (srv s)\<lparr>userServiceErrors := userServiceErrors (srv s) + 1\<rparr>\<rparr>)"

text \<open>The video service, and the fallback after a failed call.\<close>

definition video_error :: "string \<Rightarrow> grpc_status \<Rightarrow> gtv_result" where
  "video_error what st = Fails (Status (st_code st) (''VideoRecService: error querying VideoService'' @ what @ '': '' @ st_message st))"

inductive video_move :: "('u, 'v) gtv_pc \<times> ('u, 'v) rec_shared \<Rightarrow> ('u, 'v) gtv_pc \<times> ('u, 'v) rec_shared \<Rightarrow> bool" where
  pick_video: "getNextVideoClient (srv s) = Return (c, sv) \<Longrightarrow>
    video_move (PickingVideo req u ids, s) (AskingVideos req c u ids 0 [] False, s\<lparr>srv := sv\<rparr>)"
| pick_video_panics: "getNextVideoClient (srv s) = Panics p \<Longrightarrow>
    video_move (PickingVideo req u ids, s) (Leaving1 (Panics p), s)"
| videos_answered: "i < int (length ids) \<Longrightarrow> next_batch (srv s) i ids = Return batch \<Longrightarrow>
    video_move (AskingVideos req c u ids i acc again, s)
      (AskingVideos req c u ids (i + MaxBatchSize (options (srv s))) (acc @ infos) False, s)"
| videos_slice_panics: "i < int (length ids) \<Longrightarrow> next_batch (srv s) i ids = Panics p \<Longrightarrow>
    video_move (AskingVideos req c u ids i acc again, s) (Leaving1 (Panics p), s)"
| videos_again: "i < int (length ids) \<Longrightarrow> next_batch (srv s) i ids = Return batch \<Longrightarrow>
    \<not> DisableRetry (options (srv s)) \<Longrightarrow>
    video_move (AskingVideos req c u ids i acc False, s) (AskingVideos req c u ids i acc True, s)"
| videos_fail: "i < int (length ids) \<Longrightarrow> next_batch (srv s) i ids = Return batch \<Longrightarrow>
    again \<or> DisableRetry (options (srv s)) \<Longrightarrow>
    video_move (AskingVideos req c u ids i acc again, s) (VideoFailed1 req u st, s)"
| videos_panic: "i < int (length ids) \<Longrightarrow> next_batch (srv s) i ids = Return batch \<Longrightarrow>
    video_move (AskingVideos req c u ids i acc again, s) (Leaving1 (Panics p), s)"
| videos_done: "\<not> i < int (length ids) \<Longrightarrow>
    video_move (AskingVideos req c u ids i acc again, s) (Ranking req u (Own acc) False 0 Map.empty, s)"
| video_failed1: "video_move (VideoFailed1 req u st, s)
    (VideoFailed2 req u st, s\<lparr>srv := (srv s)\<lparr>totalErrors := totalErrors (srv s) + 1\<rparr>\<rparr>)"
| video_failed2: "video_move (VideoFailed2 req u st, s)
    (if DisableFallback (options (srv s)) then Leaving1 (video_error [] st) else CountingStale req u st,
     s\<lparr>srv := (srv s)\<lparr>videoServiceErrors := videoServiceErrors (srv s) + 1\<rparr>\<rparr>)"
| counted_stale: "video_move (CountingStale req u st, s)
    (ReadingCache req u st, s\<lparr>srv := (srv s)\<lparr>staleResponses := staleResponses (srv s) + 1\<rparr>\<rparr>)"
| read_cache: "cache s = Some a \<Longrightarrow> arrays s a \<noteq> [] \<Longrightarrow>
    video_move (ReadingCache req u st, s) (Ranking req u (Shared a) True 0 Map.empty, s)"
| no_cache: "cache s = None \<or> (\<exists>a. cache s = Some a \<and> arrays s a = []) \<Longrightarrow>
    video_move (ReadingCache req u st, s) (Leaving1 (video_error '', no cached videos'' st), s)"

text \<open>
  Ranking reads the slice element by element. Sorting an array of the request's own is one step, since
  nobody else sees it. Sorting the shared array writes by exchanging two elements, as every write of
  \<open>slices.SortFunc\<close> does: both are loaded, then stored one after the other. Up to 12 elements it is an
  insertion sort, whose loop variables are \<open>i\<close> and \<open>j\<close>; for longer arrays, which it sorts by quicksort,
  any exchanges may happen before the sort returns.
\<close>

inductive sort_move :: "'c blowfish \<Rightarrow> ((VideoInfo \<Rightarrow> VideoInfo \<Rightarrow> int) \<Rightarrow> VideoInfo list \<Rightarrow> VideoInfo list) \<Rightarrow>
    ('u, 'v) gtv_pc \<times> ('u, 'v) rec_shared \<Rightarrow> ('u, 'v) gtv_pc \<times> ('u, 'v) rec_shared \<Rightarrow> bool"
  for B sf where
  rank_one: "k < length (videos_in ref s) \<Longrightarrow>
    Rank B (ui_UserCoefficients u) (vi_VideoCoefficients (videos_in ref s ! k)) = Return r \<Longrightarrow>
    sort_move B sf (Ranking req u ref stale k m, s) (Ranking req u ref stale (Suc k) (m(videos_in ref s ! k \<mapsto> r)), s)"
| rank_panics: "k < length (videos_in ref s) \<Longrightarrow>
    Rank B (ui_UserCoefficients u) (vi_VideoCoefficients (videos_in ref s ! k)) = Panics p \<Longrightarrow>
    sort_move B sf (Ranking req u ref stale k m, s) (Leaving1 (Panics p), s)"
| sort_own: "\<not> k < length xs \<Longrightarrow>
    sort_move B sf (Ranking req u (Own xs) stale k m, s)
      (Leaving1 (Return (Own (sf (cmp_rank m) xs), cut_length (req_Limit req) (length xs), stale)), s)"
| sort_shared: "\<not> k < length (arrays s a) \<Longrightarrow>
    sort_move B sf (Ranking req u (Shared a) stale k m, s) (Sorting req a m 1 1, s)"
| compare_swap: "length (arrays s a) \<le> 12 \<Longrightarrow> i < length (arrays s a) \<Longrightarrow> 0 < j \<Longrightarrow>
    cmp_rank m (arrays s a ! j) (arrays s a ! (j - 1)) < 0 \<Longrightarrow>
    sort_move B sf (Sorting req a m i j, s) (Loading req a m i j, s)"
| compare_stop: "length (arrays s a) \<le> 12 \<Longrightarrow> i < length (arrays s a) \<Longrightarrow>
    j = 0 \<or> \<not> cmp_rank m (arrays s a ! j) (arrays s a ! (j - 1)) < 0 \<Longrightarrow>
    sort_move B sf (Sorting req a m i j, s) (Sorting req a m (Suc i) (Suc i), s)"
| load: "sort_move B sf (Loading req a m i j, s)
    (Storing1 req a m i (j - 1) (j, arrays s a ! (j - 1)) (j - 1, arrays s a ! j), s)"
| load_any: "12 < length (arrays s a) \<Longrightarrow> p < length (arrays s a) \<Longrightarrow> q < length (arrays s a) \<Longrightarrow>
    sort_move B sf (Sorting req a m i j, s) (Storing1 req a m i j (p, arrays s a ! q) (q, arrays s a ! p), s)"
| store1: "sort_move B sf (Storing1 req a m i j (p, x) next2, s)
    (Storing2 req a m i j next2, s\<lparr>arrays := (arrays s)(a := (arrays s a)[p := x])\<rparr>)"
| store2: "sort_move B sf (Storing2 req a m i j (q, y), s)
    (Sorting req a m i j, s\<lparr>arrays := (arrays s)(a := (arrays s a)[q := y])\<rparr>)"
| sorted_shared: "12 < length (arrays s a) \<or> \<not> i < length (arrays s a) \<Longrightarrow>
    sort_move B sf (Sorting req a m i j, s)
      (Leaving1 (Return (Shared a, cut_length (req_Limit req) (length (arrays s a)), True)), s)"

text \<open>The deferred functions, last in first out; \<open>elapsed\<close> is what the clock says.\<close>

inductive leave_move :: "('u, 'v) gtv_pc \<times> ('u, 'v) rec_shared \<Rightarrow> ('u, 'v) gtv_pc \<times> ('u, 'v) rec_shared \<Rightarrow> bool" where
  add_time: "leave_move (Leaving1 r, s) (Leaving2 r, s\<lparr>srv := (srv s)\<lparr>totalTimeMs := totalTimeMs (srv s) + elapsed\<rparr>\<rparr>)"
| deactivate: "leave_move (Leaving2 r, s) (Ended r, s\<lparr>srv := (srv s)\<lparr>activeRequests := activeRequests (srv s) + not 0\<rparr>\<rparr>)"

definition gtv_move :: "'c blowfish \<Rightarrow> ((VideoInfo \<Rightarrow> VideoInfo \<Rightarrow> int) \<Rightarrow> VideoInfo list \<Rightarrow> VideoInfo list) \<Rightarrow>
    ('u, 'v) gtv_pc \<times> ('u, 'v) rec_shared \<Rightarrow> ('u, 'v) gtv_pc \<times> ('u, 'v) rec_shared \<Rightarrow> bool" where
  "gtv_move B sf p q \<longleftrightarrow> user_move p q \<or> video_move p q \<or> sort_move B sf p q \<or> leave_move p q"

section \<open>The server\<close>

datatype 'v refresh_pc = Pausing | AskingTrending 'v | AskingTrendingVideos 'v

record ('u, 'v) rec_sys =
  shared :: "('u, 'v) rec_shared"
  reqs :: "nat \<Rightarrow> ('u, 'v) gtv_pc"
  refresher :: "'v refresh_pc"

text \<open>
  The refresh runs unless fallback is disabled; a failed call or an installed list is followed by a
  pause. The lists it receives consist of videos of the set \<open>T\<close>.
\<close>

inductive refresh_move :: "VideoInfo set \<Rightarrow> 'v refresh_pc \<times> ('u, 'v) rec_shared \<Rightarrow> 'v refresh_pc \<times> ('u, 'v) rec_shared \<Rightarrow> bool"
  for T where
  wake: "\<not> DisableFallback (options (srv s)) \<Longrightarrow> getNextVideoClient (srv s) = Return (c, sv) \<Longrightarrow>
    refresh_move T (Pausing, s) (AskingTrending c, s\<lparr>srv := sv\<rparr>)"
| trending: "refresh_move T (AskingTrending c, s) (AskingTrendingVideos c, s)"
| no_trending: "refresh_move T (AskingTrending c, s) (Pausing, s)"
| no_videos: "refresh_move T (AskingTrendingVideos c, s) (Pausing, s)"
| install_videos: "set infos \<subseteq> T \<Longrightarrow>
    refresh_move T (AskingTrendingVideos c, s)
      (Pausing, s\<lparr>arrays := (arrays s)(next_array s := infos), next_array := Suc (next_array s), cache := Some (next_array s)\<rparr>)"

inductive rec_step :: "'c blowfish \<Rightarrow> ((VideoInfo \<Rightarrow> VideoInfo \<Rightarrow> int) \<Rightarrow> VideoInfo list \<Rightarrow> VideoInfo list) \<Rightarrow> VideoInfo set \<Rightarrow>
    ('u, 'v) rec_sys \<Rightarrow> ('u, 'v) rec_sys \<Rightarrow> bool"
  for B sf T where
  request: "gtv_move B sf (reqs s g, shared s) (pc, sh) \<Longrightarrow>
    rec_step B sf T s (s\<lparr>reqs := (reqs s)(g := pc), shared := sh\<rparr>)"
| refresh: "refresh_move T (refresher s, shared s) (rp, sh) \<Longrightarrow>
    rec_step B sf T s (s\<lparr>refresher := rp, shared := sh\<rparr>)"

definition rec_init :: "('u, 'v) VideoRecServiceServer \<Rightarrow> ('u, 'v) rec_sys" where
  "rec_init sv = \<lparr>shared = \<lparr>srv = sv, arrays = (\<lambda>_. []), next_array = 0, cache = None\<rparr>, reqs = (\<lambda>_. Idle),
     refresher = Pausing\<rparr>"

inductive rec_reach :: "'c blowfish \<Rightarrow> ((VideoInfo \<Rightarrow> VideoInfo \<Rightarrow> int) \<Rightarrow> VideoInfo list \<Rightarrow> VideoInfo list) \<Rightarrow> VideoInfo set \<Rightarrow>
    ('u, 'v) VideoRecServiceServer \<Rightarrow> ('u, 'v) rec_sys \<Rightarrow> bool"
  for B sf T sv where
  start: "rec_reach B sf T sv (rec_init sv)"
| more: "rec_reach B sf T sv s \<Longrightarrow> rec_step B sf T s t \<Longrightarrow> rec_reach B sf T sv t"

inductive_cases user_moveE: "user_move (pc, s) (pc', s')"
inductive_cases video_moveE: "video_move (pc, s) (pc', s')"
inductive_cases sort_moveE: "sort_move B sf (pc, s) (pc', s')"
inductive_cases leave_moveE: "leave_move (pc, s) (pc', s')"
inductive_cases refresh_moveE: "refresh_move T (pc, s) (pc', s')"

section \<open>What the counters count\<close>

definition entered :: "('u, 'v) gtv_pc \<Rightarrow> bool" where
  "entered pc = (case pc of Idle \<Rightarrow> False | _ \<Rightarrow> True)"

definition active :: "('u, 'v) gtv_pc \<Rightarrow> bool" where
  "active pc = (case pc of Idle \<Rightarrow> False | Entered _ \<Rightarrow> False | Ended _ \<Rightarrow> False | _ \<Rightarrow> True)"

text \<open>Between the two additions for a failed query.\<close>

definition half_counted :: "('u, 'v) gtv_pc \<Rightarrow> bool" where
  "half_counted pc = (case pc of UserFailed2 _ \<Rightarrow> True | VideoFailed2 _ _ _ \<Rightarrow> True | _ \<Rightarrow> False)"

text \<open>
  Which service a result blames: its error message says so. A request that is on its way with stale
  videos, or has left with them, has been blamed on the video service without an error.
\<close>

fun starts_with :: "string \<Rightarrow> string \<Rightarrow> bool" where
  "starts_with [] ys \<longleftrightarrow> True"
| "starts_with (x # xs) [] \<longleftrightarrow> False"
| "starts_with (x # xs) (y # ys) \<longleftrightarrow> x = y \<and> starts_with xs ys"

definition blames :: "string \<Rightarrow> gtv_result \<Rightarrow> bool" where
  "blames start r = (case r of Fails st \<Rightarrow> starts_with start (st_message st) | _ \<Rightarrow> False)"

definition blames_users :: "gtv_result \<Rightarrow> bool" where
  "blames_users r = blames ''VideoRecService: error querying UserService'' r"

definition blames_videos :: "gtv_result \<Rightarrow> bool" where
  "blames_videos r = blames ''VideoRecService: error querying VideoService'' r"

definition found_no_cache :: "gtv_result \<Rightarrow> bool" where
  "found_no_cache r = blames ''VideoRecService: error querying VideoService, no cached videos'' r"

definition stale_answer :: "gtv_result \<Rightarrow> bool" where
  "stale_answer r = (case r of Return (_, _, stale) \<Rightarrow> stale | _ \<Rightarrow> False)"

text \<open>The requests that each of the other three counters has counted.\<close>

definition user_counted :: "('u, 'v) gtv_pc \<Rightarrow> bool" where
  "user_counted pc = (case pc of
     Leaving1 r \<Rightarrow> blames_users r | Leaving2 r \<Rightarrow> blames_users r | Ended r \<Rightarrow> blames_users r | _ \<Rightarrow> False)"

fun video_counted :: "('u, 'v) gtv_pc \<Rightarrow> bool" where
  "video_counted (CountingStale req u st) \<longleftrightarrow> True"
| "video_counted (ReadingCache req u st) \<longleftrightarrow> True"
| "video_counted (Ranking req u ref stale k m) \<longleftrightarrow> stale"
| "video_counted (Sorting req a m i j) \<longleftrightarrow> True"
| "video_counted (Loading req a m i j) \<longleftrightarrow> True"
| "video_counted (Storing1 req a m i j next1 next2) \<longleftrightarrow> True"
| "video_counted (Storing2 req a m i j next2) \<longleftrightarrow> True"
| "video_counted (Leaving1 r) \<longleftrightarrow> blames_videos r \<or> stale_answer r"
| "video_counted (Leaving2 r) \<longleftrightarrow> blames_videos r \<or> stale_answer r"
| "video_counted (Ended r) \<longleftrightarrow> blames_videos r \<or> stale_answer r"
| "video_counted _ \<longleftrightarrow> False"

fun stale_counted :: "('u, 'v) gtv_pc \<Rightarrow> bool" where
  "stale_counted (CountingStale req u st) \<longleftrightarrow> False"
| "stale_counted (Leaving1 r) \<longleftrightarrow> found_no_cache r \<or> stale_answer r"
| "stale_counted (Leaving2 r) \<longleftrightarrow> found_no_cache r \<or> stale_answer r"
| "stale_counted (Ended r) \<longleftrightarrow> found_no_cache r \<or> stale_answer r"
| "stale_counted pc \<longleftrightarrow> video_counted pc"

lemmas phase_simps = entered_def active_def half_counted_def user_counted_def

lemmas blames_simps = blames_users_def blames_videos_def found_no_cache_def

lemma blames_nobody [simp]:
  "\<not> blames_users (Return x)" "\<not> blames_videos (Return x)" "\<not> found_no_cache (Return x)"
  "\<not> blames_users (Panics p)" "\<not> blames_videos (Panics p)" "\<not> found_no_cache (Panics p)"
  "\<not> blames_users Blocks"
  "\<not> blames_users (Fails (Status c ''VideoRecService: top videos limit must be nonnegative''))"
  "\<not> blames_videos (Fails (Status c ''VideoRecService: top videos limit must be nonnegative''))"
  "\<not> found_no_cache (Fails (Status c ''VideoRecService: top videos limit must be nonnegative''))"
  by (simp_all add: blames_simps blames_def)

lemma stale_answer_simps [simp]:
  "stale_answer (Return (ref, n, stale)) = stale" "\<not> stale_answer (Fails st)" "\<not> stale_answer (Panics p)"
  by (simp_all add: stale_answer_def)

lemma user_error_blames [simp]:
  "blames_users (user_error (first_prefix req) st)" "blames_users (user_error (subs_prefix req) st)"
  by (simp_all add: blames_simps blames_def user_error_def first_prefix_def subs_prefix_def)

lemma video_error_blames [simp]:
  "blames_videos (video_error what st)" "\<not> blames_users (video_error what st)" "\<not> stale_answer (video_error what st)"
  "\<not> found_no_cache (video_error [] st)" "found_no_cache (video_error '', no cached videos'' st)"
  by (simp_all add: blames_simps blames_def video_error_def)

lemma blames_users_only:
  assumes "blames_users r"
  shows "\<not> blames_videos r" and "\<not> found_no_cache r" and "\<not> stale_answer r"
proof -
  obtain st where r: "r = Fails st" using assms by (cases r) simp_all
  have "starts_with ''VideoRecService: error querying UserService'' msg \<Longrightarrow>
      \<not> starts_with (''VideoRecService: error querying V'' @ rest) msg" for msg rest
    by (auto elim!: starts_with.elims)
  then show "\<not> blames_videos r" "\<not> found_no_cache r" "\<not> stale_answer r"
    using assms r by (simp_all add: blames_simps blames_def)
qed

section \<open>What the arrays hold\<close>

text \<open>\<open>H\<close> gives the videos that an array may hold: those it was installed with.\<close>

definition arrays_ok :: "(nat \<Rightarrow> VideoInfo set) \<Rightarrow> ('u, 'v) rec_shared \<Rightarrow> bool" where
  "arrays_ok H s \<longleftrightarrow> (\<forall>a<next_array s. set (arrays s a) \<subseteq> H a) \<and> (\<forall>a. cache s = Some a \<longrightarrow> a < next_array s)"

text \<open>A slice that a request holds: its own if its response is fresh, an installed array if it is stale.\<close>

definition ref_ok :: "('u, 'v) rec_shared \<Rightarrow> videos_ref \<Rightarrow> bool \<Rightarrow> bool" where
  "ref_ok s ref stale = (case ref of Own _ \<Rightarrow> \<not> stale | Shared a \<Rightarrow> stale \<and> a < next_array s)"

definition result_ok :: "('u, 'v) rec_shared \<Rightarrow> gtv_result \<Rightarrow> bool" where
  "result_ok s r = (case r of Return (ref, n, stale) \<Rightarrow> ref_ok s ref stale \<and> n \<le> length (videos_in ref s) | _ \<Rightarrow> True)"

definition store_in :: "(nat \<Rightarrow> VideoInfo set) \<Rightarrow> ('u, 'v) rec_shared \<Rightarrow> nat \<Rightarrow> nat \<times> VideoInfo \<Rightarrow> bool" where
  "store_in H s a = (\<lambda>(p, x). p < length (arrays s a) \<and> x \<in> H a)"

text \<open>
  Every access to a shared array is within it, and only its own elements are written to it; what is being
  counted as a failure of the user service is one.
\<close>

fun pc_ok :: "(nat \<Rightarrow> VideoInfo set) \<Rightarrow> ('u, 'v) rec_shared \<Rightarrow> ('u, 'v) gtv_pc \<Rightarrow> bool" where
  "pc_ok H s (Ranking req u ref stale k m) \<longleftrightarrow> ref_ok s ref stale"
| "pc_ok H s (Sorting req a m i j) \<longleftrightarrow> a < next_array s \<and> j \<le> i"
| "pc_ok H s (Loading req a m i j) \<longleftrightarrow> a < next_array s \<and> j \<le> i \<and> i < length (arrays s a)"
| "pc_ok H s (Storing1 req a m i j next1 next2) \<longleftrightarrow>
     a < next_array s \<and> j \<le> i \<and> store_in H s a next1 \<and> store_in H s a next2"
| "pc_ok H s (Storing2 req a m i j next2) \<longleftrightarrow> a < next_array s \<and> j \<le> i \<and> store_in H s a next2"
| "pc_ok H s (UserFailed1 r) \<longleftrightarrow> blames_users r"
| "pc_ok H s (UserFailed2 r) \<longleftrightarrow> blames_users r"
| "pc_ok H s (Leaving1 r) \<longleftrightarrow> result_ok s r"
| "pc_ok H s (Leaving2 r) \<longleftrightarrow> result_ok s r"
| "pc_ok H s (Ended r) \<longleftrightarrow> result_ok s r"
| "pc_ok H s _ \<longleftrightarrow> True"

section \<open>What a step adds to the counters\<close>

text \<open>What the two service error counters do not account for.\<close>

definition unsplit_errors :: "('u, 'v) VideoRecServiceServer \<Rightarrow> u64" where
  "unsplit_errors sv = totalErrors sv - userServiceErrors sv - videoServiceErrors sv"

text \<open>One equation per counter, kept by every kind of step.\<close>

definition counts :: "('u, 'v) gtv_pc \<Rightarrow> ('u, 'v) rec_shared \<Rightarrow> ('u, 'v) gtv_pc \<Rightarrow> ('u, 'v) rec_shared \<Rightarrow> bool" where
  "counts pc s pc' s' \<longleftrightarrow>
     totalRequests (srv s') = totalRequests (srv s) + of_bool (entered pc') - of_bool (entered pc) \<and>
     activeRequests (srv s') = activeRequests (srv s) + of_bool (active pc') - of_bool (active pc) \<and>
     unsplit_errors (srv s') = unsplit_errors (srv s) + of_bool (half_counted pc') - of_bool (half_counted pc) \<and>
     userServiceErrors (srv s') = userServiceErrors (srv s) + of_bool (user_counted pc') - of_bool (user_counted pc) \<and>
     videoServiceErrors (srv s') = videoServiceErrors (srv s) + of_bool (video_counted pc') - of_bool (video_counted pc) \<and>
     staleResponses (srv s') = staleResponses (srv s) + of_bool (stale_counted pc') - of_bool (stale_counted pc) \<and>
     options (srv s') = options (srv s) \<and> (pool_ok (srv s) \<longrightarrow> pool_ok (srv s'))"

lemma pool_ok_counters [simp]:
  "pool_ok (sv\<lparr>totalRequests := n\<rparr>) = pool_ok sv" "pool_ok (sv\<lparr>activeRequests := n\<rparr>) = pool_ok sv"
  "pool_ok (sv\<lparr>totalErrors := n\<rparr>) = pool_ok sv" "pool_ok (sv\<lparr>userServiceErrors := n\<rparr>) = pool_ok sv"
  "pool_ok (sv\<lparr>videoServiceErrors := n\<rparr>) = pool_ok sv" "pool_ok (sv\<lparr>totalTimeMs := n\<rparr>) = pool_ok sv"
  "pool_ok (sv\<lparr>staleResponses := n\<rparr>) = pool_ok sv"
  by (simp_all add: pool_ok_def)

lemma picked_user:
  assumes "getNextUserClient sv = Return (c, sv')"
  shows "\<exists>i. sv' = sv\<lparr>userServiceIdx := i\<rparr>" and "pool_ok sv \<Longrightarrow> pool_ok sv'"
  using getNextUserClient_frame(1) [OF assms] getNextUserClient_ok [of sv] assms by auto

lemma picked_video:
  assumes "getNextVideoClient sv = Return (c, sv')"
  shows "\<exists>i. sv' = sv\<lparr>videoServiceIdx := i\<rparr>" and "pool_ok sv \<Longrightarrow> pool_ok sv'"
  using getNextVideoClient_frame(1) [OF assms] getNextVideoClient_ok [of sv] assms by auto

lemma counts_frame:
  "entered pc' = entered pc \<Longrightarrow> active pc' = active pc \<Longrightarrow> half_counted pc' = half_counted pc \<Longrightarrow>
   user_counted pc' = user_counted pc \<Longrightarrow> video_counted pc' = video_counted pc \<Longrightarrow>
   stale_counted pc' = stale_counted pc \<Longrightarrow> counts pc s pc' s"
  by (simp add: counts_def)

lemma counts_user_pick:
  assumes "getNextUserClient (srv s) = Return (c, sv)"
  shows "counts (Validating req) s (AskingUser req c False) (s\<lparr>srv := sv\<rparr>)"
  using picked_user [OF assms] by (auto simp: counts_def unsplit_errors_def phase_simps)

lemma counts_video_pick:
  assumes "getNextVideoClient (srv s) = Return (c, sv)"
  shows "counts (PickingVideo req u ids) s (AskingVideos req c u ids 0 [] False) (s\<lparr>srv := sv\<rparr>)"
  using picked_video [OF assms] by (auto simp: counts_def unsplit_errors_def phase_simps)

lemma user_move_counts:
  assumes "user_move (pc, s) (pc', s')" and "pc_ok H s pc"
  shows "counts pc s pc' s'"
  by (rule user_moveE [OF assms(1)]; hypsubst?)
    (use assms(2) in \<open>auto simp: phase_simps counts_user_pick blames_users_only split: list.splits intro!: counts_frame\<close>,
     use assms(2) in \<open>auto simp: counts_def unsplit_errors_def phase_simps blames_users_only\<close>)

lemma video_move_counts:
  assumes "video_move (pc, s) (pc', s')"
  shows "counts pc s pc' s'"
  by (rule video_moveE [OF assms]; hypsubst?)
    (auto simp: phase_simps counts_video_pick intro!: counts_frame, auto simp: counts_def unsplit_errors_def phase_simps)

lemma sort_move_counts:
  assumes "sort_move B sf (pc, s) (pc', s')" and "pc_ok H s pc" and B: "blowfish_ok B"
  shows "counts pc s pc' s'"
proof -
  have "\<not> (\<exists>u v p. Rank B u v = Panics p)" using Rank_Return [OF B] by (metis go_result.distinct(3))
  then show ?thesis
    by - (rule sort_moveE [OF assms(1)]; hypsubst?; use assms(2) in \<open>auto simp: counts_def unsplit_errors_def phase_simps ref_ok_def\<close>)
qed

lemma leave_move_counts:
  assumes "leave_move (pc, s) (pc', s')"
  shows "counts pc s pc' s'"
  by (rule leave_moveE [OF assms]; hypsubst?) (auto simp: counts_def unsplit_errors_def phase_simps)

lemma gtv_move_counts:
  assumes "gtv_move B sf (pc, s) (pc', s')" and "pc_ok H s pc" and "blowfish_ok B"
  shows "counts pc s pc' s'"
  using assms(1) user_move_counts [OF _ assms(2)] video_move_counts sort_move_counts [OF _ assms(2,3)] leave_move_counts
  unfolding gtv_move_def by blast

section \<open>What the requests keep of the arrays\<close>

text \<open>Arrays are never freed and keep their length.\<close>

definition grows :: "('u, 'v) rec_shared \<Rightarrow> ('u, 'v) rec_shared \<Rightarrow> bool" where
  "grows s s' \<longleftrightarrow> next_array s \<le> next_array s' \<and> (\<forall>a<next_array s. length (arrays s' a) = length (arrays s a))"

lemma grows_refl [simp]: "grows s s" "grows s (s\<lparr>srv := sv\<rparr>)"
  by (simp_all add: grows_def)

lemma grows_store [simp]: "grows s (s\<lparr>arrays := (arrays s)(a := (arrays s a)[p := x])\<rparr>)"
  by (simp add: grows_def)

lemma ref_ok_grows: "grows s s' \<Longrightarrow> ref_ok s ref stale \<Longrightarrow> ref_ok s' ref stale"
  by (auto simp: ref_ok_def grows_def split: videos_ref.splits)

lemma result_ok_grows: "grows s s' \<Longrightarrow> result_ok s r \<Longrightarrow> result_ok s' r"
  by (auto simp: result_ok_def ref_ok_def grows_def videos_in_def split: go_result.splits videos_ref.splits)

lemma store_in_grows: "grows s s' \<Longrightarrow> a < next_array s \<Longrightarrow> store_in H s a e \<Longrightarrow> store_in H s' a e"
  by (auto simp: store_in_def grows_def)

lemma pc_ok_grows:
  assumes "grows s s'" and "pc_ok H s pc"
  shows "pc_ok H s' pc"
proof -
  have "a < next_array s \<Longrightarrow> a < next_array s' \<and> length (arrays s' a) = length (arrays s a)" for a
    using assms(1) by (auto simp: grows_def)
  then show ?thesis
    using assms(2) ref_ok_grows [OF assms(1)] result_ok_grows [OF assms(1)] store_in_grows [OF assms(1)]
    by (cases pc) auto
qed

text \<open>What a step of a request keeps.\<close>

definition keeps :: "(nat \<Rightarrow> VideoInfo set) \<Rightarrow> ('u, 'v) rec_shared \<Rightarrow> ('u, 'v) gtv_pc \<Rightarrow> ('u, 'v) rec_shared \<Rightarrow> bool" where
  "keeps H s pc' s' \<longleftrightarrow> grows s s' \<and> next_array s' = next_array s \<and> arrays_ok H s' \<and> pc_ok H s' pc'"

lemma arrays_ok_srv [simp]: "arrays_ok H (s\<lparr>srv := sv\<rparr>) = arrays_ok H s"
  by (simp add: arrays_ok_def)

lemma ref_ok_srv [simp]: "ref_ok (s\<lparr>srv := sv\<rparr>) = ref_ok s"
  by (simp add: ref_ok_def fun_eq_iff split: videos_ref.splits)

lemma result_ok_srv [simp]: "result_ok (s\<lparr>srv := sv\<rparr>) = result_ok s"
  by (simp add: result_ok_def videos_in_def fun_eq_iff split: go_result.splits videos_ref.splits)

lemma result_ok_errors [simp]: "result_ok s (Fails st)" "result_ok s (Panics p)" "result_ok s (user_error prefix st)"
    "result_ok s (video_error what st)"
  by (simp_all add: result_ok_def user_error_def video_error_def)

lemma blames_users_result_ok: "blames_users r \<Longrightarrow> result_ok s r"
  by (cases r) simp_all

lemma user_move_keeps:
  assumes "user_move (pc, s) (pc', s')" and "arrays_ok H s" and "pc_ok H s pc"
  shows "keeps H s pc' s'"
  by (rule user_moveE [OF assms(1)]; hypsubst?) (use assms(2,3) in \<open>auto simp: keeps_def blames_users_result_ok split: list.splits\<close>)

lemma video_move_keeps:
  assumes "video_move (pc, s) (pc', s')" and "arrays_ok H s" and "pc_ok H s pc"
  shows "keeps H s pc' s'"
  by (rule video_moveE [OF assms(1)]; hypsubst?)
    (use assms(2,3) in \<open>auto simp: keeps_def ref_ok_def arrays_ok_def\<close>)

lemma leave_move_keeps:
  assumes "leave_move (pc, s) (pc', s')" and "arrays_ok H s" and "pc_ok H s pc"
  shows "keeps H s pc' s'"
  by (rule leave_moveE [OF assms(1)]; hypsubst?) (use assms(2,3) in \<open>auto simp: keeps_def\<close>)

lemma cut_length_le: "cut_length limit n \<le> n"
  by (auto simp: cut_length_def)

lemma arrays_ok_store:
  "arrays_ok H s \<Longrightarrow> a < next_array s \<Longrightarrow> x \<in> H a \<Longrightarrow> arrays_ok H (s\<lparr>arrays := (arrays s)(a := (arrays s a)[p := x])\<rparr>)"
  unfolding arrays_ok_def using set_update_subset_insert [of "arrays s a" p x] by auto

lemma arrays_ok_nth: "arrays_ok H s \<Longrightarrow> a < next_array s \<Longrightarrow> p < length (arrays s a) \<Longrightarrow> arrays s a ! p \<in> H a"
  unfolding arrays_ok_def by (meson nth_mem subsetD)

lemma sort_move_keeps:
  assumes "sort_move B sf (pc, s) (pc', s')" and ok: "arrays_ok H s" "pc_ok H s pc" and sf: "sort_ok sf"
  shows "keeps H s pc' s'"
proof (rule sort_moveE [OF assms(1)]; hypsubst?)
  fix k xs req m u stale
  assume "pc = Ranking req u (Own xs) stale k m"
  moreover have "length (sf (cmp_rank m) xs) = length xs"
    using sf cmp_rank_weak_order [of m] unfolding sort_ok_def by (metis size_mset)
  ultimately show "keeps H s (Leaving1 (Return (Own (sf (cmp_rank m) xs), cut_length (req_Limit req) (length xs), stale))) s"
    using ok by (simp add: keeps_def result_ok_def ref_ok_def videos_in_def cut_length_le)
qed (use ok arrays_ok_nth [OF ok(1)] arrays_ok_store [OF ok(1)] in
  \<open>auto simp: keeps_def store_in_def result_ok_def videos_in_def ref_ok_def cut_length_le\<close>)

lemma gtv_move_keeps:
  assumes "gtv_move B sf (pc, s) (pc', s')" and "arrays_ok H s" and "pc_ok H s pc" and "sort_ok sf"
  shows "keeps H s pc' s'"
  using assms(1) user_move_keeps [OF _ assms(2,3)] video_move_keeps [OF _ assms(2,3)]
    sort_move_keeps [OF _ assms(2-4)] leave_move_keeps [OF _ assms(2,3)]
  unfolding gtv_move_def by blast

section \<open>Every reachable state\<close>

definition rec_inv :: "(nat \<Rightarrow> VideoInfo set) \<Rightarrow> ('u, 'v) rec_sys \<Rightarrow> bool" where
  "rec_inv H s \<longleftrightarrow>
     pool_ok (srv (shared s)) \<and> arrays_ok H (shared s) \<and> (\<forall>g. pc_ok H (shared s) (reqs s g)) \<and>
     finite {g. entered (reqs s g)} \<and>
     totalRequests (srv (shared s)) = of_nat (card {g. entered (reqs s g)}) \<and>
     activeRequests (srv (shared s)) = of_nat (card {g. active (reqs s g)}) \<and>
     unsplit_errors (srv (shared s)) = of_nat (card {g. half_counted (reqs s g)}) \<and>
     userServiceErrors (srv (shared s)) = of_nat (card {g. user_counted (reqs s g)}) \<and>
     videoServiceErrors (srv (shared s)) = of_nat (card {g. video_counted (reqs s g)}) \<and>
     staleResponses (srv (shared s)) = of_nat (card {g. stale_counted (reqs s g)})"

lemma phases_entered:
  "active pc \<Longrightarrow> entered pc" "half_counted pc \<Longrightarrow> entered pc" "user_counted pc \<Longrightarrow> entered pc"
  "video_counted pc \<Longrightarrow> entered pc" "stale_counted pc \<Longrightarrow> entered pc"
  by (cases pc; simp add: phase_simps)+

lemma rec_inv_finite:
  assumes "rec_inv H s"
  shows "finite {g. active (reqs s g)}" and "finite {g. half_counted (reqs s g)}"
    and "finite {g. user_counted (reqs s g)}" and "finite {g. video_counted (reqs s g)}"
    and "finite {g. stale_counted (reqs s g)}"
proof -
  have fin: "finite {g. entered (reqs s g)}" using assms by (simp add: rec_inv_def)
  show "finite {g. active (reqs s g)}" "finite {g. half_counted (reqs s g)}" "finite {g. user_counted (reqs s g)}"
    "finite {g. video_counted (reqs s g)}" "finite {g. stale_counted (reqs s g)}"
    by (rule finite_subset [OF _ fin], use phases_entered in blast)+
qed

lemma rec_inv_request:
  assumes inv: "rec_inv H s" and move: "gtv_move B sf (reqs s g, shared s) (pc, sh)"
    and sf: "sort_ok sf" and B: "blowfish_ok B"
  shows "rec_inv H (s\<lparr>reqs := (reqs s)(g := pc), shared := sh\<rparr>)" and "grows (shared s) sh"
    and "next_array sh = next_array (shared s)"
proof -
  have ok: "pool_ok (srv (shared s))" "arrays_ok H (shared s)" and pcs: "\<And>h. pc_ok H (shared s) (reqs s h)"
    and fin: "finite {g. entered (reqs s g)}" using inv by (simp_all add: rec_inv_def)
  have c: "counts (reqs s g) (shared s) pc sh" by (rule gtv_move_counts [OF move pcs B])
  have k: "keeps H (shared s) pc sh" by (rule gtv_move_keeps [OF move ok(2) pcs sf])
  then show "grows (shared s) sh" "next_array sh = next_array (shared s)" by (simp_all add: keeps_def)
  have "pc_ok H sh (((reqs s)(g := pc)) h)" for h
    using k pc_ok_grows [of "shared s" sh H] pcs by (simp add: keeps_def)
  moreover note finite_where_update [of entered "reqs s" g pc, OF fin]
    card_where_update [of entered "reqs s" g pc, OF fin, where 'r = u64]
    card_where_update [of active "reqs s" g pc, OF rec_inv_finite(1) [OF inv], where 'r = u64]
    card_where_update [of half_counted "reqs s" g pc, OF rec_inv_finite(2) [OF inv], where 'r = u64]
    card_where_update [of user_counted "reqs s" g pc, OF rec_inv_finite(3) [OF inv], where 'r = u64]
    card_where_update [of video_counted "reqs s" g pc, OF rec_inv_finite(4) [OF inv], where 'r = u64]
    card_where_update [of stale_counted "reqs s" g pc, OF rec_inv_finite(5) [OF inv], where 'r = u64]
  ultimately show "rec_inv H (s\<lparr>reqs := (reqs s)(g := pc), shared := sh\<rparr>)"
    using inv c k ok(1) by (simp add: rec_inv_def counts_def keeps_def)
qed

text \<open>The refresh counts nothing; an array that it installs is a new one.\<close>

lemma rec_inv_same_counters:
  assumes inv: "rec_inv H s" and "grows (shared s) sh" and "arrays_ok H' sh" and "pool_ok (srv sh)"
    and same: "\<And>a. a < next_array (shared s) \<Longrightarrow> H' a = H a"
    and counters: "totalRequests (srv sh) = totalRequests (srv (shared s))"
      "activeRequests (srv sh) = activeRequests (srv (shared s))" "totalErrors (srv sh) = totalErrors (srv (shared s))"
      "userServiceErrors (srv sh) = userServiceErrors (srv (shared s))"
      "videoServiceErrors (srv sh) = videoServiceErrors (srv (shared s))"
      "staleResponses (srv sh) = staleResponses (srv (shared s))"
  shows "rec_inv H' (s\<lparr>refresher := rp, shared := sh\<rparr>)"
proof -
  have "pc_ok H (shared s) pc \<Longrightarrow> pc_ok H' (shared s) pc" for pc :: "('a, 'b) gtv_pc"
    using same by (cases pc) (auto simp: store_in_def)
  then have "pc_ok H' sh (reqs s g)" for g using inv pc_ok_grows [OF assms(2)] by (auto simp: rec_inv_def)
  moreover have "unsplit_errors (srv sh) = unsplit_errors (srv (shared s))"
    using counters by (simp add: unsplit_errors_def)
  ultimately show ?thesis using inv assms(3,4) counters by (simp add: rec_inv_def)
qed

lemma rec_inv_refresh:
  assumes inv: "rec_inv H s" and move: "refresh_move T (refresher s, shared s) (rp, sh)"
  defines "a \<equiv> next_array (shared s)"
  shows "grows (shared s) sh \<and>
    (rec_inv H (s\<lparr>refresher := rp, shared := sh\<rparr>) \<and> next_array sh = a \<or>
     (\<exists>infos. rec_inv (H(a := set infos)) (s\<lparr>refresher := rp, shared := sh\<rparr>) \<and> next_array sh = Suc a \<and>
        cache sh = Some a \<and> arrays sh a = infos \<and> set infos \<subseteq> T))"
proof -
  have ok: "pool_ok (srv (shared s))" "arrays_ok H (shared s)" using inv by (simp_all add: rec_inv_def)
  have quiet: ?thesis if "sh = shared s"
    using rec_inv_same_counters [OF inv grows_refl(1) ok(2,1), of rp] that by (simp add: a_def)
  from move show ?thesis
  proof cases
    case (wake c sv)
    obtain i where sv: "sv = (srv (shared s))\<lparr>videoServiceIdx := i\<rparr>" "pool_ok sv"
      using picked_video [OF \<open>getNextVideoClient (srv (shared s)) = Return (c, sv)\<close>] ok(1) by blast
    have "rec_inv H (s\<lparr>refresher := rp, shared := sh\<rparr>)"
      by (rule rec_inv_same_counters [OF inv]) (use ok(2) sv wake in simp_all)
    then show ?thesis using wake by (simp add: a_def)
  next
    case (install_videos infos c)
    have "rec_inv (H(a := set infos)) (s\<lparr>refresher := rp, shared := sh\<rparr>)"
      by (rule rec_inv_same_counters [OF inv])
        (use ok install_videos in \<open>auto simp: grows_def arrays_ok_def a_def less_Suc_eq\<close>)
    then show ?thesis using install_videos by (auto simp: grows_def a_def)
  qed (use quiet in simp_all)
qed

text \<open>
  An array that the refresh installed: some earlier step made it the cache, with the videos \<open>xs\<close>.
\<close>

definition was_installed :: "'c blowfish \<Rightarrow> ((VideoInfo \<Rightarrow> VideoInfo \<Rightarrow> int) \<Rightarrow> VideoInfo list \<Rightarrow> VideoInfo list) \<Rightarrow>
    VideoInfo set \<Rightarrow> ('u, 'v) VideoRecServiceServer \<Rightarrow> nat \<Rightarrow> VideoInfo list \<Rightarrow> ('u, 'v) rec_sys \<Rightarrow> bool" where
  "was_installed B sf T sv a xs s \<longleftrightarrow>
     (\<exists>p q. rec_reach B sf T sv p \<and> cache (shared p) \<noteq> Some a \<and> rec_step B sf T p q \<and>
        cache (shared q) = Some a \<and> arrays (shared q) a = xs \<and> (rec_step B sf T)\<^sup>*\<^sup>* q s)"

definition history_ok :: "'c blowfish \<Rightarrow> ((VideoInfo \<Rightarrow> VideoInfo \<Rightarrow> int) \<Rightarrow> VideoInfo list \<Rightarrow> VideoInfo list) \<Rightarrow>
    VideoInfo set \<Rightarrow> ('u, 'v) VideoRecServiceServer \<Rightarrow> (nat \<Rightarrow> VideoInfo set) \<Rightarrow> ('u, 'v) rec_sys \<Rightarrow> bool" where
  "history_ok B sf T sv H s \<longleftrightarrow>
     (\<forall>a<next_array (shared s). \<exists>xs. was_installed B sf T sv a xs s \<and> set xs \<subseteq> T \<and> H a = set xs \<and>
        length (arrays (shared s) a) = length xs)"

lemma was_installed_step:
  "was_installed B sf T sv a xs s \<Longrightarrow> rec_step B sf T s t \<Longrightarrow> was_installed B sf T sv a xs t"
  unfolding was_installed_def by (blast intro: rtranclp.rtrancl_into_rtrancl)

lemma history_ok_step:
  assumes "history_ok B sf T sv H s" and step: "rec_step B sf T s t" and g: "grows (shared s) (shared t)"
    and same: "\<And>a. a < next_array (shared s) \<Longrightarrow> H' a = H a" and a: "a < next_array (shared s)"
  shows "\<exists>xs. was_installed B sf T sv a xs t \<and> set xs \<subseteq> T \<and> H' a = set xs \<and> length (arrays (shared t) a) = length xs"
proof -
  obtain xs where "was_installed B sf T sv a xs s" "set xs \<subseteq> T" "H a = set xs" "length (arrays (shared s) a) = length xs"
    using assms(1) a by (auto simp: history_ok_def)
  moreover have "length (arrays (shared t) a) = length (arrays (shared s) a)" using g a by (simp add: grows_def)
  ultimately show ?thesis using was_installed_step [OF _ step] same [OF a] by metis
qed

lemma rec_reach_inv:
  assumes "rec_reach B sf T sv s" and sv: "sv = new_server opts us vs" "pool_ok sv"
    and sf: "sort_ok sf" and B: "blowfish_ok B"
  shows "\<exists>H. rec_inv H s \<and> history_ok B sf T sv H s"
  using assms(1)
proof (induction rule: rec_reach.induct)
  case start
  have "rec_inv (\<lambda>_. {}) (rec_init sv)" using sv(2)
    by (simp add: rec_inv_def rec_init_def arrays_ok_def phase_simps unsplit_errors_def) (simp add: sv(1) new_server_def)
  moreover have "history_ok B sf T sv (\<lambda>_. {}) (rec_init sv)" by (simp add: history_ok_def rec_init_def)
  ultimately show ?case by blast
next
  case (more s t)
  obtain H where inv: "rec_inv H s" and hist: "history_ok B sf T sv H s" using more.IH by blast
  note old = history_ok_step [OF hist more.hyps(2)]
  from more.hyps(2) show ?case
  proof cases
    case (request g pc sh)
    have "history_ok B sf T sv H t"
      unfolding history_ok_def using old [of H] rec_inv_request(2,3) [OF inv request(2) sf B] request(1) by simp
    then show ?thesis using rec_inv_request(1) [OF inv request(2) sf B] request(1) by blast
  next
    case (refresh rp sh)
    let ?a = "next_array (shared s)"
    have sh: "shared t = sh" and g: "grows (shared s) sh" using refresh rec_inv_refresh [OF inv refresh(2)] by simp_all
    from rec_inv_refresh [OF inv refresh(2)] consider
        (same) "rec_inv H t" "next_array sh = ?a"
      | (new) infos where "rec_inv (H(?a := set infos)) t" "next_array sh = Suc ?a" "cache sh = Some ?a"
          "arrays sh ?a = infos" "set infos \<subseteq> T"
      using refresh(1) by blast
    then show ?thesis
    proof cases
      case same
      then have "history_ok B sf T sv H t" unfolding history_ok_def using old [of H] sh g by simp
      then show ?thesis using same(1) by blast
    next
      case new
      have "cache (shared s) \<noteq> Some ?a" using inv by (auto simp: rec_inv_def arrays_ok_def)
      then have "was_installed B sf T sv ?a infos t"
        unfolding was_installed_def using more.hyps new(3,4) sh by blast
      then have "history_ok B sf T sv (H(?a := set infos)) t"
        unfolding history_ok_def using old [of "H(?a := set infos)"] sh g new by (auto simp: less_Suc_eq)
      then show ?thesis using new(1) by blast
    qed
  qed
qed

text \<open>
  C5: concurrent requests do not disturb each other's accounting, and stale answers come from the
  trending list. In every interleaving of any number of \<open>GetTopVideos\<close> calls and the cache refresh, with
  clients that answer anything and a cipher that keeps its promise, each counter is a number of calls
  (modulo 2^64): \<open>totalRequests\<close> of those that have begun, \<open>activeRequests\<close> of those in progress,
  \<open>userServiceErrors\<close> of those whose error blames the user service, \<open>videoServiceErrors\<close> of those whose
  error blames the video service or that carry or return stale videos, and \<open>staleResponses\<close> of those
  that carry or return stale videos or have found no cached ones (counted from the respective addition
  on); \<open>totalErrors\<close> is the sum of the two error counters and of the calls between the two additions.
  Picking a client never panics. A call that has ended with a response holds a prefix of its slice: its
  own if the response is fresh, and if it is stale an array that some earlier step installed in the
  cache, as long as the list of trending videos that was installed and with no other elements than
  that list's, however many requests sort it.
\<close>
theorem concurrent_requests_accounted:
  assumes "rec_reach B sf T (new_server opts us vs) s" and "blowfish_ok B" and "sort_ok sf"
    and "0 < ClientPoolSize opts" and "ClientPoolSize opts < 2 ^ 63"
    and "length us = nat (ClientPoolSize opts)" and "length vs = nat (ClientPoolSize opts)"
  shows "totalRequests (srv (shared s)) = of_nat (card {g. entered (reqs s g)}) \<and>
    activeRequests (srv (shared s)) = of_nat (card {g. active (reqs s g)}) \<and>
    userServiceErrors (srv (shared s)) = of_nat (card {g. user_counted (reqs s g)}) \<and>
    videoServiceErrors (srv (shared s)) = of_nat (card {g. video_counted (reqs s g)}) \<and>
    staleResponses (srv (shared s)) = of_nat (card {g. stale_counted (reqs s g)}) \<and>
    totalErrors (srv (shared s)) = userServiceErrors (srv (shared s)) + videoServiceErrors (srv (shared s)) +
      of_nat (card {g. half_counted (reqs s g)}) \<and>
    finite {g. entered (reqs s g)} \<and>
    returns (getNextUserClient (srv (shared s))) \<and> returns (getNextVideoClient (srv (shared s))) \<and>
    (\<forall>g ref n stale. reqs s g = Ended (Return (ref, n, stale)) \<longrightarrow>
       n \<le> length (videos_in ref (shared s)) \<and>
       (if stale
        then \<exists>a xs. ref = Shared a \<and> was_installed B sf T (new_server opts us vs) a xs s \<and> set xs \<subseteq> T \<and>
          length (arrays (shared s) a) = length xs \<and> set (arrays (shared s) a) \<subseteq> set xs
        else \<exists>xs. ref = Own xs))"
proof -
  obtain H where inv: "rec_inv H s" and hist: "history_ok B sf T (new_server opts us vs) H s"
    using rec_reach_inv [OF assms(1) refl pool_ok_new_server [OF assms(4-7)] assms(3,2)] by blast
  then have ok: "pool_ok (srv (shared s))" "arrays_ok H (shared s)" by (simp_all add: rec_inv_def)
  have picks: "returns (getNextUserClient (srv (shared s)))" "returns (getNextVideoClient (srv (shared s)))"
    using getNextUserClient_ok [OF ok(1)] getNextVideoClient_ok [OF ok(1)] by auto
  have sum: "totalErrors (srv (shared s)) = userServiceErrors (srv (shared s)) + videoServiceErrors (srv (shared s)) +
      of_nat (card {g. half_counted (reqs s g)})"
  proof -
    have "unsplit_errors (srv (shared s)) = of_nat (card {g. half_counted (reqs s g)})" using inv by (simp add: rec_inv_def)
    then show ?thesis unfolding unsplit_errors_def by (simp only: diff_eq_eq ac_simps)
  qed
  have answers: "n \<le> length (videos_in ref (shared s)) \<and>
       (if stale
        then \<exists>a xs. ref = Shared a \<and> was_installed B sf T (new_server opts us vs) a xs s \<and> set xs \<subseteq> T \<and>
          length (arrays (shared s) a) = length xs \<and> set (arrays (shared s) a) \<subseteq> set xs
        else \<exists>xs. ref = Own xs)" if "reqs s g = Ended (Return (ref, n, stale))" for g ref n stale
  proof -
    have "pc_ok H (shared s) (reqs s g)" using inv by (simp add: rec_inv_def)
    then have ref: "ref_ok (shared s) ref stale" and n: "n \<le> length (videos_in ref (shared s))"
      using that by (simp_all add: result_ok_def)
    show ?thesis
    proof (cases ref)
      case (Shared a)
      then have a: "a < next_array (shared s)" and stale using ref by (simp_all add: ref_ok_def)
      moreover obtain xs where "was_installed B sf T (new_server opts us vs) a xs s" "set xs \<subseteq> T" "H a = set xs"
          "length (arrays (shared s) a) = length xs"
        using hist a unfolding history_ok_def by blast
      moreover have "set (arrays (shared s) a) \<subseteq> H a" using ok(2) a by (simp add: arrays_ok_def)
      ultimately show ?thesis using n Shared by auto
    qed (use ref n in \<open>simp add: ref_ok_def\<close>)
  qed
  show ?thesis
    by (intro conjI; (rule picks sum)?; (intro allI impI; erule answers)?) (use inv in \<open>simp_all add: rec_inv_def\<close>)
qed

theorem concurrent_requests_accounted_witness:
  "\<exists>s :: (unit, unit) rec_sys. reqs s 0 = Entered (demo_request 7) \<and>
     totalRequests (srv (shared s)) = of_nat (card {g. entered (reqs s g)}) \<and>
     staleResponses (srv (shared s)) = of_nat (card {g. stale_counted (reqs s g)}) \<and>
     returns (getNextUserClient (srv (shared s)))"
proof -
  let ?sv = "new_server demo_options [()] [()]"
  have move: "gtv_move plain_cipher sort_cmp (reqs (rec_init ?sv) 0, shared (rec_init ?sv))
      (Entered (demo_request 7), (shared (rec_init ?sv))\<lparr>srv := ?sv\<lparr>totalRequests := 1\<rparr>\<rparr>)"
    using enter [of "shared (rec_init ?sv)" "demo_request 7"]
    by (simp add: gtv_move_def rec_init_def new_server_def)
  from concurrent_requests_accounted [OF rec_reach.more [OF rec_reach.start [of plain_cipher sort_cmp UNIV]
        rec_step.request [OF move]] plain_cipher_ok sort_cmp_ok]
  show ?thesis
    by (intro exI [of _ "(rec_init ?sv)\<lparr>reqs := (reqs (rec_init ?sv))(0 := Entered (demo_request 7)),
          shared := (shared (rec_init ?sv))\<lparr>srv := ?sv\<lparr>totalRequests := 1\<rparr>\<rparr>\<rparr>"])
      (simp add: demo_options_def)
qed

section \<open>Runs\<close>

lemma gtv_steps:
  "user_move p q \<Longrightarrow> (gtv_move B sf)\<^sup>*\<^sup>* q r \<Longrightarrow> (gtv_move B sf)\<^sup>*\<^sup>* p r"
  "video_move p q \<Longrightarrow> (gtv_move B sf)\<^sup>*\<^sup>* q r \<Longrightarrow> (gtv_move B sf)\<^sup>*\<^sup>* p r"
  "sort_move B sf p q \<Longrightarrow> (gtv_move B sf)\<^sup>*\<^sup>* q r \<Longrightarrow> (gtv_move B sf)\<^sup>*\<^sup>* p r"
  "leave_move p q \<Longrightarrow> (gtv_move B sf)\<^sup>*\<^sup>* q r \<Longrightarrow> (gtv_move B sf)\<^sup>*\<^sup>* p r"
  by (auto simp: gtv_move_def intro: converse_rtranclp_into_rtranclp)

lemma request_run:
  assumes "(gtv_move B sf)\<^sup>*\<^sup>* p q" and "(rec_step B sf T)\<^sup>*\<^sup>* s0 (s\<lparr>reqs := (reqs s)(g := fst p), shared := snd p\<rparr>)"
  shows "(rec_step B sf T)\<^sup>*\<^sup>* s0 (s\<lparr>reqs := (reqs s)(g := fst q), shared := snd q\<rparr>)"
  using assms
proof (induction rule: rtranclp_induct)
  case (step q r)
  obtain pc sh where r: "r = (pc, sh)" by (rule prod.exhaust)
  let ?s = "s\<lparr>reqs := (reqs s)(g := fst q), shared := snd q\<rparr>"
  have "gtv_move B sf (reqs ?s g, shared ?s) (pc, sh)" using step.hyps(2) r by simp
  then have "rec_step B sf T ?s (?s\<lparr>reqs := (reqs ?s)(g := pc), shared := sh\<rparr>)" by (rule rec_step.request)
  moreover have "?s\<lparr>reqs := (reqs ?s)(g := pc), shared := sh\<rparr> = s\<lparr>reqs := (reqs s)(g := fst r), shared := snd r\<rparr>"
    using r by simp
  moreover have "(rec_step B sf T)\<^sup>*\<^sup>* s0 ?s" by (rule step.IH [OF step.prems])
  ultimately show ?case by (simp only: rtranclp.rtrancl_into_rtrancl)
qed simp

lemma request_run_from:
  assumes "(rec_step B sf T)\<^sup>*\<^sup>* s0 s" and "(gtv_move B sf)\<^sup>*\<^sup>* (reqs s g, shared s) (pc, sh)"
  shows "(rec_step B sf T)\<^sup>*\<^sup>* s0 (s\<lparr>reqs := (reqs s)(g := pc), shared := sh\<rparr>)"
  using request_run [OF assms(2), of T s0 s g] assms(1) by simp

end
