(* ===== verification/VideoRecRace.thy ===== *)
theory VideoRecRace
  imports VideoRecThreads
begin

text \<open>
  Runs of the concurrent recommendation service: how a request falls back on the cached videos, how two
  such requests sort the one array of the cache at the same time, and that they can lose a video.
\<close>

section \<open>One request falls back\<close>

definition follower :: "coeffs option \<Rightarrow> UserInfo" where
  "follower uc = \<lparr>ui_UserId = 2, ui_Username = [], ui_Email = [], ui_ProfileUrl = [], ui_SubscribedTo = [1],
     ui_UserCoefficients = uc, ui_LikedVideos = [1000]\<rparr>"

lemma next_batch_single: "0 < MaxBatchSize (options sv) \<Longrightarrow> next_batch sv 0 [x] = Return [x]"
  by (auto simp: next_batch_def reslice_def batch_end_def Suc_le_eq)

lemma asks_followed:
  assumes ok: "pool_ok (srv s)" "0 < MaxBatchSize (options (srv s))" and lim: "0 \<le> req_Limit req"
  obtains sv where "(gtv_move B sf)\<^sup>*\<^sup>* (Idle, s) (PickingVideo req (follower uc) [1000], s\<lparr>srv := sv\<rparr>)"
    and "pool_ok sv" and "options sv = options (srv s)"
proof -
  let ?s1 = "s\<lparr>srv := (srv s)\<lparr>totalRequests := totalRequests (srv s) + 1\<rparr>\<rparr>"
  let ?s2 = "?s1\<lparr>srv := (srv ?s1)\<lparr>activeRequests := activeRequests (srv ?s1) + 1\<rparr>\<rparr>"
  have "pool_ok (srv ?s2)" using ok(1) by simp
  then obtain c sv where pick: "getNextUserClient (srv ?s2) = Return (c, sv)" "pool_ok sv"
    using getNextUserClient_ok by blast
  have opts: "options sv = options (srv s)" using picked_user(1) [OF pick(1)] by auto
  let ?u = "follower uc" and ?s3 = "?s2\<lparr>srv := sv\<rparr>"
  have asked: "user_move (AskingUser req c False, ?s3) (AskingSubs req c ?u 0 [] False, ?s3)"
    using user_answers [of req c False ?s3 "[?u]"] by simp
  have batch: "next_batch (srv ?s3) 0 (ui_SubscribedTo ?u) = Return [1]"
    using ok(2) opts by (simp add: follower_def next_batch_single)
  have subs: "user_move (AskingSubs req c ?u 0 [] False, ?s3)
      (AskingSubs req c ?u (MaxBatchSize (options (srv ?s3))) [1000] False, ?s3)"
    using subs_answered [of 0 ?u ?s3 "[1]" req c "[]" False "[?u]"] batch by (simp add: follower_def)
  have fin: "user_move (AskingSubs req c ?u (MaxBatchSize (options (srv ?s3))) [1000] False, ?s3)
      (PickingVideo req ?u [1000], ?s3)"
    using subs_done [of "MaxBatchSize (options (srv ?s3))" ?u req c "[1000]" False ?s3] ok(2) opts
    by (simp add: follower_def deduplicate_ids_def)
  have "(gtv_move B sf)\<^sup>*\<^sup>* (Idle, s) (PickingVideo req ?u [1000], ?s3)"
    by (rule gtv_steps(1) [OF enter [of s req]], rule gtv_steps(1) [OF activate],
        rule gtv_steps(1) [OF pick_user [OF lim pick(1)]], rule gtv_steps(1) [OF asked],
        rule gtv_steps(1) [OF subs], rule gtv_steps(1) [OF fin]) simp
  moreover have "?s3 = s\<lparr>srv := sv\<rparr>" by simp
  ultimately show ?thesis using that pick(2) opts by metis
qed

text \<open>The video service is down: the call and, if enabled, the retry fail.\<close>

lemma video_service_down:
  assumes ok: "pool_ok (srv s)" "0 < MaxBatchSize (options (srv s))" "\<not> DisableFallback (options (srv s))"
    and cached: "cache s = Some a" "arrays s a \<noteq> []"
  obtains sv where "(gtv_move B sf)\<^sup>*\<^sup>* (PickingVideo req u [1000], s) (Ranking req u (Shared a) True 0 Map.empty, s\<lparr>srv := sv\<rparr>)"
    and "pool_ok sv" and "options sv = options (srv s)"
proof -
  obtain c sv where pick: "getNextVideoClient (srv s) = Return (c, sv)" "pool_ok sv"
    using getNextVideoClient_ok [OF ok(1)] by blast
  have opts: "options sv = options (srv s)" using picked_video(1) [OF pick(1)] by auto
  let ?s1 = "s\<lparr>srv := sv\<rparr>" and ?st = "Status Unavailable []"
  have batch: "next_batch (srv ?s1) 0 [1000] = Return [1000]" using ok(2) opts by (simp add: next_batch_single)
  have asking: "(0::int) < int (length [1000 :: u64])" by simp
  have down: "(gtv_move B sf)\<^sup>*\<^sup>* (AskingVideos req c u [1000] 0 [] False, ?s1) r"
    if r: "(gtv_move B sf)\<^sup>*\<^sup>* (VideoFailed1 req u ?st, ?s1) r" for r
  proof (cases "DisableRetry (options sv)")
    case True
    then show ?thesis by (intro gtv_steps(2) [OF videos_fail [OF asking batch] r]) simp
  next
    case False
    then have "video_move (AskingVideos req c u [1000] 0 [] False, ?s1) (AskingVideos req c u [1000] 0 [] True, ?s1)"
      by (intro videos_again [OF asking batch]) simp
    then show ?thesis by (rule gtv_steps(2) [OF _ gtv_steps(2) [OF videos_fail [OF asking batch] r]]) simp
  qed
  let ?s2 = "?s1\<lparr>srv := (srv ?s1)\<lparr>totalErrors := totalErrors (srv ?s1) + 1\<rparr>\<rparr>"
  let ?s3 = "?s2\<lparr>srv := (srv ?s2)\<lparr>videoServiceErrors := videoServiceErrors (srv ?s2) + 1\<rparr>\<rparr>"
  let ?s4 = "?s3\<lparr>srv := (srv ?s3)\<lparr>staleResponses := staleResponses (srv ?s3) + 1\<rparr>\<rparr>"
  have stale: "video_move (VideoFailed2 req u ?st, ?s2) (CountingStale req u ?st, ?s3)"
    using video_failed2 [of req u ?st ?s2] ok(3) opts by simp
  have "(gtv_move B sf)\<^sup>*\<^sup>* (PickingVideo req u [1000], s) (Ranking req u (Shared a) True 0 Map.empty, ?s4)"
    by (rule gtv_steps(2) [OF pick_video [OF pick(1)]], rule down, rule gtv_steps(2) [OF video_failed1],
        rule gtv_steps(2) [OF stale], rule gtv_steps(2) [OF counted_stale], rule gtv_steps(2) [OF read_cache],
        simp add: cached, simp add: cached) (simp add: rtranclp.rtrancl_refl)
  moreover have "pool_ok (srv ?s4)" "options (srv ?s4) = options (srv s)" "?s4 = s\<lparr>srv := srv ?s4\<rparr>"
    using pick(2) opts by simp_all
  ultimately show ?thesis using that by metis
qed

text \<open>Both together, and the ranking of two cached videos.\<close>

lemma request_falls_back:
  assumes ok: "pool_ok (srv s)" "0 < MaxBatchSize (options (srv s))" "\<not> DisableFallback (options (srv s))"
    and cached: "cache s = Some a" "arrays s a = [x, y]" and lim: "0 \<le> req_Limit req" and B: "blowfish_ok B"
    and ranks: "rank_value B uc (vi_VideoCoefficients x) < rank_value B uc (vi_VideoCoefficients y)"
  obtains sv m where "(gtv_move B sf)\<^sup>*\<^sup>* (Idle, s) (Sorting req a m 1 1, s\<lparr>srv := sv\<rparr>)"
    and "pool_ok sv" and "options sv = options (srv s)" and "cmp_rank m y x < 0"
proof -
  obtain sv1 where 1: "(gtv_move B sf)\<^sup>*\<^sup>* (Idle, s) (PickingVideo req (follower uc) [1000], s\<lparr>srv := sv1\<rparr>)"
    "pool_ok sv1" "options sv1 = options (srv s)"
    using asks_followed [OF ok(1,2) lim] by metis
  obtain sv2 where 2: "(gtv_move B sf)\<^sup>*\<^sup>* (PickingVideo req (follower uc) [1000], s\<lparr>srv := sv1\<rparr>)
      (Ranking req (follower uc) (Shared a) True 0 Map.empty, s\<lparr>srv := sv2\<rparr>)"
    "pool_ok sv2" "options sv2 = options (srv s)"
    using video_service_down [of "s\<lparr>srv := sv1\<rparr>" a B sf req "follower uc"] 1 ok cached by auto
  let ?s = "s\<lparr>srv := sv2\<rparr>" and ?u = "follower uc"
  let ?rx = "rank_value B uc (vi_VideoCoefficients x)" and ?ry = "rank_value B uc (vi_VideoCoefficients y)"
  have vids: "videos_in (Shared a) ?s = [x, y]" using cached by (simp add: videos_in_def)
  have rank: "Rank B (ui_UserCoefficients ?u) v = Return (rank_value B uc v)" for v
    by (simp add: follower_def Rank_Return [OF B])
  have r1: "sort_move B sf (Ranking req ?u (Shared a) True 0 Map.empty, ?s)
      (Ranking req ?u (Shared a) True (Suc 0) [x \<mapsto> ?rx], ?s)"
    using rank_one [of 0 "Shared a" ?s B ?u ?rx sf req True Map.empty] vids rank by simp
  have r2: "sort_move B sf (Ranking req ?u (Shared a) True (Suc 0) [x \<mapsto> ?rx], ?s)
      (Ranking req ?u (Shared a) True (Suc (Suc 0)) [x \<mapsto> ?rx, y \<mapsto> ?ry], ?s)"
    using rank_one [of "Suc 0" "Shared a" ?s B ?u ?ry sf req True "[x \<mapsto> ?rx]"] vids rank by simp
  have r3: "sort_move B sf (Ranking req ?u (Shared a) True (Suc (Suc 0)) [x \<mapsto> ?rx, y \<mapsto> ?ry], ?s)
      (Sorting req a [x \<mapsto> ?rx, y \<mapsto> ?ry] 1 1, ?s)"
    by (rule sort_shared) (simp add: cached)
  have "(gtv_move B sf)\<^sup>*\<^sup>* (Idle, s) (Sorting req a [x \<mapsto> ?rx, y \<mapsto> ?ry] 1 1, ?s)"
    by (rule rtranclp_trans [OF 1(1)], rule rtranclp_trans [OF 2(1)], rule gtv_steps(3) [OF r1],
        rule gtv_steps(3) [OF r2], rule gtv_steps(3) [OF r3]) simp
  moreover have "cmp_rank [x \<mapsto> ?rx, y \<mapsto> ?ry] y x < 0"
    using ranks by (auto simp: cmp_rank_def rank_at_def)
  ultimately show ?thesis using that 2(2,3) by blast
qed

section \<open>Two requests on one array\<close>

text \<open>Requests 0 and 1 of a state whose other goroutines stay where they are.\<close>

definition two :: "('u, 'v) rec_sys \<Rightarrow> ('u, 'v) gtv_pc \<Rightarrow> ('u, 'v) gtv_pc \<Rightarrow> ('u, 'v) rec_shared \<Rightarrow> ('u, 'v) rec_sys" where
  "two s p q sh = s\<lparr>reqs := (reqs s)(0 := p, 1 := q), shared := sh\<rparr>"

lemma two_selects [simp]: "reqs (two s p q sh) 0 = p" "reqs (two s p q sh) (Suc 0) = q" "shared (two s p q sh) = sh"
  by (simp_all add: two_def)

lemma two_updates [simp]:
  "(two s p q sh)\<lparr>reqs := (reqs (two s p q sh))(0 := p'), shared := sh'\<rparr> = two s p' q sh'"
  "(two s p q sh)\<lparr>reqs := (reqs (two s p q sh))(Suc 0 := q'), shared := sh'\<rparr> = two s p q' sh'"
  by (simp_all add: two_def fun_upd_twist)

lemma run_0:
  "(rec_step B sf T)\<^sup>*\<^sup>* s0 (two s p q sh) \<Longrightarrow> (gtv_move B sf)\<^sup>*\<^sup>* (p, sh) (p', sh') \<Longrightarrow> (rec_step B sf T)\<^sup>*\<^sup>* s0 (two s p' q sh')"
  using request_run_from [of B sf T s0 "two s p q sh" 0 p' sh'] by simp

lemma run_1:
  "(rec_step B sf T)\<^sup>*\<^sup>* s0 (two s p q sh) \<Longrightarrow> (gtv_move B sf)\<^sup>*\<^sup>* (q, sh) (q', sh') \<Longrightarrow> (rec_step B sf T)\<^sup>*\<^sup>* s0 (two s p q' sh')"
  using request_run_from [of B sf T s0 "two s p q sh" "Suc 0" q' sh'] by simp

lemma sort_step_0:
  "(rec_step B sf T)\<^sup>*\<^sup>* s0 (two s p q sh) \<Longrightarrow> sort_move B sf (p, sh) (p', sh') \<Longrightarrow> (rec_step B sf T)\<^sup>*\<^sup>* s0 (two s p' q sh')"
  by (erule run_0) (rule gtv_steps(3), assumption, rule rtranclp.rtrancl_refl)

lemma sort_step_1:
  "(rec_step B sf T)\<^sup>*\<^sup>* s0 (two s p q sh) \<Longrightarrow> sort_move B sf (q, sh) (q', sh') \<Longrightarrow> (rec_step B sf T)\<^sup>*\<^sup>* s0 (two s p q' sh')"
  by (erule run_1) (rule gtv_steps(3), assumption, rule rtranclp.rtrancl_refl)

text \<open>A request whose sort is through returns the array.\<close>

lemma request_returns:
  assumes "length (arrays s a) = 2"
  obtains sv where "(gtv_move B sf)\<^sup>*\<^sup>* (Sorting req a m 1 0, s)
      (Ended (Return (Shared a, cut_length (req_Limit req) 2, True)), s\<lparr>srv := sv\<rparr>)"
proof -
  let ?r = "Return (Shared a, cut_length (req_Limit req) 2, True) :: gtv_result"
  let ?s1 = "s\<lparr>srv := (srv s)\<lparr>totalTimeMs := totalTimeMs (srv s) + 0\<rparr>\<rparr>"
  have stop: "sort_move B sf (Sorting req a m 1 0, s) (Sorting req a m (Suc 1) (Suc 1), s)"
    by (rule compare_stop) (use assms in simp_all)
  have sorted: "sort_move B sf (Sorting req a m (Suc 1) (Suc 1), s) (Leaving1 ?r, s)"
    using sorted_shared [of s a "Suc 1" B sf req m "Suc 1"] assms by simp
  have "(gtv_move B sf)\<^sup>*\<^sup>* (Sorting req a m 1 0, s)
      (Ended ?r, ?s1\<lparr>srv := (srv ?s1)\<lparr>activeRequests := activeRequests (srv ?s1) + not 0\<rparr>\<rparr>)"
    by (rule gtv_steps(3) [OF stop], rule gtv_steps(3) [OF sorted],
        rule gtv_steps(4) [OF add_time [where elapsed = 0]], rule gtv_steps(4) [OF deactivate])
      (rule rtranclp.rtrancl_refl)
  then show ?thesis using that [of "srv (?s1\<lparr>srv := (srv ?s1)\<lparr>activeRequests := activeRequests (srv ?s1) + not 0\<rparr>\<rparr>)"]
    by simp
qed

text \<open>Two insertion sorts of the same two videos, their loads and stores interleaved.\<close>

definition with_cached :: "nat \<Rightarrow> VideoInfo list \<Rightarrow> ('u, 'v) rec_shared \<Rightarrow> ('u, 'v) rec_shared" where
  "with_cached a xs s = s\<lparr>arrays := (arrays s)(a := xs)\<rparr>"

lemma with_cached_simps [simp]:
  "arrays (with_cached a xs s) a = xs" "cache (with_cached a xs s) = cache s"
  "srv (with_cached a xs s) = srv s" "arrays ((with_cached a xs s)\<lparr>srv := sv\<rparr>) a = xs"
  by (simp_all add: with_cached_def)

lemma with_cached_same: "arrays s a = xs \<Longrightarrow> with_cached a xs s = s"
  by (auto simp: with_cached_def)

lemma store_cached:
  "sort_move B sf (Storing1 req a m i j (p, v) next2, with_cached a xs s) (Storing2 req a m i j next2, with_cached a (xs[p := v]) s)"
  "sort_move B sf (Storing2 req a m i j (p, v), with_cached a xs s) (Sorting req a m i j, with_cached a (xs[p := v]) s)"
  using store1 [of B sf req a m i j p v next2 "with_cached a xs s"] store2 [of B sf req a m i j p v "with_cached a xs s"]
  by (simp_all add: with_cached_def)

lemma load_cached:
  "sort_move B sf (Loading req a m 1 1, with_cached a [x, y] s)
     (Storing1 req a m 1 0 (1, x) (0, y), with_cached a [x, y] s)"
  using load [of B sf req a m 1 1 "with_cached a [x, y] s"] by simp

lemma interleaved_sorts:
  assumes reach: "(rec_step B sf T)\<^sup>*\<^sup>* s0 (two s (Sorting r0 a m0 1 1) (Sorting r1 a m1 1 1) sh)"
    and arr: "arrays sh a = [x, y]" and cmp: "cmp_rank m0 y x < 0" "cmp_rank m1 y x < 0"
  shows "(rec_step B sf T)\<^sup>*\<^sup>* s0 (two s (Sorting r0 a m0 1 0) (Sorting r1 a m1 1 0) (with_cached a [x, x] sh))"
proof -
  let ?w = "\<lambda>xs. with_cached a xs sh"
  have swap: "sort_move B sf (Sorting r a m 1 1, ?w [x, y]) (Loading r a m 1 1, ?w [x, y])"
    if "cmp_rank m y x < 0" for r m
    by (rule compare_swap) (use that in simp_all)
  have "(rec_step B sf T)\<^sup>*\<^sup>* s0 (two s (Sorting r0 a m0 1 1) (Sorting r1 a m1 1 1) (?w [x, y]))"
    using reach by (simp add: with_cached_same arr)
  then have "(rec_step B sf T)\<^sup>*\<^sup>* s0 (two s (Loading r0 a m0 1 1) (Sorting r1 a m1 1 1) (?w [x, y]))"
    by (rule sort_step_0 [OF _ swap [OF cmp(1)]])
  then have "(rec_step B sf T)\<^sup>*\<^sup>* s0 (two s (Storing1 r0 a m0 1 0 (1, x) (0, y)) (Sorting r1 a m1 1 1) (?w [x, y]))"
    by (rule sort_step_0 [OF _ load_cached])
  then have "(rec_step B sf T)\<^sup>*\<^sup>* s0 (two s (Storing1 r0 a m0 1 0 (1, x) (0, y)) (Loading r1 a m1 1 1) (?w [x, y]))"
    by (rule sort_step_1 [OF _ swap [OF cmp(2)]])
  then have "(rec_step B sf T)\<^sup>*\<^sup>* s0 (two s (Storing2 r0 a m0 1 0 (0, y)) (Loading r1 a m1 1 1) (?w [x, x]))"
    using sort_step_0 [OF _ store_cached(1)] by fastforce
  then have "(rec_step B sf T)\<^sup>*\<^sup>* s0 (two s (Storing2 r0 a m0 1 0 (0, y)) (Storing1 r1 a m1 1 0 (1, x) (0, x)) (?w [x, x]))"
    by (rule sort_step_1 [OF _ load_cached])
  then have "(rec_step B sf T)\<^sup>*\<^sup>* s0 (two s (Sorting r0 a m0 1 0) (Storing1 r1 a m1 1 0 (1, x) (0, x)) (?w [y, x]))"
    using sort_step_0 [OF _ store_cached(2)] by fastforce
  then have "(rec_step B sf T)\<^sup>*\<^sup>* s0 (two s (Sorting r0 a m0 1 0) (Storing2 r1 a m1 1 0 (0, x)) (?w [y, x]))"
    using sort_step_1 [OF _ store_cached(1)] by fastforce
  then show ?thesis
    using sort_step_1 [OF _ store_cached(2)] by fastforce
qed

text \<open>The refresh installs a list, then both requests run until they sort.\<close>

lemma refresh_installs:
  assumes ok: "pool_ok sv" "\<not> DisableFallback (options sv)" and T: "set infos \<subseteq> T"
  obtains s a sv' where "rec_reach B sf T sv s" and "cache (shared s) = Some a" and "arrays (shared s) a = infos"
    and "reqs s = (\<lambda>_. Idle)" and "srv (shared s) = sv'" and "pool_ok sv'" and "options sv' = options sv"
proof -
  obtain c sv' where pick: "getNextVideoClient sv = Return (c, sv')" "pool_ok sv'"
    using getNextVideoClient_ok [OF ok(1)] by blast
  let ?h = "shared (rec_init sv)"
  let ?h1 = "?h\<lparr>srv := sv'\<rparr>"
  let ?h2 = "?h1\<lparr>arrays := (arrays ?h1)(next_array ?h1 := infos), next_array := Suc (next_array ?h1), cache := Some (next_array ?h1)\<rparr>"
  let ?t = "\<lambda>rp sh. (rec_init sv)\<lparr>refresher := rp, shared := sh\<rparr>"
  have go: "rec_reach B sf T sv (?t rp' sh')" if "rec_reach B sf T sv (?t rp sh)" "refresh_move T (rp, sh) (rp', sh')" for rp rp' sh sh'
    using rec_reach.more [OF that(1) rec_step.refresh [of T "?t rp sh" rp' sh']] that(2) by simp
  have "rec_reach B sf T sv (?t Pausing ?h)"
    using rec_reach.start [of B sf T sv] by (simp add: rec_init_def)
  then have "rec_reach B sf T sv (?t (AskingTrending c) ?h1)"
    by (rule go) (rule wake, use ok(2) pick(1) in \<open>simp_all add: rec_init_def\<close>)
  then have "rec_reach B sf T sv (?t (AskingTrendingVideos c) ?h1)" by (rule go) (rule trending)
  then have "rec_reach B sf T sv (?t Pausing ?h2)" by (rule go) (rule install_videos [OF T])
  moreover have "options sv' = options sv" using picked_video(1) [OF pick(1)] by auto
  ultimately show ?thesis
    using that [of "?t Pausing ?h2" "next_array ?h1" sv'] pick(2) by (simp add: rec_init_def)
qed

lemma both_fall_back:
  assumes ok: "pool_ok (srv (shared s))" "0 < MaxBatchSize (options (srv (shared s)))" "\<not> DisableFallback (options (srv (shared s)))"
    and cached: "cache (shared s) = Some a" "arrays (shared s) a = [x, y]" and idle: "reqs s = (\<lambda>_. Idle)"
    and lim: "0 \<le> req_Limit req" and B: "blowfish_ok B"
    and ranks: "rank_value B uc (vi_VideoCoefficients x) < rank_value B uc (vi_VideoCoefficients y)"
  obtains m0 m1 sh where "(rec_step B sf T)\<^sup>*\<^sup>* s (two s (Sorting req a m0 1 1) (Sorting req a m1 1 1) sh)"
    and "cmp_rank m0 y x < 0" and "cmp_rank m1 y x < 0" and "cache sh = Some a" and "arrays sh a = [x, y]"
proof -
  have start: "(rec_step B sf T)\<^sup>*\<^sup>* s (two s Idle Idle (shared s))"
  proof -
    have "two s Idle Idle (shared s) = s" using idle by (intro rec_sys.equality) (simp_all add: two_def fun_upd_idem)
    then show ?thesis by simp
  qed
  obtain sv0 m0 where 0: "(gtv_move B sf)\<^sup>*\<^sup>* (Idle, shared s) (Sorting req a m0 1 1, (shared s)\<lparr>srv := sv0\<rparr>)"
    "pool_ok sv0" "options sv0 = options (srv (shared s))" "cmp_rank m0 y x < 0"
    using request_falls_back [OF ok cached lim B ranks] by metis
  let ?h = "(shared s)\<lparr>srv := sv0\<rparr>"
  obtain sv1 m1 where 1: "(gtv_move B sf)\<^sup>*\<^sup>* (Idle, ?h) (Sorting req a m1 1 1, ?h\<lparr>srv := sv1\<rparr>)"
    "cmp_rank m1 y x < 0"
    by (rule request_falls_back [of ?h a x y req B uc sf]) (use 0 ok cached lim B ranks in simp_all)
  show ?thesis
    by (rule that [OF run_1 [OF run_0 [OF start 0(1)] 1(1)] 0(4) 1(2)]) (use cached in simp_all)
qed

section \<open>The race\<close>

text \<open>
  C7: stale requests lose cached videos. \<open>GetTopVideos\<close> reads the slice of the cache under the lock but
  sorts it in place after releasing it. Whenever the trending list is two videos that some user's
  coefficients rank in ascending order, the service can reach a state in which the cache still refers to
  that list, two concurrent requests have both ended with a stale response that is the whole list, and
  the list holds the worse video twice: the better one is gone until the next refresh, for every
  request that falls back.
\<close>
theorem stale_requests_lose_a_video:
  assumes "blowfish_ok B" and "0 < MaxBatchSize opts" and "\<not> DisableFallback opts"
    and "0 < ClientPoolSize opts" and "ClientPoolSize opts < 2 ^ 63"
    and "length us = nat (ClientPoolSize opts)" and "length vs = nat (ClientPoolSize opts)"
    and "{worse, better} \<subseteq> T"
    and "rank_value B uc (vi_VideoCoefficients worse) < rank_value B uc (vi_VideoCoefficients better)"
  shows "\<exists>s s' a. rec_reach B sf T (new_server opts us vs) s \<and> (rec_step B sf T)\<^sup>*\<^sup>* s s' \<and>
    cache (shared s) = Some a \<and> arrays (shared s) a = [worse, better] \<and>
    cache (shared s') = Some a \<and> arrays (shared s') a = [worse, worse] \<and>
    (\<forall>g<2. reqs s' g = Ended (Return (Shared a, 2, True)))"
proof -
  let ?sv = "new_server opts us vs"
  have pool: "pool_ok ?sv" and opts: "options ?sv = opts"
    using pool_ok_new_server [OF assms(4-7)] by (simp_all add: new_server_def)
  obtain s a sv' where s: "rec_reach B sf T ?sv s" "cache (shared s) = Some a"
    "arrays (shared s) a = [worse, better]" "reqs s = (\<lambda>_. Idle)" "srv (shared s) = sv'" "pool_ok sv'" "options sv' = opts"
    using refresh_installs [of ?sv "[worse, better]" T B sf] pool opts assms(3,8) by (metis list.simps(15) empty_set)
  let ?req = "\<lparr>req_UserId = 2, req_Limit = 0\<rparr>"
  obtain m0 m1 sh where two: "(rec_step B sf T)\<^sup>*\<^sup>* s (two s (Sorting ?req a m0 1 1) (Sorting ?req a m1 1 1) sh)"
    "cmp_rank m0 better worse < 0" "cmp_rank m1 better worse < 0" "cache sh = Some a" "arrays sh a = [worse, better]"
    using both_fall_back [of s a worse better ?req B uc sf T] s assms(1-3,9) by auto
  let ?h = "with_cached a [worse, worse] sh" and ?r = "Ended (Return (Shared a, cut_length (req_Limit ?req) 2, True))"
  have run: "(rec_step B sf T)\<^sup>*\<^sup>* s (two s (Sorting ?req a m0 1 0) (Sorting ?req a m1 1 0) ?h)"
    by (rule interleaved_sorts [OF two(1,5,2,3)])
  obtain sv0 where 0: "(gtv_move B sf)\<^sup>*\<^sup>* (Sorting ?req a m0 1 0, ?h) (?r, ?h\<lparr>srv := sv0\<rparr>)"
    by (rule request_returns [of ?h a B sf ?req m0]) simp_all
  obtain sv1 where 1: "(gtv_move B sf)\<^sup>*\<^sup>* (Sorting ?req a m1 1 0, ?h\<lparr>srv := sv0\<rparr>) (?r, ?h\<lparr>srv := sv1\<rparr>)"
    by (rule request_returns [of "?h\<lparr>srv := sv0\<rparr>" a B sf ?req m1]) simp_all
  have "(rec_step B sf T)\<^sup>*\<^sup>* s (two s ?r ?r (?h\<lparr>srv := sv1\<rparr>))"
    by (rule run_1 [OF run_0 [OF run 0] 1])
  moreover have "cut_length 0 2 = 2" by (simp add: cut_length_def)
  ultimately show ?thesis
    using s(1-3) two(4) by (intro exI [of _ s] exI [of _ "two s ?r ?r (?h\<lparr>srv := sv1\<rparr>)"] exI [of _ a])
      (simp add: numeral_2_eq_2 less_Suc_eq all_conj_distrib)
qed

section \<open>Two videos the witnesses' cipher ranks differently\<close>

lemma digits_01: "digits 0 = [0]" "digits (Suc 0) = [1]" by (simp_all add: digits.simps)

lemma costHash_01: "costHash 0 = 2" "costHash 1 = 1"
  by (simp_all add: costHash_def FormatUint_def digits_01 fnv32_def digit_byte_def MinCost_def)

lemma plain_bcrypt: "\<exists>d. length d = 31 \<and> (\<forall>pw c. bcrypt plain_cipher pw c fixed_salt = Return d)"
proof -
  have same: "encrypt_times plain_cipher ci n blk = blk" for ci n blk
    by (induction n arbitrary: blk) (simp_all add: plain_cipher_def)
  let ?d = "take 23 (encrypt_blocks plain_cipher [] magicCipherData)"
  have len: "length (encrypt_blocks plain_cipher [] magicCipherData) = 24" by (rule length_encrypt_blocks [OF plain_cipher_ok])
  then have d: "length ?d = 23" by simp
  have sl: "go_slice (encrypt_blocks plain_cipher [] magicCipherData) 0 maxCryptedHashSize = (Return ?d :: bytes bc)"
    using len by (simp add: go_slice_def)
  have eb: "encrypt_blocks plain_cipher ci magicCipherData = encrypt_blocks plain_cipher [] magicCipherData" for ci
    by (simp add: encrypt_blocks_def same)
  have "bcrypt plain_cipher pw c fixed_salt = Return (b64_body ?d)" for pw c
  proof -
    obtain ci where "expensiveBlowfishSetup plain_cipher pw c fixed_salt = Return ci"
      by (simp add: expensiveBlowfishSetup_def fixed_salt_facts(3) plain_cipher_def Let_def)
    then show ?thesis by (simp only: bcrypt_def bind_go.simps eb [of ci] sl encode_digest(1) [OF d])
  qed
  then show ?thesis using encode_digest(2) [OF d] by blast
qed

lemma plain_rank: "\<exists>rest. \<forall>u v. costHash (dotProduct u v) \<in> {1, 2} \<longrightarrow>
    rank_value plain_cipher u v = fnv64 ([36, 50, 97, 36, 48] @ [of_int (48 + costHash (dotProduct u v))] @ rest)"
proof -
  obtain d where d: "\<And>pw c. bcrypt plain_cipher pw c fixed_salt = Return d" using plain_bcrypt by blast
  have "rank_value plain_cipher u v =
      fnv64 ([36, 50, 97, 36, 48] @ [of_int (48 + costHash (dotProduct u v))] @ 36 # fixed_salt @ take 31 d)"
    if c: "costHash (dotProduct u v) \<in> {1, 2}" for u v
  proof -
    let ?c = "costHash (dotProduct u v)" and ?pw = "pad0 20 (unat (dotProduct u v))"
    have "?c \<le> MaxCost" "used_cost ?c = ?c" using c by (auto simp: MaxCost_def used_cost_def MinCost_def)
    then obtain p where p: "newFromPassword plain_cipher ?pw ?c = Return p" "hashed_ok p" "major p = majorVersion"
      "minor p = minorVersion" "cost p = ?c" "salt p = fixed_salt" "hash p = d"
      using newFromPassword_returns [OF plain_cipher_ok, of ?c ?pw] d by auto
    have "sprintf_02d ?c = [48, of_int (48 + ?c)]"
      using c by (auto simp: sprintf_02d_def pad0_def digits.simps digit_byte_def)
    then have "layout p = [36, 50, 97, 36, 48] @ [of_int (48 + ?c)] @ 36 # fixed_salt @ take 31 d"
      using p by (simp add: layout_def majorVersion_def minorVersion_def)
    moreover have "GenerateFromPassword plain_cipher ?pw ?c = Return (layout p)"
      using p Hash_layout by (simp add: GenerateFromPassword_def)
    ultimately show ?thesis by (simp add: rank_value_def Rank_def Let_def)
  qed
  then show ?thesis by blast
qed

lemma plain_ranks_differ:
  "rank_value plain_cipher (Some [(1, 1)]) (Some [(1, 0)]) \<noteq> rank_value plain_cipher (Some [(1, 1)]) (Some [(1, 1)])"
proof -
  obtain rest where r: "\<And>u v. costHash (dotProduct u v) \<in> {1, 2} \<Longrightarrow>
    rank_value plain_cipher u v = fnv64 ([36, 50, 97, 36, 48] @ [of_int (48 + costHash (dotProduct u v))] @ rest)"
    using plain_rank by blast
  have dp: "dotProduct (Some [(1, 1)]) (Some [(1, x)]) = x" for x by (simp add: dotProduct_def GetCoeffs_def)
  have "rank_value plain_cipher (Some [(1, 1)]) (Some [(1, 0)]) = fnv64 ([36, 50, 97, 36, 48] @ [50] @ rest)"
    "rank_value plain_cipher (Some [(1, 1)]) (Some [(1, 1)]) = fnv64 ([36, 50, 97, 36, 48] @ [49] @ rest)"
    by (subst r; simp add: dp costHash_01)+
  then show ?thesis using fnv64_last_byte [of "[36, 50, 97, 36, 48]" 50 rest 49] by simp
qed

theorem stale_requests_lose_a_video_witness:
  "\<exists>worse better s s' a. worse \<noteq> better \<and>
    rec_reach plain_cipher sort_cmp UNIV (new_server demo_options [()] [()]) s \<and>
    (rec_step plain_cipher sort_cmp UNIV)\<^sup>*\<^sup>* s s' \<and>
    cache (shared s) = Some a \<and> arrays (shared s) a = [worse, better] \<and>
    cache (shared s') = Some a \<and> arrays (shared s') a = [worse, worse] \<and>
    (\<forall>g<2. reqs s' g = Ended (Return (Shared a, 2, True)))"
proof -
  let ?v = "\<lambda>x. \<lparr>vi_VideoId = 1000, vi_Title = [], vi_Author = [], vi_Url = [], vi_VideoCoefficients = Some [(1, x)]\<rparr>"
  let ?rank = "\<lambda>v. rank_value plain_cipher (Some [(1, 1)]) (vi_VideoCoefficients v)"
  have "?rank (?v 0) \<noteq> ?rank (?v 1)" using plain_ranks_differ by simp
  then obtain worse better :: VideoInfo where r: "?rank worse < ?rank better" unfolding neq_iff by blast
  then have "worse \<noteq> better" by auto
  moreover note stale_requests_lose_a_video [OF plain_cipher_ok, of demo_options "[()]" "[()]" worse better UNIV
      "Some [(1, 1)]" sort_cmp]
  moreover have "0 < MaxBatchSize demo_options" "\<not> DisableFallback demo_options" "0 < ClientPoolSize demo_options"
    "ClientPoolSize demo_options < 2 ^ 63" "length [()] = nat (ClientPoolSize demo_options)"
    by (simp_all add: demo_options_def)
  ultimately show ?thesis using r by (intro exI [of _ worse] exI [of _ better]) simp
qed

end
