(* ===== verification/VideoRecSim.thy ===== *)
theory VideoRecSim
  imports VideoRecThreads
begin

text \<open>
  The concurrent recommendation service refines the sequential one: whatever \<open>GetTopVideos\<close> computes in
  VideoRec, with whatever clients, is a run of the steps of VideoRecThreads that one request takes alone.
  The in-place sort of the cached array is shown to compute what \<open>slices.SortFunc\<close> promises.
\<close>

section \<open>Insertion sort\<close>

text \<open>What \<open>slices.SortFunc\<close> does with up to 12 elements: \<open>sift\<close> is its inner loop.\<close>

fun sift :: "('a \<Rightarrow> 'a \<Rightarrow> int) \<Rightarrow> nat \<Rightarrow> 'a list \<Rightarrow> 'a list" where
  "sift cmp 0 xs = xs"
| "sift cmp (Suc j) xs =
     (if cmp (xs ! Suc j) (xs ! j) < 0 then sift cmp j (xs[Suc j := xs ! j, j := xs ! Suc j]) else xs)"

definition insertion_sort :: "('a \<Rightarrow> 'a \<Rightarrow> int) \<Rightarrow> 'a list \<Rightarrow> 'a list" where
  "insertion_sort cmp xs = fold (sift cmp) [1..<length xs] xs"

lemma length_sift [simp]: "length (sift cmp j xs) = length xs"
  by (induction cmp j xs rule: sift.induct) auto

lemma mset_sift: "j < length xs \<Longrightarrow> mset (sift cmp j xs) = mset xs"
  by (induction cmp j xs rule: sift.induct) (auto simp: mset_swap)

lemma drop_sift: "j < k \<Longrightarrow> drop k (sift cmp j xs) = drop k xs"
  by (induction cmp j xs rule: sift.induct) auto

lemma nth_sift: "j < k \<Longrightarrow> k < length xs \<Longrightarrow> sift cmp j xs ! k = xs ! k"
  by (induction cmp j xs rule: sift.induct) auto

lemma set_take_sift:
  assumes "j < length xs"
  shows "set (take (Suc j) (sift cmp j xs)) = set (take (Suc j) xs)"
proof -
  have split: "mset ys = mset (take (Suc j) ys) + mset (drop (Suc j) ys)" for ys :: "'a list"
    by (simp flip: mset_append)
  have "mset (take (Suc j) (sift cmp j xs)) = mset (take (Suc j) xs)"
    using mset_sift [OF assms, of cmp] split [of xs] split [of "sift cmp j xs"] by (simp add: drop_sift)
  then show ?thesis by (rule mset_eq_setD)
qed

text \<open>Inserting into a sorted prefix.\<close>

abbreviation in_order :: "('a \<Rightarrow> 'a \<Rightarrow> int) \<Rightarrow> 'a list \<Rightarrow> bool" where
  "in_order cmp \<equiv> sorted_wrt (\<lambda>a b. cmp a b \<le> 0)"

lemma weak_order_trans: "weak_order cmp \<Longrightarrow> cmp a b \<le> 0 \<Longrightarrow> cmp b c \<le> 0 \<Longrightarrow> cmp a c \<le> 0"
  unfolding weak_order_def by blast

lemma weak_order_flip: "weak_order cmp \<Longrightarrow> \<not> cmp a b < 0 \<Longrightarrow> cmp b a \<le> 0"
  unfolding weak_order_def by (metis not_less)

lemma sift_sorts:
  assumes "weak_order cmp" and "j < length xs" and "in_order cmp (take j xs)"
  shows "in_order cmp (take (Suc j) (sift cmp j xs))"
  using assms(2,3)
proof (induction j arbitrary: xs)
  case 0
  then show ?case by (cases xs) simp_all
next
  case (Suc j)
  let ?x = "xs ! Suc j" and ?y = "xs ! j"
  have pre: "take (Suc j) xs = take j xs @ [?y]" and pre': "take (Suc (Suc j)) xs = take j xs @ [?y, ?x]"
    using Suc.prems(1) by (simp_all add: take_Suc_conv_app_nth)
  have le: "\<And>z. z \<in> set (take j xs) \<Longrightarrow> cmp z ?y \<le> 0" and srt: "in_order cmp (take j xs)"
    using Suc.prems(2) unfolding pre by (auto simp: sorted_wrt_append)
  show ?case
  proof (cases "cmp ?x ?y < 0")
    case True
    let ?zs = "xs[Suc j := ?y, j := ?x]"
    have "in_order cmp (take (Suc j) (sift cmp j ?zs))"
      by (rule Suc.IH) (use Suc.prems(1) srt in simp_all)
    moreover have "sift cmp j ?zs ! Suc j = ?y" using Suc.prems(1) by (simp add: nth_sift)
    then have "take (Suc (Suc j)) (sift cmp j ?zs) = take (Suc j) (sift cmp j ?zs) @ [?y]"
      using Suc.prems(1) by (simp add: take_Suc_conv_app_nth)
    moreover have "cmp z ?y \<le> 0" if "z \<in> set (take (Suc j) (sift cmp j ?zs))" for z
    proof -
      have "z \<in> set (take (Suc j) ?zs)" using that set_take_sift [of j ?zs cmp] Suc.prems(1) by simp
      then have "z \<in> set (take j xs) \<or> z = ?x"
        using Suc.prems(1) by (auto simp: take_Suc_conv_app_nth)
      then show ?thesis using le True by auto
    qed
    ultimately show ?thesis using True by (simp add: sorted_wrt_append)
  next
    case False
    then have yx: "cmp ?y ?x \<le> 0" by (rule weak_order_flip [OF assms(1)])
    then have "cmp z ?x \<le> 0" if "z \<in> set (take j xs)" for z using weak_order_trans [OF assms(1) le [OF that]] by blast
    then show ?thesis using False le yx srt pre' by (auto simp: sorted_wrt_append)
  qed
qed

lemma insertion_rounds:
  assumes "weak_order cmp" and "n \<le> length xs" and "0 < n"
  shows "let ys = fold (sift cmp) [1..<n] xs in length ys = length xs \<and> mset ys = mset xs \<and> in_order cmp (take n ys)"
  using assms(2,3)
proof (induction n)
  case (Suc n)
  show ?case
  proof (cases "n = 0")
    case True
    then show ?thesis by (cases xs) simp_all
  next
    case False
    then show ?thesis
      using Suc sift_sorts [OF assms(1), of n "fold (sift cmp) [1..<n] xs"] by (simp add: Let_def mset_sift)
  qed
qed simp

lemma insertion_sort_ok: "sort_ok insertion_sort"
proof -
  have "mset (insertion_sort cmp xs) = mset xs \<and> in_order cmp (insertion_sort cmp xs)" if "weak_order cmp"
    for cmp :: "'a \<Rightarrow> 'a \<Rightarrow> int" and xs
    using insertion_rounds [OF that, of "length xs" xs] by (cases "xs = []") (auto simp: insertion_sort_def Let_def)
  then show ?thesis by (simp add: sort_ok_def)
qed

section \<open>Exchanges\<close>

definition exchange :: "nat \<Rightarrow> nat \<Rightarrow> 'a list \<Rightarrow> 'a list" where
  "exchange p q xs = xs[p := xs ! q, q := xs ! p]"

text \<open>Any permutation is a sequence of exchanges, found position by position.\<close>

definition exchanges :: "'a list \<Rightarrow> 'a list \<Rightarrow> bool" where
  "exchanges xs ys \<longleftrightarrow> (\<exists>p q. p < length xs \<and> q < length xs \<and> ys = exchange p q xs)"

lemma exchange_facts [simp]:
  "length (exchange p q xs) = length xs" "p < length xs \<Longrightarrow> q < length xs \<Longrightarrow> mset (exchange p q xs) = mset xs"
  by (simp_all add: exchange_def mset_swap)

lemma exchanges_prefix:
  assumes "mset xs = mset ys" and "k \<le> length xs"
  shows "\<exists>zs. exchanges\<^sup>*\<^sup>* xs zs \<and> mset zs = mset xs \<and> take k zs = take k ys"
  using assms(2)
proof (induction k)
  case (Suc k)
  then obtain zs where zs: "exchanges\<^sup>*\<^sup>* xs zs" "mset zs = mset xs" "take k zs = take k ys" by auto
  have len: "length zs = length xs" "length ys = length xs" using zs(2) assms(1) mset_eq_length by metis+
  have "mset (take k zs) + mset (drop k zs) = mset (take k ys) + mset (drop k ys)"
    using zs(2) assms(1) by (simp flip: mset_append)
  then have "mset (drop k zs) = mset (drop k ys)" using zs(3) by simp
  then have "set (drop k zs) = set (drop k ys)" by (rule mset_eq_setD)
  moreover have "drop k ys = ys ! k # drop (Suc k) ys" using Suc.prems len by (simp add: Cons_nth_drop_Suc)
  ultimately have "ys ! k \<in> set (drop k zs)" by simp
  then obtain n where "n < length (drop k zs)" "drop k zs ! n = ys ! k" unfolding in_set_conv_nth by blast
  then obtain q where q: "k \<le> q" "q < length zs" "zs ! q = ys ! k"
    using that [of "k + n"] by simp
  let ?zs = "exchange k q zs"
  have "exchanges zs ?zs" using q Suc.prems len unfolding exchanges_def by (intro exI [of _ k] exI [of _ q]) simp
  then have "exchanges\<^sup>*\<^sup>* xs ?zs" using zs(1) by (rule rtranclp.rtrancl_into_rtrancl [rotated])
  moreover have "take (Suc k) ?zs = take (Suc k) ys"
    using Suc.prems len q zs(3) by (auto simp: take_Suc_conv_app_nth exchange_def nth_list_update)
  moreover have "mset ?zs = mset xs" using zs(2) q Suc.prems len by simp
  ultimately show ?case by blast
qed (auto intro: exI [of _ xs])

lemma exchanges_permute:
  assumes "mset xs = mset ys"
  shows "exchanges\<^sup>*\<^sup>* xs ys"
proof -
  obtain zs where "exchanges\<^sup>*\<^sup>* xs zs" "mset zs = mset xs" "take (length xs) zs = take (length xs) ys"
    using exchanges_prefix [OF assms, of "length xs"] by auto
  moreover have "length zs = length xs" "length ys = length xs" using \<open>mset zs = _\<close> assms mset_eq_length by metis+
  ultimately show ?thesis by simp
qed

section \<open>Sorting the cached array\<close>

definition with_array :: "nat \<Rightarrow> VideoInfo list \<Rightarrow> ('u, 'v) rec_shared \<Rightarrow> ('u, 'v) rec_shared" where
  "with_array a xs s = s\<lparr>arrays := (arrays s)(a := xs)\<rparr>"

lemma with_array_simps [simp]:
  "arrays (with_array a xs s) a = xs" "srv (with_array a xs s) = srv s" "cache (with_array a xs s) = cache s"
  "with_array a xs (with_array a ys s) = with_array a xs s"
  by (simp_all add: with_array_def)

lemma with_array_same [simp]: "with_array a (arrays s a) s = s"
  by (simp add: with_array_def)

lemma store_exchanged:
  "(gtv_move B sf)\<^sup>*\<^sup>* (Storing1 req a m i j (p, xs ! q) (q, xs ! p), with_array a xs s)
    (Sorting req a m i j, with_array a (exchange p q xs) s)"
proof -
  have "sort_move B sf (Storing1 req a m i j (p, xs ! q) (q, xs ! p), with_array a xs s)
      (Storing2 req a m i j (q, xs ! p), with_array a (xs[p := xs ! q]) s)"
    using store1 [of B sf req a m i j p "xs ! q" "(q, xs ! p)" "with_array a xs s"] by (simp add: with_array_def)
  moreover have "sort_move B sf (Storing2 req a m i j (q, xs ! p), with_array a (xs[p := xs ! q]) s)
      (Sorting req a m i j, with_array a (exchange p q xs) s)"
    using store2 [of B sf req a m i j q "xs ! p" "with_array a (xs[p := xs ! q]) s"]
    by (simp add: with_array_def exchange_def)
  ultimately show ?thesis by (meson gtv_steps(3) rtranclp.rtrancl_refl)
qed

text \<open>Up to 12 elements.\<close>

lemma sift_run:
  assumes "length xs \<le> 12" and "i < length xs" and "j \<le> i"
  shows "(gtv_move B sf)\<^sup>*\<^sup>* (Sorting req a m i j, with_array a xs s)
    (Sorting req a m (Suc i) (Suc i), with_array a (sift (cmp_rank m) j xs) s)"
  using assms
proof (induction j arbitrary: xs)
  case 0
  have "sort_move B sf (Sorting req a m i 0, with_array a xs s) (Sorting req a m (Suc i) (Suc i), with_array a xs s)"
    by (rule compare_stop) (use 0 in simp_all)
  then show ?case by (auto intro: gtv_steps(3))
next
  case (Suc j)
  let ?w = "\<lambda>xs. with_array a xs s"
  show ?case
  proof (cases "cmp_rank m (xs ! Suc j) (xs ! j) < 0")
    case True
    have "sort_move B sf (Sorting req a m i (Suc j), ?w xs) (Loading req a m i (Suc j), ?w xs)"
      by (rule compare_swap) (use Suc.prems True in simp_all)
    moreover have "sort_move B sf (Loading req a m i (Suc j), ?w xs)
        (Storing1 req a m i j (Suc j, xs ! j) (j, xs ! Suc j), ?w xs)"
      using load [of B sf req a m i "Suc j" "?w xs"] by simp
    moreover note store_exchanged [of B sf req a m i j "Suc j" xs j s]
    moreover have "(gtv_move B sf)\<^sup>*\<^sup>* (Sorting req a m i j, ?w (exchange (Suc j) j xs))
        (Sorting req a m (Suc i) (Suc i), ?w (sift (cmp_rank m) j (exchange (Suc j) j xs)))"
      by (rule Suc.IH) (use Suc.prems in simp_all)
    ultimately have "(gtv_move B sf)\<^sup>*\<^sup>* (Sorting req a m i (Suc j), ?w xs)
        (Sorting req a m (Suc i) (Suc i), ?w (sift (cmp_rank m) j (exchange (Suc j) j xs)))"
      by (meson gtv_steps(3) rtranclp_trans)
    then show ?thesis using True by (simp add: exchange_def)
  next
    case False
    have "sort_move B sf (Sorting req a m i (Suc j), ?w xs) (Sorting req a m (Suc i) (Suc i), ?w xs)"
      by (rule compare_stop) (use Suc.prems False in simp_all)
    then show ?thesis using False by (auto intro: gtv_steps(3))
  qed
qed

lemma insertion_run:
  assumes "length xs \<le> 12" and "0 < n" and "n \<le> length xs"
  shows "(gtv_move B sf)\<^sup>*\<^sup>* (Sorting req a m 1 1, with_array a xs s)
    (Sorting req a m n n, with_array a (fold (sift (cmp_rank m)) [1..<n] xs) s)"
  using assms(2,3)
proof (induction n)
  case (Suc n)
  show ?case
  proof (cases "n = 0")
    case False
    let ?ys = "fold (sift (cmp_rank m)) [1..<n] xs"
    have "length ?ys = length xs"
      using insertion_rounds [OF cmp_rank_weak_order, of n xs m] False Suc.prems by (simp add: Let_def)
    then show ?thesis
      using Suc False sift_run [of ?ys n n B sf req a m s] assms(1) by (auto intro: rtranclp_trans)
  qed simp
qed simp

text \<open>Longer arrays: exchanges may lead to any permutation.\<close>

lemma exchanges_run:
  assumes "exchanges\<^sup>*\<^sup>* xs ys" and "12 < length xs"
  shows "(gtv_move B sf)\<^sup>*\<^sup>* (Sorting req a m i j, with_array a xs s) (Sorting req a m i j, with_array a ys s) \<and>
    length ys = length xs"
  using assms(1)
proof (induction rule: rtranclp_induct)
  case (step ys zs)
  from step.hyps(2) obtain p q where pq: "p < length ys" "q < length ys" "zs = exchange p q ys"
    unfolding exchanges_def by blast
  have "sort_move B sf (Sorting req a m i j, with_array a ys s)
      (Storing1 req a m i j (p, ys ! q) (q, ys ! p), with_array a ys s)"
    using load_any [of "with_array a ys s" a p q B sf req m i j] pq step.IH assms(2) by simp
  from gtv_steps(3) [OF this store_exchanged] pq step.IH show ?case by (auto intro: rtranclp_trans)
qed simp

text \<open>What is required of \<open>slices.SortFunc\<close> as a function: the steps above are how it writes.\<close>

definition go_sort :: "((VideoInfo \<Rightarrow> VideoInfo \<Rightarrow> int) \<Rightarrow> VideoInfo list \<Rightarrow> VideoInfo list) \<Rightarrow> bool" where
  "go_sort sf \<longleftrightarrow> sort_ok sf \<and> (\<forall>cmp xs. length xs \<le> 12 \<longrightarrow> sf cmp xs = insertion_sort cmp xs)"

lemma go_sort_permutes: "go_sort sf \<Longrightarrow> mset (sf (cmp_rank m) xs) = mset xs" "go_sort sf \<Longrightarrow> length (sf (cmp_rank m) xs) = length xs"
  using cmp_rank_weak_order [of m] unfolding go_sort_def sort_ok_def by (metis, metis size_mset)

lemma sort_run:
  assumes "go_sort sf"
  shows "(gtv_move B sf)\<^sup>*\<^sup>* (Sorting req a m 1 1, s)
    (Leaving1 (Return (Shared a, cut_length (req_Limit req) (length (arrays s a)), True)),
     with_array a (sf (cmp_rank m) (arrays s a)) s)"
proof -
  let ?xs = "arrays s a" and ?w = "\<lambda>xs. with_array a xs s"
  let ?ys = "sf (cmp_rank m) ?xs"
  have len: "length ?ys = length ?xs" by (rule go_sort_permutes(2) [OF assms])
  obtain i j where run: "(gtv_move B sf)\<^sup>*\<^sup>* (Sorting req a m 1 1, ?w ?xs) (Sorting req a m i j, ?w ?ys)"
    and stop: "12 < length ?ys \<or> \<not> i < length ?ys"
  proof (cases "length ?xs \<le> 12")
    case True
    then have ys: "?ys = insertion_sort (cmp_rank m) ?xs" using assms unfolding go_sort_def by blast
    show ?thesis
    proof (cases "?xs = []")
      case True
      then show ?thesis using that [of 1 1] ys by (simp add: insertion_sort_def)
    next
      case False
      then show ?thesis
        using that [of "length ?xs" "length ?xs"] insertion_run [OF True, of "length ?xs" B sf req a m s] len ys
        by (simp add: insertion_sort_def)
    qed
  next
    case False
    have "exchanges\<^sup>*\<^sup>* ?xs ?ys" by (rule exchanges_permute) (simp add: go_sort_permutes(1) [OF assms])
    then show ?thesis using that [of 1 1] exchanges_run [of ?xs ?ys B sf req a m 1 1 s] False len by simp
  qed
  have "sort_move B sf (Sorting req a m i j, ?w ?ys)
      (Leaving1 (Return (Shared a, cut_length (req_Limit req) (length ?ys), True)), ?w ?ys)"
    using sorted_shared [of "?w ?ys" a i B sf req m j] stop by simp
  then show ?thesis using run len by (auto intro: rtranclp_trans gtv_steps(3))
qed

section \<open>What the sequential model sees\<close>

definition cached :: "('u, 'v) rec_shared \<Rightarrow> VideoInfo list" where
  "cached s = (case cache s of None \<Rightarrow> [] | Some a \<Rightarrow> arrays s a)"

definition seq_view :: "('u, 'v) rec_shared \<Rightarrow> ('u, 'v) VideoRecServiceServer" where
  "seq_view s = (srv s)\<lparr>topVideos := cached s\<rparr>"

definition answer_of :: "('u, 'v) rec_shared \<Rightarrow> gtv_result \<Rightarrow> GetTopVideosResponse outcome" where
  "answer_of s res =
     (case res of
        Return (ref, n, stale) \<Rightarrow> Return \<lparr>resp_Videos = take n (videos_in ref s), resp_StaleResponse = stale\<rparr>
      | Fails st \<Rightarrow> Fails st
      | Panics p \<Rightarrow> Panics p
      | Blocks \<Rightarrow> Blocks)"

text \<open>A request at \<open>p\<close> can go on alone until its deferred functions, with this answer and server.\<close>

definition can_leave :: "'c blowfish \<Rightarrow> ((VideoInfo \<Rightarrow> VideoInfo \<Rightarrow> int) \<Rightarrow> VideoInfo list \<Rightarrow> VideoInfo list) \<Rightarrow>
    ('u, 'v) gtv_pc \<times> ('u, 'v) rec_shared \<Rightarrow> GetTopVideosResponse outcome \<Rightarrow> ('u, 'v) VideoRecServiceServer \<Rightarrow> bool" where
  "can_leave B sf p r server \<longleftrightarrow> r = Blocks \<or>
     (\<exists>res s. (gtv_move B sf)\<^sup>*\<^sup>* p (Leaving1 res, s) \<and> answer_of s res = r \<and> seq_view s = server)"

lemma can_leave_after: "(gtv_move B sf)\<^sup>*\<^sup>* p q \<Longrightarrow> can_leave B sf q r server \<Longrightarrow> can_leave B sf p r server"
  unfolding can_leave_def by (blast intro: rtranclp_trans)

lemma can_leave_step:
  "user_move p q \<Longrightarrow> can_leave B sf q r server \<Longrightarrow> can_leave B sf p r server"
  "video_move p q \<Longrightarrow> can_leave B sf q r server \<Longrightarrow> can_leave B sf p r server"
  "sort_move B sf p q \<Longrightarrow> can_leave B sf q r server \<Longrightarrow> can_leave B sf p r server"
  by (erule (1) can_leave_after [OF gtv_steps(1) [OF _ rtranclp.rtrancl_refl]]
      can_leave_after [OF gtv_steps(2) [OF _ rtranclp.rtrancl_refl]]
      can_leave_after [OF gtv_steps(3) [OF _ rtranclp.rtrancl_refl]])+

lemma can_leave_now: "answer_of s res = r \<Longrightarrow> seq_view s = server \<Longrightarrow> can_leave B sf (Leaving1 res, s) r server"
  unfolding can_leave_def by blast

lemma can_leave_panic: "seq_view s = server \<Longrightarrow> can_leave B sf (Leaving1 (Panics p), s) (Panics p) server"
  by (rule can_leave_now) (simp_all add: answer_of_def)

lemma can_leave_blocks: "can_leave B sf p Blocks server"
  by (simp add: can_leave_def)

lemma seq_view_simps [simp]:
  "seq_view (s\<lparr>srv := sv\<rparr>) = sv\<lparr>topVideos := cached s\<rparr>" "options (seq_view s) = options (srv s)"
  "topVideos (seq_view s) = cached s" "cached (s\<lparr>srv := sv\<rparr>) = cached s"
  by (simp_all add: seq_view_def cached_def split: option.split)

lemma videos_in_srv [simp]: "videos_in ref (s\<lparr>srv := sv\<rparr>) = videos_in ref s"
  by (simp add: videos_in_def split: videos_ref.split)

lemma answer_of_srv [simp]: "answer_of (s\<lparr>srv := sv\<rparr>) res = answer_of s res"
  by (cases res) (auto simp: answer_of_def)

text \<open>The view's update goes last.\<close>

lemma top_videos_last [simp]:
  "sv\<lparr>topVideos := t, userServiceIdx := n\<rparr> = sv\<lparr>userServiceIdx := n, topVideos := t\<rparr>"
  "sv\<lparr>topVideos := t, videoServiceIdx := n\<rparr> = sv\<lparr>videoServiceIdx := n, topVideos := t\<rparr>"
  "sv\<lparr>topVideos := t, totalRequests := n\<rparr> = sv\<lparr>totalRequests := n, topVideos := t\<rparr>"
  "sv\<lparr>topVideos := t, totalErrors := n\<rparr> = sv\<lparr>totalErrors := n, topVideos := t\<rparr>"
  "sv\<lparr>topVideos := t, activeRequests := n\<rparr> = sv\<lparr>activeRequests := n, topVideos := t\<rparr>"
  "sv\<lparr>topVideos := t, userServiceErrors := n\<rparr> = sv\<lparr>userServiceErrors := n, topVideos := t\<rparr>"
  "sv\<lparr>topVideos := t, videoServiceErrors := n\<rparr> = sv\<lparr>videoServiceErrors := n, topVideos := t\<rparr>"
  "sv\<lparr>topVideos := t, totalTimeMs := n\<rparr> = sv\<lparr>totalTimeMs := n, topVideos := t\<rparr>"
  "sv\<lparr>topVideos := t, staleResponses := n\<rparr> = sv\<lparr>staleResponses := n, topVideos := t\<rparr>"
  by simp_all

section \<open>Ranking and sorting\<close>

lemma ranking_run:
  assumes "rank_loop B (ui_UserCoefficients u) m0 (drop k (videos_in ref s)) = out" and "k \<le> length (videos_in ref s)"
  shows "(case out of
      Return m \<Rightarrow> (gtv_move B sf)\<^sup>*\<^sup>* (Ranking req u ref stale k m0, s) (Ranking req u ref stale (length (videos_in ref s)) m, s)
    | Panics p \<Rightarrow> (gtv_move B sf)\<^sup>*\<^sup>* (Ranking req u ref stale k m0, s) (Leaving1 (Panics p), s)
    | _ \<Rightarrow> True)"
  using assms
proof (induction "length (videos_in ref s) - k" arbitrary: k m0)
  case 0
  then show ?case by auto
next
  case (Suc n)
  let ?vs = "videos_in ref s"
  have k: "k < length ?vs" using Suc.hyps(2) by simp
  then have split: "drop k ?vs = ?vs ! k # drop (Suc k) ?vs" by (simp add: Cons_nth_drop_Suc)
  show ?case
  proof (cases "Rank B (ui_UserCoefficients u) (vi_VideoCoefficients (?vs ! k))")
    case (Return r)
    have next_k: "sort_move B sf (Ranking req u ref stale k m0, s) (Ranking req u ref stale (Suc k) (m0(?vs ! k \<mapsto> r)), s)"
      by (rule rank_one [OF k Return])
    have "rank_loop B (ui_UserCoefficients u) (m0(?vs ! k \<mapsto> r)) (drop (Suc k) ?vs) = out"
      using Suc.prems(1) Return by (simp add: split)
    from Suc.hyps(1) [OF _ this] Suc.hyps(2) k show ?thesis
      by (auto split: go_result.splits intro: gtv_steps(3) [OF next_k])
  next
    case (Panics p)
    then show ?thesis using Suc.prems(1) gtv_steps(3) [OF rank_panics [OF k Panics]] by (auto simp: split)
  qed (use Suc.prems(1) in \<open>auto simp: split Rank_not_Fails\<close>)
qed

lemma ranking_leaves:
  assumes tail: "rank_and_cut B sf (ui_UserCoefficients u) (req_Limit req) (videos_in ref s) stale (seq_view s) = (r, server')"
    and sf: "go_sort sf"
    and ref: "if stale then \<exists>a. ref = Shared a \<and> cache s = Some a else \<exists>xs. ref = Own xs"
  shows "can_leave B sf (Ranking req u ref stale 0 Map.empty, s) r server'"
proof -
  let ?vs = "videos_in ref s"
  note run = ranking_run [where k = 0 and ref = ref and s = s and B = B and u = u and ?m0.0 = Map.empty
      and sf = sf and req = req and stale = stale, simplified]
  have out: "getVideoRanks B (ui_UserCoefficients u) ?vs = rank_loop B (ui_UserCoefficients u) Map.empty ?vs"
    by (simp add: getVideoRanks_def)
  show ?thesis
  proof (cases "rank_loop B (ui_UserCoefficients u) Map.empty ?vs")
    case (Return m)
    let ?ys = "sf (cmp_rank m) ?vs"
    have len: "length ?ys = length ?vs" by (rule go_sort_permutes(2) [OF sf])
    have cut: "(if req_Limit req \<noteq> 0 \<and> req_Limit req < int (length ?ys) then take (nat (req_Limit req)) ?ys else ?ys) =
        take (cut_length (req_Limit req) (length ?vs)) ?ys"
      using len by (simp add: cut_length_def)
    have r: "r = Return \<lparr>resp_Videos = take (cut_length (req_Limit req) (length ?vs)) ?ys, resp_StaleResponse = stale\<rparr>"
      and server': "server' = (if stale then (seq_view s)\<lparr>topVideos := ?ys\<rparr> else seq_view s)"
      using tail Return out cut by (auto simp: rank_and_cut_def Let_def)
    have ranked: "(gtv_move B sf)\<^sup>*\<^sup>* (Ranking req u ref stale 0 Map.empty, s) (Ranking req u ref stale (length ?vs) m, s)"
      using run Return by simp
    show ?thesis
    proof (cases stale)
      case True
      then obtain a where a: "ref = Shared a" "cache s = Some a" using ref by auto
      then have vs: "?vs = arrays s a" by (simp add: videos_in_def)
      have "can_leave B sf (Sorting req a m 1 1, s) r server'"
        by (rule can_leave_after [OF sort_run [OF sf]], rule can_leave_now)
          (use True a r server' vs in \<open>simp_all add: answer_of_def videos_in_def seq_view_def cached_def\<close>)
      moreover have "sort_move B sf (Ranking req u ref stale (length ?vs) m, s) (Sorting req a m 1 1, s)"
        using sort_shared [of "length ?vs" s a B sf req u stale m] a vs by simp
      ultimately show ?thesis by (intro can_leave_after [OF ranked]) (rule can_leave_step(3))
    next
      case False
      then obtain xs where ref: "ref = Own xs" using ref by auto
      then have vs: "?vs = xs" by (simp add: videos_in_def)
      have "sort_move B sf (Ranking req u ref stale (length ?vs) m, s)
          (Leaving1 (Return (Own ?ys, cut_length (req_Limit req) (length xs), stale)), s)"
        using sort_own [of "length ?vs" xs B sf req u stale m s] ref vs by simp
      moreover have "can_leave B sf (Leaving1 (Return (Own ?ys, cut_length (req_Limit req) (length xs), stale)), s) r server'"
        by (rule can_leave_now) (use False r server' vs in \<open>simp_all add: answer_of_def videos_in_def\<close>)
      ultimately show ?thesis by (intro can_leave_after [OF ranked]) (rule can_leave_step(3))
    qed
  next
    case (Panics p)
    then have "r = Panics p" "server' = seq_view s" using tail out by (auto simp: rank_and_cut_def)
    then show ?thesis using run Panics by (auto intro: can_leave_after can_leave_panic)
  next
    case Blocks
    then have "r = Blocks" using tail out by (auto simp: rank_and_cut_def)
    then show ?thesis by (simp add: can_leave_blocks)
  qed (simp add: rank_loop_not_Fails)
qed

section \<open>The video service\<close>

lemma picks_seq_view:
  "getNextUserClient (sv\<lparr>topVideos := t\<rparr>) =
     bind_go (getNextUserClient sv) (\<lambda>(c, sv'). Return (c, sv'\<lparr>topVideos := t\<rparr>))"
  "getNextVideoClient (sv\<lparr>topVideos := t\<rparr>) =
     bind_go (getNextVideoClient sv) (\<lambda>(c, sv'). Return (c, sv'\<lparr>topVideos := t\<rparr>))"
  by (cases "idx_get (userServiceClientPool sv) (unat (userServiceIdx sv)) :: 'a outcome";
      simp add: getNextUserClient_def)
    (cases "idx_get (videoServiceClientPool sv) (unat (videoServiceIdx sv)) :: 'b outcome";
      simp add: getNextVideoClient_def)

text \<open>How a failed call of the video service ends.\<close>

definition videos_found :: "'c blowfish \<Rightarrow> ((VideoInfo \<Rightarrow> VideoInfo \<Rightarrow> int) \<Rightarrow> VideoInfo list \<Rightarrow> VideoInfo list) \<Rightarrow>
    GetTopVideosRequest \<Rightarrow> UserInfo \<Rightarrow> ('u, 'v) gtv_pc \<times> ('u, 'v) rec_shared \<Rightarrow> (VideoInfo list \<times> bool) outcome \<Rightarrow>
    ('u, 'v) VideoRecServiceServer \<Rightarrow> bool" where
  "videos_found B sf req u p r server =
     (case r of
        Return (vs, stale) \<Rightarrow>
          (\<exists>ref s. (gtv_move B sf)\<^sup>*\<^sup>* p (Ranking req u ref stale 0 Map.empty, s) \<and> videos_in ref s = vs \<and>
             seq_view s = server \<and>
             (if stale then \<exists>a. ref = Shared a \<and> cache s = Some a else \<exists>xs. ref = Own xs))
      | Fails st \<Rightarrow> can_leave B sf p (Fails st) server
      | Panics pn \<Rightarrow> can_leave B sf p (Panics pn) server
      | Blocks \<Rightarrow> True)"

lemma videos_found_after:
  "(gtv_move B sf)\<^sup>*\<^sup>* p q \<Longrightarrow> videos_found B sf req u q r server \<Longrightarrow> videos_found B sf req u p r server"
  unfolding videos_found_def
  by (cases r) (fastforce intro: rtranclp_trans can_leave_after)+

lemma videos_found_step:
  "video_move p q \<Longrightarrow> videos_found B sf req u q r server \<Longrightarrow> videos_found B sf req u p r server"
  by (rule videos_found_after [OF gtv_steps(2) [OF _ rtranclp.rtrancl_refl]])

lemma video_failed_run:
  assumes "video_query_failed st (seq_view s) = (r, server')"
  shows "videos_found B sf req u (VideoFailed1 req u st, s) r server'"
proof -
  let ?s2 = "s\<lparr>srv := (srv s)\<lparr>totalErrors := totalErrors (srv s) + 1\<rparr>\<rparr>"
  let ?s3 = "?s2\<lparr>srv := (srv ?s2)\<lparr>videoServiceErrors := videoServiceErrors (srv ?s2) + 1\<rparr>\<rparr>"
  let ?s4 = "?s3\<lparr>srv := (srv ?s3)\<lparr>staleResponses := staleResponses (srv ?s3) + 1\<rparr>\<rparr>"
  note m1 = video_failed1 [of req u st s] and m2 = video_failed2 [of req u st ?s2] and m3 = counted_stale [of req u st ?s3]
  show ?thesis
  proof (cases "DisableFallback (options (srv s))")
    case True
    then obtain st' where st': "r = Fails st'" "video_error [] st = Fails st'"
      using assms by (auto simp: video_query_failed_def video_error_def)
    have "can_leave B sf (VideoFailed1 req u st, s) (Fails st') server'"
      by (rule can_leave_step(2) [OF m1], rule can_leave_step(2) [OF m2])
        (use assms True st' in \<open>auto simp: video_query_failed_def answer_of_def seq_view_def [of s] intro!: can_leave_now\<close>)
    then show ?thesis using st' by (simp add: videos_found_def)
  next
    case False
    then have m2': "video_move (VideoFailed2 req u st, ?s2) (CountingStale req u st, ?s3)" using m2 by simp
    have to_cache: "(gtv_move B sf)\<^sup>*\<^sup>* (VideoFailed1 req u st, s) (ReadingCache req u st, ?s4)"
      by (rule gtv_steps(2) [OF m1], rule gtv_steps(2) [OF m2'], rule gtv_steps(2) [OF m3])
        (rule rtranclp.rtrancl_refl)
    show ?thesis
    proof (cases "cached s = []")
      case True
      then obtain st' where st': "r = Fails st'" "video_error '', no cached videos'' st = Fails st'"
        using assms False by (auto simp: video_query_failed_def video_error_def Let_def)
      have "video_move (ReadingCache req u st, ?s4) (Leaving1 (video_error '', no cached videos'' st), ?s4)"
        by (rule no_cache) (use True in \<open>auto simp: cached_def split: option.splits\<close>)
      then have "can_leave B sf (ReadingCache req u st, ?s4) (Fails st') server'"
        by (rule can_leave_step(2))
          (use assms False True st' in \<open>auto simp: video_query_failed_def answer_of_def seq_view_def [of s] Let_def
             intro!: can_leave_now\<close>)
      then show ?thesis using st' can_leave_after [OF to_cache] by (simp add: videos_found_def)
    next
      case nonempty: False
      then obtain a where a: "cache s = Some a" "arrays s a \<noteq> []" by (auto simp: cached_def split: option.splits)
      then have "video_move (ReadingCache req u st, ?s4) (Ranking req u (Shared a) True 0 Map.empty, ?s4)"
        by (intro read_cache) simp_all
      then have "(gtv_move B sf)\<^sup>*\<^sup>* (VideoFailed1 req u st, s) (Ranking req u (Shared a) True 0 Map.empty, ?s4)"
        by (intro rtranclp_trans [OF to_cache]) (rule gtv_steps(2), assumption, rule rtranclp.rtrancl_refl)
      moreover have "r = Return (arrays s a, True)" "server' = seq_view ?s4"
        using assms False nonempty a by (auto simp: video_query_failed_def Let_def seq_view_def [of s]) (simp_all add: cached_def)
      moreover have "videos_in (Shared a) ?s4 = arrays s a" "cache ?s4 = Some a" using a(1) by (simp_all add: videos_in_def)
      ultimately show ?thesis
        by (simp only: videos_found_def go_result.case prod.case if_True) blast
    qed
  qed
qed

lemma next_batch_seq: "next_batch (srv s) i ids = reslice ids i (batch_end (MaxBatchSize (options (seq_view s))) i ids)"
  by (simp add: next_batch_def)

lemma video_loop_run:
  assumes "video_loop C c ids i acc server w = Some y"
  shows "server = seq_view s \<longrightarrow>
    videos_found B sf req u (AskingVideos req c u ids i acc False, s) (fst y) (fst (snd y))"
  using assms
proof (rule video_loop.raw_induct [rotated], goal_cases)
  case (1 loop C c ids i acc server w y)
  note IH = 1(1) and eq = 1(2)
  let ?here = "(AskingVideos req c u ids i acc False, s)"
  have "videos_found B sf req u ?here (fst y) (fst (snd y))" if server: "server = seq_view s"
  proof (cases "i < int (length ids)")
    case True
    note more = True
    note batch_eq = next_batch_seq [of s i ids, folded server]
    show ?thesis
    proof (cases "next_batch (srv s) i ids")
      case (Return ids')
      note batch = Return
      have slice: "reslice ids i (batch_end (MaxBatchSize (options server)) i ids) = (Return ids' :: u64 list outcome)"
        using batch_eq Return by simp
      obtain q w1 where q: "retrying (\<not> DisableRetry (options server)) (cl_GetVideo C c ids') w = (q, w1)"
        by (rule prod.exhaust)
      show ?thesis
      proof (cases q)
        case (Return vs)
        have "videos_found B sf req u (AskingVideos req c u ids (i + MaxBatchSize (options (srv s))) (acc @ vs) False, s)
            (fst y) (fst (snd y))"
        proof -
          have "loop C c ids (i + MaxBatchSize (options server)) (acc @ vs) server w1 = Some y" using eq more slice q Return by simp
          from IH [OF this] server show ?thesis by simp
        qed
        then show ?thesis by (rule videos_found_step [OF videos_answered [OF True batch]])
      next
        case (Fails st)
        obtain r server' where f: "video_query_failed st (seq_view s) = (r, server')" by (rule prod.exhaust)
        have y: "y = (r, server', w1)" using eq more slice q Fails f server by simp
        have "(gtv_move B sf)\<^sup>*\<^sup>* ?here (VideoFailed1 req u st, s)"
        proof (cases "DisableRetry (options (srv s))")
          case True
          then show ?thesis
            using gtv_steps(2) [OF videos_fail [OF more batch] rtranclp.rtrancl_refl] by blast
        next
          case False
          from videos_again [OF more batch this]
          show ?thesis
            by (rule gtv_steps(2) [OF _ gtv_steps(2) [OF videos_fail [OF more batch] rtranclp.rtrancl_refl]]) simp
        qed
        from videos_found_after [OF this video_failed_run [OF f]] show ?thesis using y by simp
      next
        case (Panics p)
        have y: "y = (Panics p, server, w1)" using eq more slice q Panics by simp
        have "can_leave B sf ?here (Panics p) server"
          by (rule can_leave_step(2) [OF videos_panic [OF True batch]], rule can_leave_panic)
            (simp add: server)
        then show ?thesis using y by (simp add: videos_found_def)
      next
        case Blocks
        then have "y = (Blocks, server, w1)" using eq more slice q by simp
        then show ?thesis by (simp add: videos_found_def)
      qed
    next
      case (Panics p)
      then have y: "y = (Panics p, server, w)" using eq True batch_eq by simp
      have "can_leave B sf ?here (Panics p) server"
        by (rule can_leave_step(2) [OF videos_slice_panics [OF True Panics]], rule can_leave_panic) (simp add: server)
      then show ?thesis using y by (simp add: videos_found_def)
    qed (auto simp: next_batch_def reslice_def split: if_splits)
  next
    case False
    then have y: "y = (Return (acc, False), server, w)" using eq by simp
    have "(gtv_move B sf)\<^sup>*\<^sup>* ?here (Ranking req u (Own acc) False 0 Map.empty, s)"
      by (rule gtv_steps(2) [OF videos_done [OF False]]) (rule rtranclp.rtrancl_refl)
    then show ?thesis using y server unfolding videos_found_def
      by (auto simp: videos_in_def intro!: exI [of _ "Own acc"])
  qed
  then show ?case by simp
qed

lemma fetch_run:
  assumes "fetch_and_rank C B sf (ui_UserCoefficients u) (req_Limit req) ids (seq_view s) w = Some (r, server', w')"
    and sf: "go_sort sf"
  shows "can_leave B sf (PickingVideo req u ids, s) r server'"
proof (cases "getNextVideoClient (srv s)")
  case (Return p)
  obtain c sv where p: "getNextVideoClient (srv s) = Return (c, sv)" using Return by (cases p) simp
  let ?s = "s\<lparr>srv := sv\<rparr>"
  have pick: "getNextVideoClient (seq_view s) = Return (c, seq_view ?s)"
    using p by (simp add: seq_view_def [of s] picks_seq_view)
  obtain q where q: "video_loop C c ids 0 [] (seq_view ?s) w = Some q"
    using assms(1) pick by (auto simp: fetch_and_rank_def simp del: seq_view_simps split: option.splits)
  obtain r1 s2 w1 where q3: "q = (r1, s2, w1)" by (metis prod.exhaust)
  have found: "videos_found B sf req u (AskingVideos req c u ids 0 [] False, ?s) r1 s2"
    using video_loop_run [OF q, of "?s" B sf req u] q3 by simp
  note body = assms(1) [unfolded fetch_and_rank_def pick, simplified, unfolded q [simplified] q3, simplified]
  have "can_leave B sf (AskingVideos req c u ids 0 [] False, ?s) r server'"
  proof (cases r1)
    case (Return x)
    obtain vs stale where x: "x = (vs, stale)" by (rule prod.exhaust)
    obtain ref t where t: "(gtv_move B sf)\<^sup>*\<^sup>* (AskingVideos req c u ids 0 [] False, ?s) (Ranking req u ref stale 0 Map.empty, t)"
      "videos_in ref t = vs" "seq_view t = s2"
      "if stale then \<exists>a. ref = Shared a \<and> cache t = Some a else \<exists>xs. ref = Own xs"
      using found Return x unfolding videos_found_def by auto
    obtain r2 s3 where tail: "rank_and_cut B sf (ui_UserCoefficients u) (req_Limit req) vs stale s2 = (r2, s3)"
      by (rule prod.exhaust)
    then have "r = r2" "server' = s3" using body Return x by simp_all
    then show ?thesis
      using ranking_leaves [of B sf u req ref t stale r2 s3] tail t sf by (auto intro: can_leave_after [OF t(1)])
  next
    case (Fails st)
    then show ?thesis using found body by (simp add: videos_found_def)
  next
    case (Panics p)
    then show ?thesis using found body by (simp add: videos_found_def)
  next
    case Blocks
    then show ?thesis using body by (simp add: can_leave_blocks)
  qed
  then show ?thesis by (rule can_leave_step(2) [OF pick_video [OF p]])
next
  case (Panics p)
  then have "getNextVideoClient (seq_view s) = Panics p" by (simp add: seq_view_def picks_seq_view)
  then have "r = Panics p" "server' = seq_view s" using assms(1) by (simp_all add: fetch_and_rank_def)
  then show ?thesis
    by (auto intro!: can_leave_step(2) [OF pick_video_panics [OF Panics]] can_leave_panic)
qed (simp_all add: getNextVideoClient_frame)

section \<open>The user service\<close>

lemma user_failed_leaves:
  "can_leave B sf (UserFailed1 (user_error prefix st), s) (Fails (Status (st_code st) (prefix @ st_message st)))
     (user_failure (seq_view s))"
  by (rule can_leave_step(1) [OF user_failed1], rule can_leave_step(1) [OF user_failed2], rule can_leave_now)
    (simp_all add: user_error_def answer_of_def user_failure_def seq_view_def [of s])

text \<open>How the loop over the subscriptions ends.\<close>

definition ids_found :: "'c blowfish \<Rightarrow> ((VideoInfo \<Rightarrow> VideoInfo \<Rightarrow> int) \<Rightarrow> VideoInfo list \<Rightarrow> VideoInfo list) \<Rightarrow>
    GetTopVideosRequest \<Rightarrow> UserInfo \<Rightarrow> ('u, 'v) gtv_pc \<Rightarrow> ('u, 'v) rec_shared \<Rightarrow> u64 list outcome \<Rightarrow>
    ('u, 'v) VideoRecServiceServer \<Rightarrow> bool" where
  "ids_found B sf req u pc s r server =
     (case r of
        Return ids \<Rightarrow> (gtv_move B sf)\<^sup>*\<^sup>* (pc, s) (PickingVideo req u (deduplicate_ids ids), s) \<and> server = seq_view s
      | Fails st \<Rightarrow> can_leave B sf (pc, s) (Fails st) server
      | Panics pn \<Rightarrow> can_leave B sf (pc, s) (Panics pn) server
      | Blocks \<Rightarrow> True)"

lemma ids_found_step:
  "user_move (pc, s) (pc', s) \<Longrightarrow> ids_found B sf req u pc' s r server \<Longrightarrow> ids_found B sf req u pc s r server"
  unfolding ids_found_def by (cases r) (auto intro: gtv_steps(1) can_leave_step(1))

lemma subscribed_loop_run:
  assumes "subscribed_loop C c userId subs i acc server w = Some y"
  shows "server = seq_view s \<and> userId = req_UserId req \<and> subs = ui_SubscribedTo u \<longrightarrow>
    ids_found B sf req u (AskingSubs req c u i acc False) s (fst y) (fst (snd y))"
  using assms
proof (rule subscribed_loop.raw_induct [rotated], goal_cases)
  case (1 loop C c userId subs i acc server w y)
  note IH = 1(1) and eq = 1(2)
  let ?here = "AskingSubs req c u i acc False"
  have "ids_found B sf req u ?here s (fst y) (fst (snd y))"
    if server: "server = seq_view s" and user: "userId = req_UserId req" "subs = ui_SubscribedTo u"
  proof (cases "i < int (length subs)")
    case True
    have more: "i < int (length (ui_SubscribedTo u))" using True user by simp
    have batch_eq: "next_batch (srv s) i (ui_SubscribedTo u) = reslice subs i (batch_end (MaxBatchSize (options server)) i subs)"
      using next_batch_seq [of s i subs] server user by simp
    show ?thesis
    proof (cases "next_batch (srv s) i (ui_SubscribedTo u)")
      case (Return ids')
      note batch = Return
      have slice: "reslice subs i (batch_end (MaxBatchSize (options server)) i subs) = (Return ids' :: u64 list outcome)"
        using batch_eq Return by simp
      obtain q w1 where q: "retrying True (cl_GetUser C c ids') w = (q, w1)" by (rule prod.exhaust)
      show ?thesis
      proof (cases q)
        case (Return infos)
        let ?next = "AskingSubs req c u (i + MaxBatchSize (options (srv s))) (acc @ concat (map ui_LikedVideos infos)) False"
        have "loop C c userId subs (i + MaxBatchSize (options server)) (acc @ concat (map ui_LikedVideos infos)) server w1 = Some y"
          using eq True slice q Return by simp
        from IH [OF this] server user have "ids_found B sf req u ?next s (fst y) (fst (snd y))" by simp
        then show ?thesis by (rule ids_found_step [OF subs_answered [OF more batch]])
      next
        case (Fails st)
        then have y: "y = (Fails (Status (st_code st) (subs_prefix req @ st_message st)), user_failure server, w1)"
          using eq True slice q user by (simp add: user_query_failed_eq subs_prefix_def)
        have "can_leave B sf (?here, s) (Fails (Status (st_code st) (subs_prefix req @ st_message st))) (user_failure server)"
          unfolding server
          by (rule can_leave_step(1) [OF subs_again [OF more batch]], rule can_leave_step(1) [OF subs_fails [OF more batch]])
            (rule user_failed_leaves)
        then show ?thesis using y by (simp add: ids_found_def)
      next
        case (Panics p)
        then have y: "y = (Panics p, server, w1)" using eq True slice q by simp
        have "can_leave B sf (?here, s) (Panics p) server"
          by (rule can_leave_step(1) [OF subs_panics [OF more batch]], rule can_leave_panic) (simp add: server)
        then show ?thesis using y by (simp add: ids_found_def)
      next
        case Blocks
        then have "y = (Blocks, server, w1)" using eq True slice q by simp
        then show ?thesis by (simp add: ids_found_def)
      qed
    next
      case (Panics p)
      then have y: "y = (Panics p, server, w)" using eq True batch_eq by simp
      have "can_leave B sf (?here, s) (Panics p) server"
        by (rule can_leave_step(1) [OF subs_slice_panics [OF more Panics]], rule can_leave_panic) (simp add: server)
      then show ?thesis using y by (simp add: ids_found_def)
    qed (auto simp: next_batch_def reslice_def split: if_splits)
  next
    case False
    then have y: "y = (Return acc, server, w)" using eq by simp
    have "\<not> i < int (length (ui_SubscribedTo u))" using False user by simp
    from gtv_steps(1) [OF subs_done [OF this] rtranclp.rtrancl_refl] y server show ?thesis by (simp add: ids_found_def)
  qed
  then show ?case by simp
qed

lemma after_user_run:
  assumes "after_user C B sf req c u (seq_view s) w = Some (r, server', w')" and sf: "go_sort sf"
  shows "can_leave B sf (AskingSubs req c u 0 [] False, s) r server'"
proof -
  obtain q where q: "subscribed_loop C c (req_UserId req) (ui_SubscribedTo u) 0 [] (seq_view s) w = Some q"
    using assms(1) by (auto simp: after_user_def split: option.splits)
  obtain r1 s1 w1 where q3: "q = (r1, s1, w1)" by (metis prod.exhaust)
  have found: "ids_found B sf req u (AskingSubs req c u 0 [] False) s r1 s1"
    using subscribed_loop_run [OF q, of s req u B sf] q3 by simp
  show ?thesis
  proof (cases r1)
    case (Return ids)
    then have s1: "s1 = seq_view s"
      and run: "(gtv_move B sf)\<^sup>*\<^sup>* (AskingSubs req c u 0 [] False, s) (PickingVideo req u (deduplicate_ids ids), s)"
      using found by (simp_all add: ids_found_def)
    have "fetch_and_rank C B sf (ui_UserCoefficients u) (req_Limit req) (deduplicate_ids ids) (seq_view s) w1 = Some (r, server', w')"
      using assms(1) q q3 Return s1 by (simp add: after_user_def)
    from can_leave_after [OF run fetch_run [OF this sf]] show ?thesis .
  next
    case Blocks
    then show ?thesis using assms(1) q q3 by (simp add: after_user_def can_leave_blocks)
  qed (use assms(1) q q3 found in \<open>auto simp: after_user_def ids_found_def\<close>)
qed

lemma body_run:
  assumes "top_videos_body C B sf req (seq_view s) w = Some (r, server', w')" and sf: "go_sort sf"
  shows "can_leave B sf (Validating req, s) r server'"
proof (cases "req_Limit req < 0")
  case True
  then show ?thesis using assms(1)
    by (auto simp: top_videos_body_def answer_of_def intro!: can_leave_step(1) [OF invalid] can_leave_now)
next
  case False
  then have lim: "0 \<le> req_Limit req" by simp
  show ?thesis
  proof (cases "getNextUserClient (srv s)")
    case (Return p)
    obtain c sv where p: "getNextUserClient (srv s) = Return (c, sv)" using Return by (cases p) simp
    let ?s = "s\<lparr>srv := sv\<rparr>"
    have pick: "getNextUserClient (seq_view s) = Return (c, seq_view ?s)"
      using p by (simp add: seq_view_def [of s] picks_seq_view)
    obtain q w1 where q: "retrying (\<not> DisableRetry (options (seq_view ?s))) (cl_GetUser C c [req_UserId req]) w = (q, w1)"
      by (rule prod.exhaust)
    note body = assms(1) [unfolded top_videos_body_cases [OF lim pick q]]
    have "can_leave B sf (AskingUser req c False, ?s) r server'"
    proof (cases q)
      case (Return us)
      note answer = user_answers [of req c False ?s us]
      show ?thesis
      proof (cases us)
        case Nil
        then have "r = Panics IndexOutOfRange" "server' = seq_view ?s" using body Return by simp_all
        moreover have "user_move (AskingUser req c False, ?s) (Leaving1 (Panics IndexOutOfRange), ?s)" using answer Nil by simp
        ultimately show ?thesis using can_leave_step(1) [OF _ can_leave_panic [of ?s "seq_view ?s"]] by blast
      next
        case (Cons u us')
        then have "after_user C B sf req c u (seq_view ?s) w1 = Some (r, server', w')" using body Return by simp
        from can_leave_step(1) [OF _ after_user_run [OF this sf]] answer Cons show ?thesis by simp
      qed
    next
      case (Fails st)
      then have r: "r = Fails (Status (st_code st) (first_prefix req @ st_message st))" "server' = user_failure (seq_view ?s)"
        using body by (simp_all add: first_prefix_def)
      show ?thesis
      proof (cases "DisableRetry (options sv)")
        case True
        then show ?thesis unfolding r by (intro can_leave_step(1) [OF user_fails user_failed_leaves]) simp
      next
        case False
        then have "user_move (AskingUser req c False, ?s) (AskingUser req c True, ?s)" by (intro user_again) simp
        then show ?thesis unfolding r
          by (rule can_leave_step(1)) (intro can_leave_step(1) [OF user_fails user_failed_leaves], simp)
      qed
    next
      case (Panics p)
      then have "r = Panics p" "server' = seq_view ?s" using body by simp_all
      then show ?thesis by (auto intro!: can_leave_step(1) [OF user_panics] can_leave_panic)
    next
      case Blocks
      then show ?thesis using body by (simp add: can_leave_blocks)
    qed
    then show ?thesis by (rule can_leave_step(1) [OF pick_user [OF lim p]])
  next
    case (Panics p)
    then have "getNextUserClient (seq_view s) = Panics p" by (simp add: seq_view_def picks_seq_view)
    then have "r = Panics p" "server' = seq_view s" using assms(1) False by (simp_all add: top_videos_body_def)
    then show ?thesis by (auto intro!: can_leave_step(1) [OF pick_user_panics [OF lim Panics]] can_leave_panic)
  qed (simp_all add: getNextUserClient_frame)
qed

section \<open>The whole handler\<close>

lemma request_alone:
  assumes "GetTopVideos C B sf elapsed req (seq_view s) w = Some (r, server', w')" and "r \<noteq> Blocks" and sf: "go_sort sf"
  shows "\<exists>res t. (gtv_move B sf)\<^sup>*\<^sup>* (Idle, s) (Ended res, t) \<and> answer_of t res = r \<and> seq_view t = server'"
proof -
  let ?s1 = "s\<lparr>srv := (srv s)\<lparr>totalRequests := totalRequests (srv s) + 1\<rparr>\<rparr>"
  let ?s2 = "?s1\<lparr>srv := (srv ?s1)\<lparr>activeRequests := activeRequests (srv ?s1) + 1\<rparr>\<rparr>"
  from GetTopVideos_body [OF assms(1)] obtain server where
    "top_videos_body C B sf req
      ((seq_view s)\<lparr>totalRequests := totalRequests (seq_view s) + 1, activeRequests := activeRequests (seq_view s) + 1\<rparr>) w
      = Some (r, server, w')"
    and server': "server' = server\<lparr>totalTimeMs := totalTimeMs server + elapsed, activeRequests := activeRequests server + not 0\<rparr>"
    using assms(2) by metis
  then have "top_videos_body C B sf req (seq_view ?s2) w = Some (r, server, w')" by (simp add: seq_view_def [of s])
  from body_run [OF this sf] obtain res t where
    t: "(gtv_move B sf)\<^sup>*\<^sup>* (Validating req, ?s2) (Leaving1 res, t)" "answer_of t res = r" "seq_view t = server"
    using assms(2) unfolding can_leave_def by blast
  let ?t1 = "t\<lparr>srv := (srv t)\<lparr>totalTimeMs := totalTimeMs (srv t) + elapsed\<rparr>\<rparr>"
  let ?t2 = "?t1\<lparr>srv := (srv ?t1)\<lparr>activeRequests := activeRequests (srv ?t1) + not 0\<rparr>\<rparr>"
  have "(gtv_move B sf)\<^sup>*\<^sup>* (Leaving1 res, t) (Ended res, ?t2)"
    by (rule gtv_steps(4) [OF add_time [where elapsed = elapsed]], rule gtv_steps(4) [OF deactivate]) (rule rtranclp.rtrancl_refl)
  with t(1) have "(gtv_move B sf)\<^sup>*\<^sup>* (Validating req, ?s2) (Ended res, ?t2)" by (rule rtranclp_trans)
  then have "(gtv_move B sf)\<^sup>*\<^sup>* (Idle, s) (Ended res, ?t2)"
    by (intro gtv_steps(1) [OF enter [of s req]] gtv_steps(1) [OF activate]) simp_all
  moreover have "answer_of ?t2 res = r"
    using t(2) by simp
  moreover have "seq_view ?t2 = server'" unfolding server' t(3) [symmetric] by (simp add: seq_view_def [of t])
  ultimately show ?thesis by blast
qed

text \<open>
  C6: the concurrent model refines the sequential one. Whatever \<open>GetTopVideos\<close> does with any clients when
  it is the only call (a response, an error or a panic, and what is left in the server and its cache),
  the server of VideoRecThreads can do in any state in which that request has not begun, by the steps of
  the request's goroutine alone: the counters, the round-robin indexes and the cached videos are the
  ones the sequential handler leaves, and the slice that the goroutine returns holds its response. In
  particular the exchanges by which the shared array is sorted in place end in the order that
  \<open>slices.SortFunc\<close> returns, for arrays sorted by insertion and for longer ones.
\<close>
theorem lone_request_refines:
  assumes "GetTopVideos C B sf elapsed req (seq_view (shared s)) w = Some (r, server', w')" and "r \<noteq> Blocks"
    and "go_sort sf" and "reqs s g = Idle"
  shows "\<exists>res sh. (rec_step B sf T)\<^sup>*\<^sup>* s (s\<lparr>reqs := (reqs s)(g := Ended res), shared := sh\<rparr>) \<and>
    answer_of sh res = r \<and> seq_view sh = server'"
proof -
  obtain res t where "(gtv_move B sf)\<^sup>*\<^sup>* (Idle, shared s) (Ended res, t)" "answer_of t res = r" "seq_view t = server'"
    using request_alone [OF assms(1-3)] by blast
  then show ?thesis using request_run_from [of B sf T s s g] assms(4) by auto
qed

lemma insertion_is_go_sort: "go_sort insertion_sort"
  by (simp add: go_sort_def insertion_sort_ok)

text \<open>With the video service down and nothing cached, the request ends in an error.\<close>

theorem lone_request_refines_witness:
  "\<exists>st res sh. (rec_step plain_cipher insertion_sort UNIV)\<^sup>*\<^sup>* (rec_init demo_server)
       ((rec_init demo_server)\<lparr>reqs := (\<lambda>_. Idle)(3 := Ended res), shared := sh\<rparr>) \<and>
     answer_of sh res = Fails st \<and> totalErrors (seq_view sh) = 1 \<and> activeRequests (seq_view sh) = 0"
proof -
  have view: "seq_view (shared (rec_init demo_server)) = demo_server"
    by (simp add: seq_view_def cached_def rec_init_def demo_server_def new_server_def)
  have idle: "reqs (rec_init demo_server) = (\<lambda>_. Idle)" by (simp add: rec_init_def)
  obtain st s w where run: "GetTopVideos down_clients plain_cipher insertion_sort 5 (demo_request 7) demo_server () = Some (Fails st, s, w)"
    and s: "totalErrors s = 1" "activeRequests s = 0"
    by (simp add: demo_run)
  from lone_request_refines [of down_clients plain_cipher insertion_sort 5 "demo_request 7" "rec_init demo_server" "()"
      "Fails st" s w 3 UNIV, unfolded view idle, OF run _ insertion_is_go_sort] s
  show ?thesis by auto
qed

section \<open>The refresh\<close>

lemma refresh_go:
  assumes "(rec_step B sf T)\<^sup>*\<^sup>* s0 (s\<lparr>refresher := rp, shared := sh\<rparr>)" and "refresh_move T (rp, sh) (rp', sh')"
  shows "(rec_step B sf T)\<^sup>*\<^sup>* s0 (s\<lparr>refresher := rp', shared := sh'\<rparr>)"
proof -
  let ?s = "s\<lparr>refresher := rp, shared := sh\<rparr>"
  have "rec_step B sf T ?s (?s\<lparr>refresher := rp', shared := sh'\<rparr>)" by (rule rec_step.refresh) (simp add: assms(2))
  with assms(1) have "(rec_step B sf T)\<^sup>*\<^sup>* s0 (?s\<lparr>refresher := rp', shared := sh'\<rparr>)"
    by (rule rtranclp.rtrancl_into_rtrancl)
  then show ?thesis by simp
qed

text \<open>A turn of the sequential refresh loop that ends in a pause is a run of the refreshing goroutine.\<close>

lemma refresh_turn_refines:
  assumes turn: "refresh_turn C (seq_view (shared s)) w = (pause, server', w')"
    and pause: "\<exists>n. pause = PauseFor n \<or> pause = PauseUntil n"
    and T: "set (topVideos server') \<subseteq> T" and idle: "refresher s = Pausing" and on: "\<not> DisableFallback (options (srv (shared s)))"
  shows "\<exists>sh. (rec_step B sf T)\<^sup>*\<^sup>* s (s\<lparr>refresher := Pausing, shared := sh\<rparr>) \<and> seq_view sh = server'"
proof (cases "getNextVideoClient (srv (shared s))")
  case (Return p)
  obtain c sv where p: "getNextVideoClient (srv (shared s)) = Return (c, sv)" using Return by (cases p) simp
  let ?h = "(shared s)\<lparr>srv := sv\<rparr>"
  have pick: "getNextVideoClient (seq_view (shared s)) = Return (c, seq_view ?h)"
    using p by (simp add: seq_view_def [of "shared s"] picks_seq_view)
  let ?s = "\<lambda>rp sh. s\<lparr>refresher := rp, shared := sh\<rparr>"
  have "?s Pausing (shared s) = s" using idle by (intro rec_sys.equality) simp_all
  then have "(rec_step B sf T)\<^sup>*\<^sup>* s (?s Pausing (shared s))" by simp
  then have one: "(rec_step B sf T)\<^sup>*\<^sup>* s (?s (AskingTrending c) ?h)" by (rule refresh_go) (rule wake [OF on p])
  then have two: "(rec_step B sf T)\<^sup>*\<^sup>* s (?s (AskingTrendingVideos c) ?h)" by (rule refresh_go) (rule trending)
  have failed: "(rec_step B sf T)\<^sup>*\<^sup>* s (?s Pausing ?h)" by (rule refresh_go [OF one no_trending])
  have installed: "(rec_step B sf T)\<^sup>*\<^sup>* s (?s Pausing (?h\<lparr>arrays := (arrays ?h)(next_array ?h := infos),
      next_array := Suc (next_array ?h), cache := Some (next_array ?h)\<rparr>))" if "set infos \<subseteq> T" for infos
    by (rule refresh_go [OF two install_videos [OF that]])
  obtain q w1 where q: "cl_GetTrendingVideos C c w = (q, w1)" by (rule prod.exhaust)
  show ?thesis
  proof (cases q)
    case (Return resp)
    obtain q2 w2 where q2: "cl_GetVideo C c (tv_Videos resp) w1 = (q2, w2)" by (rule prod.exhaust)
    show ?thesis
    proof (cases q2)
      case (Return infos)
      then have server': "server' = (seq_view ?h)\<lparr>topVideos := infos\<rparr>"
        using turn pick q q2 \<open>q = _\<close> by (simp add: refresh_turn_def)
      then have "set infos \<subseteq> T" using T by simp
      note installed [OF this]
      moreover have "seq_view (?h\<lparr>arrays := (arrays ?h)(next_array ?h := infos),
          next_array := Suc (next_array ?h), cache := Some (next_array ?h)\<rparr>) = server'"
        by (simp add: server' seq_view_def cached_def)
      ultimately show ?thesis by blast
    next
      case (Fails st)
      then have "server' = seq_view ?h" using turn pick q q2 Return by (simp add: refresh_turn_def)
      then show ?thesis using failed by blast
    qed (use turn pick q q2 Return pause in \<open>auto simp: refresh_turn_def\<close>)
  next
    case (Fails st)
    then have "server' = seq_view ?h" using turn pick q by (simp add: refresh_turn_def)
    then show ?thesis using failed by blast
  qed (use turn pick q pause in \<open>auto simp: refresh_turn_def\<close>)
next
  case (Panics p)
  then have "getNextVideoClient (seq_view (shared s)) = Panics p" by (simp add: seq_view_def picks_seq_view)
  then show ?thesis using turn pause by (auto simp: refresh_turn_def)
qed (simp_all add: getNextVideoClient_frame)

end
