(* ===== verification/Logging.thy ===== *)
theory Logging
  imports FailureInjection Decimal
begin

text \<open>
  lab1/logging/logging.go: the interceptor that times and logs every gRPC request, and its two loggers.
  \<open>net.IP.String\<close> is standard library and written out. What the request's context and the machine
  answer (the peer, reverse lookups, the host name) is a record of parameters, the InfluxDB client is a
  value made by a parameter, and the conversion of microseconds to a floating point number of
  milliseconds is the parameter \<open>ms\<close>. What a logger does is the list of the records it writes.
\<close>

section \<open>Addresses as text\<close>

definition hex_char :: "nat \<Rightarrow> char" where
  "hex_char d = ''0123456789abcdef'' ! d"

fun hex_digits :: "nat \<Rightarrow> string" where
  "hex_digits n = (if n < 16 then [hex_char n] else hex_digits (n div 16) @ [hex_char (n mod 16)])"

declare hex_digits.simps [simp del]

definition hexString :: "bytes \<Rightarrow> string" where
  "hexString b = concat (map (\<lambda>x. [hex_char (unat x div 16), hex_char (unat x mod 16)]) b)"

definition To4 :: "bytes \<Rightarrow> bytes option" where
  "To4 ip =
     (if length ip = 4 then Some ip
      else if length ip = 16 \<and> take 12 ip = replicate 10 0 @ [255, 255] then Some (drop 12 ip)
      else None)"

definition dotted :: "bytes \<Rightarrow> string" where
  "dotted ip = concat (map (\<lambda>i. (if 0 < i then ''.'' else '''') @ dec_string (unat (ip ! i))) [0..<length ip])"

text \<open>The first longest run of at least two zero groups: its start and its end; none is \<open>(255, 255)\<close>.\<close>

definition zero_run :: "nat list \<Rightarrow> nat \<times> nat" where
  "zero_run groups =
     foldl (\<lambda>(zeroStart, zeroEnd) i.
         let j = i + length (takeWhile (\<lambda>g. g = 0) (drop i groups)) in
         if 2 \<le> j - i \<and> zeroEnd - zeroStart < j - i then (i, j) else (zeroStart, zeroEnd))
       (255, 255) [0..<8]"

definition v6_string :: "bytes \<Rightarrow> string" where
  "v6_string ip =
     (let groups = map (\<lambda>i. unat (ip ! (2 * i)) * 256 + unat (ip ! (2 * i + 1))) [0..<8];
          (zeroStart, zeroEnd) = zero_run groups
      in concat (map (\<lambda>i.
             if zeroStart \<le> i \<and> i < zeroEnd then (if i = zeroStart then ''::'' else [])
             else (if 0 < i \<and> i \<noteq> zeroEnd then '':'' else []) @ hex_digits (groups ! i)) [0..<8]))"

definition IP_String :: "bytes \<Rightarrow> string" where
  "IP_String ip =
     (if length ip = 0 then ''<nil>''
      else if length ip \<noteq> 4 \<and> length ip \<noteq> 16 then ''?'' @ hexString ip
      else case To4 ip of Some p4 \<Rightarrow> dotted p4 | None \<Rightarrow> v6_string ip)"

section \<open>The peer of a request\<close>

datatype net_addr = TCPAddr bytes | UDPAddr bytes | OtherAddr

record log_env =
  env_peer :: "net_addr option"
  env_lookup :: "string \<Rightarrow> (string, string list) go_result"
  env_hostname :: string
  env_now :: int

definition getIpFromAddr :: "net_addr \<Rightarrow> string" where
  "getIpFromAddr addr = (case addr of TCPAddr ip \<Rightarrow> IP_String ip | UDPAddr ip \<Rightarrow> IP_String ip | OtherAddr \<Rightarrow> ''unknown'')"

definition getPeerHost :: "log_env \<Rightarrow> string" where
  "getPeerHost env =
     (case env_peer env of
        None \<Rightarrow> ''unknown''
      | Some addr \<Rightarrow>
          (let ip = getIpFromAddr addr in
           case env_lookup env ip of
             Return hostname \<Rightarrow> if 1 \<le> length hostname then hostname ! 0 else ip
           | _ \<Rightarrow> ip))"

section \<open>Loggers\<close>

text \<open>A line on stderr, or a point handed to the write API with its measurement, tags, fields and time.\<close>

datatype ('api, 'f) log_record =
    StderrLine string bool 'f
  | WritePoint 'api string "(string \<times> string) list" bool 'f int

definition logToStderr :: "string \<Rightarrow> bool \<Rightarrow> 'f \<Rightarrow> ('api, 'f) log_record list" where
  "logToStderr peerAddr isError latencyMs = [StderrLine peerAddr isError latencyMs]"

datatype 'api Logger =
    StderrLogger
  | InfluxLogger (lg_measurement: string) (lg_writeApi: 'api)

text \<open>\<open>influxdb2.NewClient\<close> and \<open>WriteAPI\<close> together are the parameter \<open>newWriteAPI\<close>.\<close>

type_synonym 'api influx = "string \<Rightarrow> string \<Rightarrow> string \<Rightarrow> string \<Rightarrow> 'api"

definition MakeInfluxLogger :: "'api influx \<Rightarrow> string \<Rightarrow> string \<Rightarrow> string \<Rightarrow> string \<Rightarrow> string \<Rightarrow> 'api Logger" where
  "MakeInfluxLogger newWriteAPI url authToken org bucket measurement =
     InfluxLogger measurement (newWriteAPI url authToken org bucket)"

fun LogRequest :: "'api Logger \<Rightarrow> log_env \<Rightarrow> bool \<Rightarrow> 'f \<Rightarrow> ('api, 'f) log_record list" where
  "LogRequest StderrLogger env isError latencyMs = logToStderr (getPeerHost env) isError latencyMs"
| "LogRequest (InfluxLogger measurement writeApi) env isError latencyMs =
     (let peerAddr = getPeerHost env; hostname = env_hostname env in
      logToStderr peerAddr isError latencyMs @
      [WritePoint writeApi measurement [(''client'', peerAddr), (''host'', hostname)] isError latencyMs (env_now env)])"

record logging_flags =
  influxDbUrl :: string
  influxDbAuthToken :: string
  influxOrg :: string
  influxBucket :: string
  influxMeasurement :: string

definition default_logging_flags :: logging_flags where
  "default_logging_flags = \<lparr>influxDbUrl = [], influxDbAuthToken = [], influxOrg = ''influxdata'',
     influxBucket = ''default'', influxMeasurement = []\<rparr>"

definition MakeLogger :: "'api influx \<Rightarrow> logging_flags \<Rightarrow> 'api Logger outcome" where
  "MakeLogger newWriteAPI flags =
     (if length (influxDbUrl flags) = 0 then Return StderrLogger
      else if length (influxDbAuthToken flags) = 0 \<or> length (influxMeasurement flags) = 0 then Panics LogFatal
      else Return (MakeInfluxLogger newWriteAPI (influxDbUrl flags) (influxDbAuthToken flags) (influxOrg flags)
             (influxBucket flags) (influxMeasurement flags)))"

section \<open>The interceptor\<close>

text \<open>
  \<open>now\<close> reads the clock in microseconds. The request's context is the environment \<open>env\<close>. A handler that
  panics or hangs never gets to the logging.
\<close>

definition MakeMiddleware :: "('w \<Rightarrow> int) \<Rightarrow> (int \<Rightarrow> 'f) \<Rightarrow> 'api Logger \<Rightarrow> log_env \<Rightarrow> 'req \<Rightarrow>
    ('req \<Rightarrow> 'w \<Rightarrow> 'resp outcome \<times> 'w) \<Rightarrow> 'w \<Rightarrow> 'resp outcome \<times> ('api, 'f) log_record list \<times> 'w" where
  "MakeMiddleware now ms logger env req handler w =
     (let startTime = now w in
      case handler req w of
        (Return resp, w) \<Rightarrow> (Return resp, LogRequest logger env False (ms (now w - startTime)), w)
      | (Fails err, w) \<Rightarrow> (Fails err, LogRequest logger env True (ms (now w - startTime)), w)
      | (Panics p, w) \<Rightarrow> (Panics p, [], w)
      | (Blocks, w) \<Rightarrow> (Blocks, [], w))"

lemma MakeMiddleware_result:
  "fst (MakeMiddleware now ms logger env req handler w) = fst (handler req w)"
  "snd (snd (MakeMiddleware now ms logger env req handler w)) = snd (handler req w)"
  by (simp_all add: MakeMiddleware_def Let_def split: prod.splits go_result.splits)

lemma MakeMiddleware_Return:
  assumes "handler req w = (Return resp, w')"
  shows "MakeMiddleware now ms logger env req handler w =
    (Return resp, LogRequest logger env False (ms (now w' - now w)), w')"
  using assms by (simp add: MakeMiddleware_def)

text \<open>
  The interceptor is transparent and logs each finished request once. Whatever the handler does, its
  result and its effect pass through unchanged. If it returned a value or an error, there is exactly one
  line on stderr, naming the peer, with the error flag set exactly for an error, and with InfluxDB
  configured also one point of the configured measurement with the same flag and latency; a handler
  that panics or hangs is not logged at all.
\<close>
lemma middleware_transparent:
  shows "fst (MakeMiddleware now ms logger env req handler w) = fst (handler req w)"
    and "snd (snd (MakeMiddleware now ms logger env req handler w)) = snd (handler req w)"
    and "fst (snd (MakeMiddleware now ms logger env req handler w)) =
      (let line = StderrLine (getPeerHost env) (\<not> returns (fst (handler req w))) (ms (now (snd (handler req w)) - now w));
           point = (\<lambda>measurement api. WritePoint api measurement
             [(''client'', getPeerHost env), (''host'', env_hostname env)]
             (\<not> returns (fst (handler req w))) (ms (now (snd (handler req w)) - now w)) (env_now env))
       in if \<not> safe (fst (handler req w)) then []
          else case logger of StderrLogger \<Rightarrow> [line] | InfluxLogger measurement api \<Rightarrow> [line, point measurement api])"
  by (auto simp: MakeMiddleware_def logToStderr_def Let_def split: prod.splits go_result.splits Logger.splits)

end
