(* ===== verification/ServerPrograms.thy ===== *)
theory ServerPrograms
  imports ClientTools Logging
begin

text \<open>
  The three server programs of lab1: what each \<open>main\<close> builds from its command line and hands to
  \<open>Serve\<close>. Parsing the flags is the flag package's; a record holds their values and a definition their
  defaults. \<open>net.Listen\<close>, \<open>grpc.NewClient\<close> and \<open>Serve\<close> are parameters.
\<close>

section \<open>Starting a program\<close>

text \<open>\<open>log.Fatalf\<close> on an error.\<close>

definition or_fatal :: "('e, 'a) go_result \<Rightarrow> 'a outcome" where
  "or_fatal r = (case r of Return x \<Rightarrow> Return x | Fails _ \<Rightarrow> Panics LogFatal | Panics p \<Rightarrow> Panics p | Blocks \<Rightarrow> Blocks)"

text \<open>What is handed to \<open>Serve\<close>: the listener, the interceptor's logger and the registered service.\<close>

record ('lis, 'api, 's) serving =
  sg_listener :: 'lis
  sg_logger :: "'api Logger"
  sg_service :: 's

type_synonym 'lis listener = "string \<Rightarrow> string \<Rightarrow> (string, 'lis) go_result"

section \<open>The user service program\<close>

record user_flags =
  uf_port :: int
  uf_seed :: int
  uf_sleepNs :: int
  uf_failureRate :: int
  uf_responseOmissionRate :: int
  uf_maxBatchSize :: int

definition default_user_flags :: user_flags where
  "default_user_flags = \<lparr>uf_port = 8081, uf_seed = 42, uf_sleepNs = 0, uf_failureRate = 0,
     uf_responseOmissionRate = 0, uf_maxBatchSize = 50\<rparr>"

definition user_server_main :: "'lis listener \<Rightarrow> 'api influx \<Rightarrow> ('g, 'f) rand_ops \<Rightarrow>
    (('lis, 'api, UserServiceServer) serving \<Rightarrow> (string, unit) go_result) \<Rightarrow> logging_flags \<Rightarrow> user_flags \<Rightarrow> unit outcome" where
  "user_server_main listen newWriteAPI R serve lflags flags =
     bind_go (or_fatal (listen ''tcp'' ('':'' @ int_string (uf_port flags)))) (\<lambda>lis.
     bind_go (MakeLogger newWriteAPI lflags) (\<lambda>logger.
       or_fatal (serve \<lparr>sg_listener = lis, sg_logger = logger,
         sg_service = fst (MakeUserServiceServer R
           \<lparr>uo_Seed = uf_seed flags, uo_SleepNs = uf_sleepNs flags, uo_FailureRate = uf_failureRate flags,
            uo_ResponseOmissionRate = uf_responseOmissionRate flags, uo_MaxBatchSize = uf_maxBatchSize flags\<rparr>)\<rparr>)))"

section \<open>The video service program\<close>

record video_flags =
  vf_port :: int
  vf_seed :: int
  vf_ttlSeconds :: int
  vf_sleepNs :: int
  vf_failureRate :: int
  vf_responseOmissionRate :: int
  vf_maxBatchSize :: int

definition default_video_flags :: video_flags where
  "default_video_flags = \<lparr>vf_port = 8082, vf_seed = 42, vf_ttlSeconds = 60, vf_sleepNs = 0, vf_failureRate = 0,
     vf_responseOmissionRate = 0, vf_maxBatchSize = 50\<rparr>"

definition video_server_main :: "'lis listener \<Rightarrow> 'api influx \<Rightarrow> ('g, 'f) rand_ops \<Rightarrow>
    (('lis, 'api, VideoServiceServer) serving \<Rightarrow> (string, unit) go_result) \<Rightarrow> logging_flags \<Rightarrow> video_flags \<Rightarrow> unit outcome" where
  "video_server_main listen newWriteAPI R serve lflags flags =
     bind_go (or_fatal (listen ''tcp'' ('':'' @ int_string (vf_port flags)))) (\<lambda>lis.
     bind_go (MakeLogger newWriteAPI lflags) (\<lambda>logger.
       or_fatal (serve \<lparr>sg_listener = lis, sg_logger = logger,
         sg_service = fst (MakeVideoServiceServer R
           \<lparr>vo_Seed = vf_seed flags, vo_TtlSeconds = vf_ttlSeconds flags, vo_SleepNs = vf_sleepNs flags,
            vo_FailureRate = vf_failureRate flags, vo_ResponseOmissionRate = vf_responseOmissionRate flags,
            vo_MaxBatchSize = vf_maxBatchSize flags\<rparr>)\<rparr>)))"

section \<open>The recommendation service program\<close>

record rec_flags =
  rf_port :: int
  rf_userServiceAddr :: string
  rf_videoServiceAddr :: string
  rf_clientPoolSize :: int
  rf_maxBatchSize :: int
  rf_disableFallback :: bool
  rf_disableRetry :: bool

definition default_rec_flags :: rec_flags where
  "default_rec_flags = \<lparr>rf_port = 8080, rf_userServiceAddr = ''[::]:8081'', rf_videoServiceAddr = ''[::]:8082'',
     rf_clientPoolSize = 4, rf_maxBatchSize = 50, rf_disableFallback = False, rf_disableRetry = False\<rparr>"

text \<open>
  The goroutine of \<open>ContinuallyRefreshCache\<close> is started after the server is made; it and the handlers
  then run concurrently, \<open>serve\<close> covers both.
\<close>

definition rec_server_main :: "'lis listener \<Rightarrow> 'api influx \<Rightarrow> (string \<Rightarrow> 'w \<Rightarrow> (string, 'conn) go_result \<times> 'w) \<Rightarrow>
    ('conn \<Rightarrow> 'u) \<Rightarrow> ('conn \<Rightarrow> 'v) \<Rightarrow>
    (('lis, 'api, ('u, 'v) VideoRecServiceServer) serving \<Rightarrow> 'w \<Rightarrow> (string, unit) go_result) \<Rightarrow>
    logging_flags \<Rightarrow> rec_flags \<Rightarrow> 'w \<Rightarrow> unit outcome" where
  "rec_server_main listen newWriteAPI newClient newUserServiceClient newVideoServiceClient serve lflags flags w =
     bind_go (or_fatal (listen ''tcp'' ('':'' @ int_string (rf_port flags)))) (\<lambda>lis.
     bind_go (MakeLogger newWriteAPI lflags) (\<lambda>logger.
       case MakeVideoRecServiceServer newClient newUserServiceClient newVideoServiceClient
              \<lparr>UserServiceAddr = rf_userServiceAddr flags, VideoServiceAddr = rf_videoServiceAddr flags,
               MaxBatchSize = rf_maxBatchSize flags, ClientPoolSize = rf_clientPoolSize flags,
               DisableFallback = rf_disableFallback flags, DisableRetry = rf_disableRetry flags\<rparr> w of
         (r, w) \<Rightarrow>
           bind_go (or_fatal r) (\<lambda>server.
             or_fatal (serve \<lparr>sg_listener = lis, sg_logger = logger, sg_service = server\<rparr> w))))"

section \<open>The default deployment\<close>

lemma connect_pool_up:
  assumes "\<And>w. newClient addr w = (Return (conn addr), w)"
  shows "connect_pool newClient retry what addr n w = (Return (replicate n (conn addr)), w)"
  by (induction n) (simp_all add: retrying_def assms)

text \<open>
  Started without flags the three programs fit together. If the ports can be listened on, the user
  and video programs serve a freshly made service with the default options of its library, all three
  log to stderr, and the recommendation program serves a server whose two pools of four clients are
  connected to the addresses that the other two programs listen on and whose options are compatible with
  theirs; the frontend looks for both services at the addresses they listen on.
\<close>
lemma default_programs_fit:
  fixes newClient :: "string \<Rightarrow> 'w \<Rightarrow> (string, 'conn) go_result \<times> 'w"
  assumes "\<And>addr. listen ''tcp'' addr = Return (lis addr)" and "\<And>addr w. newClient addr w = (Return (conn addr), w)"
  shows "user_server_main listen newWriteAPI R serve default_logging_flags default_user_flags =
      or_fatal (serve \<lparr>sg_listener = lis '':8081'', sg_logger = StderrLogger,
        sg_service = fst (MakeUserServiceServer R DefaultUserServiceOptions)\<rparr>)"
    and "video_server_main listen newWriteAPI R vserve default_logging_flags default_video_flags =
      or_fatal (vserve \<lparr>sg_listener = lis '':8082'', sg_logger = StderrLogger,
        sg_service = fst (MakeVideoServiceServer R DefaultVideoServiceOptions)\<rparr>)"
    and "\<exists>opts. compatible opts DefaultUserServiceOptions DefaultVideoServiceOptions \<and>
      rec_server_main listen newWriteAPI newClient newUser newVideo rserve default_logging_flags default_rec_flags w =
      or_fatal (rserve \<lparr>sg_listener = lis '':8080'', sg_logger = StderrLogger,
        sg_service = new_server opts (replicate 4 (newUser (conn ''[::]:8081'')))
          (replicate 4 (newVideo (conn ''[::]:8082'')))\<rparr> w)"
    and "ff_videoRecServiceAddr default_frontend_flags = ''[::]'' @ '':8080''"
    and "ff_userServiceAddr default_frontend_flags = ''[::]'' @ '':8081''"
proof -
  have ports: "int_string 8080 = ''8080''" "int_string 8081 = ''8081''" "int_string 8082 = ''8082''"
    by (simp_all add: int_string_def dec_string_def digits.simps char_of_eq_iff)
  show "user_server_main listen newWriteAPI R serve default_logging_flags default_user_flags =
      or_fatal (serve \<lparr>sg_listener = lis '':8081'', sg_logger = StderrLogger,
        sg_service = fst (MakeUserServiceServer R DefaultUserServiceOptions)\<rparr>)"
    by (simp add: user_server_main_def default_user_flags_def default_logging_flags_def MakeLogger_def
        DefaultUserServiceOptions_def or_fatal_def assms(1) ports)
  show "video_server_main listen newWriteAPI R vserve default_logging_flags default_video_flags =
      or_fatal (vserve \<lparr>sg_listener = lis '':8082'', sg_logger = StderrLogger,
        sg_service = fst (MakeVideoServiceServer R DefaultVideoServiceOptions)\<rparr>)"
    by (simp add: video_server_main_def default_video_flags_def default_logging_flags_def MakeLogger_def
        DefaultVideoServiceOptions_def or_fatal_def assms(1) ports)
  note pool = connect_pool_up [where conn = conn and newClient = newClient, OF assms(2)]
  let ?opts = "\<lparr>UserServiceAddr = ''[::]:8081'', VideoServiceAddr = ''[::]:8082'', MaxBatchSize = 50,
    ClientPoolSize = 4, DisableFallback = False, DisableRetry = False\<rparr>"
  have "compatible ?opts DefaultUserServiceOptions DefaultVideoServiceOptions"
    by (simp add: compatible_def DefaultUserServiceOptions_def DefaultVideoServiceOptions_def)
  moreover have "rec_server_main listen newWriteAPI newClient newUser newVideo rserve default_logging_flags
      default_rec_flags w =
    or_fatal (rserve \<lparr>sg_listener = lis '':8080'', sg_logger = StderrLogger,
      sg_service = new_server ?opts (replicate 4 (newUser (conn ''[::]:8081'')))
        (replicate 4 (newVideo (conn ''[::]:8082'')))\<rparr> w)"
    by (simp add: rec_server_main_def default_rec_flags_def default_logging_flags_def MakeLogger_def
        MakeVideoRecServiceServer_def pool or_fatal_def assms(1) ports Let_def)
  ultimately show "\<exists>opts. compatible opts DefaultUserServiceOptions DefaultVideoServiceOptions \<and>
      rec_server_main listen newWriteAPI newClient newUser newVideo rserve default_logging_flags default_rec_flags w =
      or_fatal (rserve \<lparr>sg_listener = lis '':8080'', sg_logger = StderrLogger,
        sg_service = new_server opts (replicate 4 (newUser (conn ''[::]:8081'')))
          (replicate 4 (newVideo (conn ''[::]:8082'')))\<rparr> w)"
    by blast
qed (simp_all add: default_frontend_flags_def)

lemma default_programs_fit_witness:
  "user_server_main (\<lambda>_ addr. Return addr) (\<lambda>_ _ _ _. ()) zero_ops (\<lambda>_. Fails ''accept'')
     default_logging_flags default_user_flags = Panics LogFatal"
  using default_programs_fit(1) [of "\<lambda>_ addr. Return addr" "\<lambda>addr. addr" "\<lambda>addr w. (Return addr, w)" "\<lambda>addr. addr"
      "\<lambda>_ _ _ _. ()" zero_ops "\<lambda>_. Fails ''accept''"]
  by (simp add: or_fatal_def)

section \<open>The services behind their interceptors\<close>

text \<open>
  The backends as their programs serve them: each request passes the interceptor of its server, which
  appends to the log. The clocks, peers and loggers of the two programs are arbitrary.
\<close>

record ('g, 'api, 'f) interceptors =
  ic_now :: "'g world \<Rightarrow> int"
  ic_ms :: "int \<Rightarrow> 'f"
  ic_logger :: "'api Logger"
  ic_env :: log_env

type_synonym ('g, 'api, 'f) logged_world = "'g world \<times> ('api, 'f) log_record list"

definition intercepted :: "('g, 'api, 'f) interceptors \<Rightarrow> ('req \<Rightarrow> 'g world \<Rightarrow> 'resp outcome \<times> 'g world) \<Rightarrow> 'req \<Rightarrow>
    ('g, 'api, 'f) logged_world \<Rightarrow> 'resp outcome \<times> ('g, 'api, 'f) logged_world" where
  "intercepted I handler req = (\<lambda>(w, log).
     case MakeMiddleware (ic_now I) (ic_ms I) (ic_logger I) (ic_env I) req handler w of
       (r, records, w) \<Rightarrow> (r, w, log @ records))"

definition logged_clients :: "('g, 'api, 'f) interceptors \<Rightarrow> ('g, 'api, 'f) interceptors \<Rightarrow>
    ('g \<Rightarrow> int \<Rightarrow> int \<times> 'g) \<Rightarrow> (unit, unit, ('g, 'api, 'f) logged_world) clients" where
  "logged_clients U V int63n =
     \<lparr>cl_GetUser = (\<lambda>_. intercepted U (mock_GetUser int63n)),
      cl_GetVideo = (\<lambda>_. intercepted V (mock_GetVideo int63n)),
      cl_GetTrendingVideos = (\<lambda>_. intercepted V (\<lambda>_ :: unit. mock_GetTrendingVideos int63n) ())\<rparr>"

fun is_error :: "('api, 'f) log_record \<Rightarrow> bool" where
  "is_error (StderrLine peerAddr e latencyMs) = e"
| "is_error (WritePoint api measurement tags e latencyMs time) = e"

lemma LogRequest_no_error: "x \<in> set (LogRequest logger env False latencyMs) \<Longrightarrow> \<not> is_error x"
  by (cases logger) (auto simp: logToStderr_def Let_def)

definition logged_serving :: "services \<Rightarrow> ('g, 'api, 'f) logged_world \<Rightarrow> bool" where
  "logged_serving S = (\<lambda>(w, log). mock_serving S w \<and> (\<forall>x\<in>set log. \<not> is_error x))"

lemma intercepted_answers:
  assumes "handler req w = (Return resp, w')" and "mock_serving S w'" and "logged_serving S (w, log)"
  shows "\<exists>W'. intercepted I handler req (w, log) = (Return resp, W') \<and> logged_serving S W'"
  using assms
  by (auto dest: LogRequest_no_error simp: intercepted_def MakeMiddleware_Return logged_serving_def)

text \<open>The served backends keep the contract of the recommendation server, and log no error.\<close>

interpretation logged: rec_clients "logged_clients U V int63n" logged_serving for U V int63n
proof (unfold_locales, goal_cases)
  case (1 S W ids c)
  obtain w log where W: "W = (w, log)" by (rule prod.exhaust)
  have "mock_serving S w" using 1(1) by (simp add: W logged_serving_def)
  from mocks.answers_users [OF this 1(2-4), of int63n c] obtain w' where
    "mock_GetUser int63n ids w = (Return (map (the \<circ> sv_users S) ids), w')" "mock_serving S w'"
    by (auto simp: mock_clients_def)
  from intercepted_answers [where handler = "mock_GetUser int63n", OF this 1(1) [unfolded W]] show ?case by (simp add: W logged_clients_def)
next
  case (2 S W ids c)
  obtain w log where W: "W = (w, log)" by (rule prod.exhaust)
  have "mock_serving S w" using 2(1) by (simp add: W logged_serving_def)
  from mocks.answers_videos [OF this 2(2-5), of int63n c] obtain w' where
    "mock_GetVideo int63n ids w = (Return (map (the \<circ> sv_videos S) ids), w')" "mock_serving S w'"
    by (auto simp: mock_clients_def)
  from intercepted_answers [where handler = "mock_GetVideo int63n", OF this 2(1) [unfolded W]] show ?case by (simp add: W logged_clients_def)
qed

fun request_all :: "('req \<Rightarrow> 'w \<Rightarrow> 'resp outcome \<times> 'w) \<Rightarrow> 'req list \<Rightarrow> 'w \<Rightarrow> 'resp outcome list \<times> 'w" where
  "request_all client [] w = ([], w)"
| "request_all client (req # reqs) w =
     (case client req w of (r, w) \<Rightarrow> (case request_all client reqs w of (rs, w) \<Rightarrow> (r # rs, w)))"

lemma request_all_invariant:
  assumes "\<And>req w. req \<in> set reqs \<Longrightarrow> up w \<Longrightarrow> \<exists>w'. client req w = (answer req, w') \<and> up w'"
  shows "up w \<Longrightarrow> \<exists>w'. request_all client reqs w = (map answer reqs, w') \<and> up w'"
  using assms
proof (induction reqs arbitrary: w)
  case (Cons req reqs)
  obtain w1 where w1: "client req w = (answer req, w1)" "up w1"
    using Cons.prems(2) [of req w] Cons.prems(1) by auto
  obtain w2 where "request_all client reqs w1 = (map answer reqs, w2)" "up w2"
    using Cons.IH [OF w1(2) Cons.prems(2)] by auto
  with w1 show ?case by simp
qed simp

text \<open>
  C2: the deployed services recommend what they should, request after request. With compatible options
  and whatever clocks, peers and loggers the interceptors of the two backends have, any sequence of
  requests for existing users with non-negative limits is answered, each with exactly the videos that a
  fresh server would recommend, never from the cache, and none of the backends' requests is logged as
  an error.
\<close>
theorem deployed_services_recommend:
  assumes "rand_ok R" and "blowfish_ok B" and "sort_ok sf" and "compatible opts uo vo"
    and "MakeVideoRecServiceServerWithMocks opts () () = Return server"
    and "\<forall>req\<in>set reqs. 0 \<le> req_Limit req \<and> req_UserId req \<in> dom (us_users (w_users (MakeMockClients R uo vo now)))"
  shows "\<exists>server' w' log.
    request_all (served_GetTopVideos (logged_clients U V int63n) B sf elapsed) reqs
      (server, MakeMockClients R uo vo now, []) =
      (map (\<lambda>req. Return \<lparr>resp_Videos = recommended B sf (made_services (MakeMockClients R uo vo now))
              (req_UserId req) (req_Limit req), resp_StaleResponse = False\<rparr>) reqs, server', w', log) \<and>
    (\<forall>x\<in>set log. \<not> is_error x)"
proof -
  let ?W = "MakeMockClients R uo vo now" and ?S = "made_services (MakeMockClients R uo vo now)"
  let ?up = "\<lambda>(srv, W). pool_ok srv \<and> options srv = opts \<and> logged_serving ?S W"
  note d = made_deployed [OF assms(1-5), of now, unfolded deployed_def, simplified]
  have opts: "pool_ok server" "options server = opts"
    using mocks_server_ok [OF assms(5)] assms(4) by (auto simp: compatible_def)
  have "\<exists>w'. served_GetTopVideos (logged_clients U V int63n) B sf elapsed req w =
      (Return \<lparr>resp_Videos = recommended B sf ?S (req_UserId req) (req_Limit req), resp_StaleResponse = False\<rparr>, w') \<and>
      ?up w'" if req: "req \<in> set reqs" and up: "?up w" for req w
  proof -
    obtain srv W where w: "w = (srv, W)" by (rule prod.exhaust)
    have lim: "0 \<le> req_Limit req" and known: "req_UserId req \<in> dom (sv_users ?S)"
      using assms(6) req by (auto simp: made_services_def)
    have "pool_ok srv" "0 < MaxBatchSize (options srv)" "MaxBatchSize (options srv) \<le> sv_userLimit ?S"
      "MaxBatchSize (options srv) \<le> sv_videoLimit ?S" "logged_serving ?S W" "resolvable ?S (req_UserId req)"
      using up d opts known by (auto simp: w)
    from logged.GetTopVideos_serving [OF this lim, of U V int63n B sf elapsed]
      recommended_value [OF assms(2,3) lim, of ?S "req_UserId req"] up
    show ?thesis by (auto simp: w served_GetTopVideos_def)
  qed
  moreover have "?up (server, ?W, [])"
    using opts d by (simp add: logged_serving_def)
  ultimately have "\<exists>w'. request_all (served_GetTopVideos (logged_clients U V int63n) B sf elapsed) reqs (server, ?W, []) =
      (map (\<lambda>req. Return \<lparr>resp_Videos = recommended B sf ?S (req_UserId req) (req_Limit req),
         resp_StaleResponse = False\<rparr>) reqs, w') \<and> ?up w'"
    by (rule request_all_invariant [where up = ?up])
  then show ?thesis by (auto simp: logged_serving_def)
qed

definition demo_interceptors :: "(unit, unit, int) interceptors" where
  "demo_interceptors = \<lparr>ic_now = w_now, ic_ms = (\<lambda>d. d), ic_logger = InfluxLogger ''lab1'' (),
     ic_env = \<lparr>env_peer = Some (TCPAddr [127, 0, 0, 1]), env_lookup = (\<lambda>_. Return [''localhost'']),
       env_hostname = ''host'', env_now = 0\<rparr>\<rparr>"

theorem deployed_services_recommend_witness:
  "\<exists>server' w' log. request_all (served_GetTopVideos (logged_clients demo_interceptors demo_interceptors zero_rand)
      plain_cipher sort_cmp 5) [demo_request 200000, demo_request 200000] (demo_server, demo_world, []) =
    (replicate 2 (Return \<lparr>resp_Videos = recommended plain_cipher sort_cmp (made_services demo_world) 200000 3,
       resp_StaleResponse = False\<rparr>), server', w', log) \<and> (\<forall>x\<in>set log. \<not> is_error x)"
proof -
  have "\<forall>req\<in>set [demo_request 200000, demo_request 200000]. 0 \<le> req_Limit req \<and>
      req_UserId req \<in> dom (us_users (w_users demo_world))"
    using demo_user by (auto simp: demo_request_def)
  from deployed_services_recommend [OF zero_ops_ok plain_cipher_ok sort_cmp_ok demo_compatible demo_mocks
      this [unfolded demo_world_def], of demo_interceptors demo_interceptors zero_rand 5]
  show ?thesis by (simp add: demo_world_def [symmetric] demo_request_def numeral_2_eq_2)
qed

end
