(* ===== verification/LabGob.thy ===== *)
theory LabGob
  imports GoPrelude
begin

text \<open>
  lab3/labgob/labgob.go: the wrapper around \<open>encoding/gob\<close> that complains about fs gob would
  silently drop and about decoding into values that are not zero.

  A \<open>reflect.Type\<close> is its identity, a number, and the environment \<open>env\<close> gives its description, so
  types may be recursive. The package's globals \<open>checked\<close> and \<open>errorCount\<close> are the state; what is
  printed is collected in \<open>printed\<close>. \<open>unicode.IsUpper\<close> of a field's first letter is the parameter
  \<open>upper\<close>. The recursion of \<open>checkType\<close> has no bound of its own: it is \<open>None\<close> if it never ends.
\<close>

section \<open>Types and the global state\<close>

type_synonym tyid = nat

datatype tdesc =
    StructT string "(string \<times> tyid) list"
  | SliceT tyid
  | ArrayT tyid
  | PtrT tyid
  | MapT tyid tyid        \<comment> \<open>key, element\<close>
  | OtherT

record gob_state =
  checked :: "tyid set"
  errorCount :: int
  printed :: "string list"

definition gob_start :: gob_state where
  "gob_start = \<lparr>checked = {}, errorCount = 0, printed = []\<rparr>"

section \<open>checkType\<close>

text \<open>A loop over a list whose body may not return.\<close>

fun each :: "('a \<Rightarrow> 's \<Rightarrow> 's option) \<Rightarrow> 'a list \<Rightarrow> 's \<Rightarrow> 's option" where
  "each f [] s = Some s"
| "each f (x # xs) s = Option.bind (f x s) (each f xs)"

lemma each_mono [partial_function_mono]:
  assumes "\<And>x s. mono_option (\<lambda>f. B f x s)"
  shows "mono_option (\<lambda>f. each (\<lambda>x s. B f x s) xs s)"
proof (induction xs arbitrary: s)
  case Nil
  show ?case by (simp add: monotone_def flat_ord_def fun_ord_def)
next
  case (Cons x xs)
  show ?case by (simp, rule bind_mono [OF assms Cons.IH])
qed

definition check_name :: "(string \<Rightarrow> bool) \<Rightarrow> string \<Rightarrow> gob_state \<Rightarrow> gob_state" where
  "check_name upper fname g =
     (if \<not> upper fname
      then g\<lparr>printed := printed g @ [fname], errorCount := errorCount g + 1\<rparr> else g)"

partial_function (option) checkType ::
    "(tyid \<Rightarrow> tdesc) \<Rightarrow> (string \<Rightarrow> bool) \<Rightarrow> tyid \<Rightarrow> gob_state \<Rightarrow> gob_state option" where
  "checkType env upper t g =
     (if t \<in> checked g then Some g
      else
        (case env t of
           StructT _ fs \<Rightarrow>
             each (\<lambda>f g. checkType env upper (snd f) (check_name upper (fst f) g)) fs
               (g\<lparr>checked := insert t (checked g)\<rparr>)
         | SliceT e \<Rightarrow> checkType env upper e (g\<lparr>checked := insert t (checked g)\<rparr>)
         | ArrayT e \<Rightarrow> checkType env upper e (g\<lparr>checked := insert t (checked g)\<rparr>)
         | PtrT e \<Rightarrow> checkType env upper e (g\<lparr>checked := insert t (checked g)\<rparr>)
         | MapT k e \<Rightarrow>
             Option.bind (checkType env upper e (g\<lparr>checked := insert t (checked g)\<rparr>))
               (checkType env upper k)
         | OtherT \<Rightarrow> Some (g\<lparr>checked := insert t (checked g)\<rparr>)))"

section \<open>checkDefault\<close>

text \<open>
  A value as \<open>checkDefault1\<close> sees it; a scalar carries its type's name and whether it is the zero
  value. Slices, maps and interfaces are \<open>VOther\<close>.
\<close>

datatype gval =
    VStruct "(string \<times> gval) list"
  | VNilPtr
  | VPtr gval
  | VScalar string bool
  | VOther

definition warn_default :: "string \<Rightarrow> string \<Rightarrow> gob_state \<Rightarrow> gob_state" where
  "warn_default name tname g =
     (let g = (if errorCount g < 1
               then g\<lparr>printed := printed g @ [if name = [] then tname else name]\<rparr> else g)
      in g\<lparr>errorCount := errorCount g + 1\<rparr>)"

definition field_name :: "string \<Rightarrow> string \<Rightarrow> string" where
  "field_name name fname = (if name \<noteq> [] then name @ ''.'' @ fname else fname)"

fun checkDefault1 :: "gval \<Rightarrow> nat \<Rightarrow> string \<Rightarrow> gob_state \<Rightarrow> gob_state"
  and checkFields :: "(string \<times> gval) list \<Rightarrow> nat \<Rightarrow> string \<Rightarrow> gob_state \<Rightarrow> gob_state" where
  "checkDefault1 (VStruct fs) depth name g =
     (if 3 < depth then g else checkFields fs (depth + 1) name g)"
| "checkDefault1 VNilPtr depth name g = g"
| "checkDefault1 (VPtr v) depth name g = (if 3 < depth then g else checkDefault1 v (depth + 1) name g)"
| "checkDefault1 (VScalar tname isZero) depth name g =
     (if 3 < depth then g else if \<not> isZero then warn_default name tname g else g)"
| "checkDefault1 VOther depth name g = g"
| "checkFields [] depth name g = g"
| "checkFields ((fname, v) # rest) depth name g =
     checkFields rest depth name (checkDefault1 v depth (field_name name fname) g)"

section \<open>The entry points\<close>

text \<open>
  An \<open>interface{}\<close> argument: nil, or a type with a value. \<open>reflect.TypeOf(nil)\<close> is a nil \<open>Type\<close>, and
  its \<open>Kind\<close> panics.
\<close>

type_synonym goval = "(tyid \<times> gval) option"

definition checkValue :: "(tyid \<Rightarrow> tdesc) \<Rightarrow> (string \<Rightarrow> bool) \<Rightarrow> goval \<Rightarrow> gob_state \<Rightarrow>
    ((string, unit) go_result \<times> gob_state) option" where
  "checkValue env upper v g =
     (case v of
        None \<Rightarrow> Some (Panics NilPointerDereference, g)
      | Some (t, _) \<Rightarrow> map_option (\<lambda>g. (Return (), g)) (checkType env upper t g))"

definition checkDefault :: "goval \<Rightarrow> gob_state \<Rightarrow> gob_state" where
  "checkDefault v g = (case v of None \<Rightarrow> g | Some (_, x) \<Rightarrow> checkDefault1 x 1 [] g)"

text \<open>\<open>encode\<close> and \<open>decode\<close> are the calls into \<open>encoding/gob\<close>.\<close>

definition Encode :: "(tyid \<Rightarrow> tdesc) \<Rightarrow> (string \<Rightarrow> bool) \<Rightarrow> (goval \<Rightarrow> (string, bytes) go_result) \<Rightarrow> goval \<Rightarrow> gob_state \<Rightarrow>
    ((string, bytes) go_result \<times> gob_state) option" where
  "Encode env upper encode e g =
     map_option (\<lambda>(r, g). (bind_go r (\<lambda>_. encode e), g)) (checkValue env upper e g)"

definition Decode :: "(tyid \<Rightarrow> tdesc) \<Rightarrow> (string \<Rightarrow> bool) \<Rightarrow> (bytes \<Rightarrow> goval \<Rightarrow> (string, gval) go_result) \<Rightarrow> bytes \<Rightarrow>
    goval \<Rightarrow> gob_state \<Rightarrow> ((string, gval) go_result \<times> gob_state) option" where
  "Decode env upper decode bs e g =
     map_option (\<lambda>(r, g). case r of
         Return _ \<Rightarrow> (decode bs e, checkDefault e g)
       | Fails s \<Rightarrow> (Fails s, g) | Panics p \<Rightarrow> (Panics p, g) | Blocks \<Rightarrow> (Blocks, g))
       (checkValue env upper e g)"

definition Register :: "(tyid \<Rightarrow> tdesc) \<Rightarrow> (string \<Rightarrow> bool) \<Rightarrow> (goval \<Rightarrow> (string, unit) go_result) \<Rightarrow> goval \<Rightarrow> gob_state \<Rightarrow>
    ((string, unit) go_result \<times> gob_state) option" where
  "Register env upper register v g =
     map_option (\<lambda>(r, g). (bind_go r (\<lambda>_. register v), g)) (checkValue env upper v g)"

text \<open>
  The wrappers. A \<open>reflect.Value\<close> that holds nothing panics in \<open>Interface\<close>; registering under a name
  passes the name on.
\<close>

record 'enc LabEncoder =
  le_gob :: 'enc

definition NewEncoder :: "('io \<Rightarrow> 'enc) \<Rightarrow> 'io \<Rightarrow> 'enc LabEncoder" where
  "NewEncoder newGob w = \<lparr>le_gob = newGob w\<rparr>"

definition EncodeValue :: "(tyid \<Rightarrow> tdesc) \<Rightarrow> (string \<Rightarrow> bool) \<Rightarrow> (goval \<Rightarrow> (string, bytes) go_result) \<Rightarrow> goval \<Rightarrow> gob_state \<Rightarrow>
    ((string, bytes) go_result \<times> gob_state) option" where
  "EncodeValue env upper encodeValue val g =
     (case val of
        None \<Rightarrow> Some (Panics PanicWithError, g)
      | Some _ \<Rightarrow> map_option (\<lambda>(r, g). (bind_go r (\<lambda>_. encodeValue val), g)) (checkValue env upper val g))"

record 'dec LabDecoder =
  ld_gob :: 'dec

definition NewDecoder :: "('io \<Rightarrow> 'dec) \<Rightarrow> 'io \<Rightarrow> 'dec LabDecoder" where
  "NewDecoder newGob r = \<lparr>ld_gob = newGob r\<rparr>"

definition RegisterName :: "(tyid \<Rightarrow> tdesc) \<Rightarrow> (string \<Rightarrow> bool) \<Rightarrow> (string \<Rightarrow> goval \<Rightarrow> (string, unit) go_result) \<Rightarrow> string \<Rightarrow>
    goval \<Rightarrow> gob_state \<Rightarrow> ((string, unit) go_result \<times> gob_state) option" where
  "RegisterName env upper registerName name v g =
     map_option (\<lambda>(r, g). (bind_go r (\<lambda>_. registerName name v), g)) (checkValue env upper v g)"

section \<open>Which types are checked\<close>

fun parts :: "tdesc \<Rightarrow> tyid list" where
  "parts (StructT _ fs) = map snd fs"
| "parts (SliceT e) = [e]"
| "parts (ArrayT e) = [e]"
| "parts (PtrT e) = [e]"
| "parts (MapT k e) = [e, k]"
| "parts OtherT = []"

definition component :: "(tyid \<Rightarrow> tdesc) \<Rightarrow> (tyid \<times> tyid) set" where
  "component env = {(t, u). u \<in> set (parts (env t))}"

definition reachable :: "(tyid \<Rightarrow> tdesc) \<Rightarrow> tyid \<Rightarrow> tyid set" where
  "reachable env t = (component env)\<^sup>* `` {t}"

definition bad_fields :: "(tyid \<Rightarrow> tdesc) \<Rightarrow> (string \<Rightarrow> bool) \<Rightarrow> tyid \<Rightarrow> nat" where
  "bad_fields env upper t =
     (case env t of StructT _ fs \<Rightarrow> length (filter (\<lambda>f. \<not> upper (fst f)) fs) | _ \<Rightarrow> 0)"

text \<open>
  What one call adds: new types, finitely many, all reachable, each with its components checked by
  the end. This holds for every call that returns, in the middle of the recursion too, where the
  types on the stack are checked before their components.
\<close>

definition adds :: "(tyid \<Rightarrow> tdesc) \<Rightarrow> (string \<Rightarrow> bool) \<Rightarrow> tyid set \<Rightarrow> gob_state \<Rightarrow> gob_state \<Rightarrow> bool" where
  "adds env upper within g g' \<longleftrightarrow>
     checked g \<subseteq> checked g' \<and> finite (checked g' - checked g) \<and> checked g' - checked g \<subseteq> within \<and>
     (\<forall>t\<in>checked g' - checked g. set (parts (env t)) \<subseteq> checked g') \<and>
     errorCount g' = errorCount g + (\<Sum>t\<in>checked g' - checked g. int (bad_fields env upper t))"

lemma adds_refl: "adds env upper within g g"
  by (simp add: adds_def)

lemma adds_trans:
  assumes "adds env upper within1 g1 g2" and "adds env upper within2 g2 g3"
    and "within1 \<subseteq> within" and "within2 \<subseteq> within"
  shows "adds env upper within g1 g3"
proof -
  have split: "checked g3 - checked g1 = (checked g2 - checked g1) \<union> (checked g3 - checked g2)"
    using assms by (auto simp: adds_def)
  moreover have "(checked g2 - checked g1) \<inter> (checked g3 - checked g2) = {}" by auto
  ultimately have "(\<Sum>t\<in>checked g3 - checked g1. int (bad_fields env upper t)) =
    (\<Sum>t\<in>checked g2 - checked g1. int (bad_fields env upper t)) +
    (\<Sum>t\<in>checked g3 - checked g2. int (bad_fields env upper t))"
    using assms by (auto simp: adds_def intro!: sum.union_disjoint)
  moreover have "finite (checked g3 - checked g1)" using split assms by (simp add: adds_def)
  moreover have "set (parts (env t)) \<subseteq> checked g3" if "t \<in> checked g3 - checked g1" for t
    using assms(1,2) that unfolding adds_def by (cases "t \<in> checked g2") blast+
  moreover have "checked g3 - checked g1 \<subseteq> within" using split assms by (auto simp: adds_def)
  ultimately show ?thesis using assms unfolding adds_def by auto
qed

lemma reachable_refl: "t \<in> reachable env t"
  by (simp add: reachable_def)

lemma reachable_part: "u \<in> set (parts (env t)) \<Longrightarrow> reachable env u \<subseteq> reachable env t"
  by (auto simp: reachable_def component_def intro: converse_rtrancl_into_rtrancl)

definition mark :: "tyid \<Rightarrow> gob_state \<Rightarrow> gob_state" where
  "mark t g = g\<lparr>checked := insert t (checked g)\<rparr>"

lemma mark_simps [simp]:
  "checked (mark t g) = insert t (checked g)" "errorCount (mark t g) = errorCount g"
  by (simp_all add: mark_def)

text \<open>Closing a type: it was marked, and then all its components were checked.\<close>

lemma adds_close:
  assumes new: "t \<notin> checked g" and a: "adds env upper (reachable env t) (mark t g) g1"
    and parts: "set (parts (env t)) \<subseteq> checked g1"
    and g': "checked g' = checked g1" "errorCount g' = errorCount g1 + int (bad_fields env upper t)"
  shows "adds env upper (reachable env t) g g' \<and> t \<in> checked g'"
proof -
  have split: "checked g' - checked g = insert t (checked g1 - checked (mark t g))"
    using a new g' by (auto simp: adds_def)
  then have "(\<Sum>u\<in>checked g' - checked g. int (bad_fields env upper u)) =
    int (bad_fields env upper t) + (\<Sum>u\<in>checked g1 - checked (mark t g). int (bad_fields env upper u))"
    using a by (simp add: adds_def)
  then show ?thesis
    using a new g' parts reachable_refl [of t env] unfolding adds_def split by auto
qed

text \<open>The loop over the fields: the complaints are counted, and every field's type is checked.\<close>

definition bad_of :: "(string \<Rightarrow> bool) \<Rightarrow> (string \<times> tyid) list \<Rightarrow> nat" where
  "bad_of upper fs = length (filter (\<lambda>f. \<not> upper (fst f)) fs)"

definition less_errors :: "nat \<Rightarrow> gob_state \<Rightarrow> gob_state" where
  "less_errors k g = g\<lparr>errorCount := errorCount g - int k\<rparr>"

lemma less_errors_simps [simp]:
  "checked (less_errors k g) = checked g" "errorCount (less_errors k g) = errorCount g - int k"
  by (simp_all add: less_errors_def)

lemma each_adds:
  assumes "\<And>u g g'. u \<in> snd ` set fs \<Longrightarrow> rec u g = Some g' \<Longrightarrow> adds env upper (reachable env u) g g' \<and> u \<in> checked g'"
    and "\<And>u. u \<in> snd ` set fs \<Longrightarrow> reachable env u \<subseteq> within"
    and "each (\<lambda>f g. rec (snd f) (check_name upper (fst f) g)) fs g = Some g'"
  shows "adds env upper within g (less_errors (bad_of upper fs) g') \<and> snd ` set fs \<subseteq> checked g'"
  using assms
proof (induction fs arbitrary: g)
  case Nil
  then show ?case by (simp add: adds_def bad_of_def)
next
  case (Cons f fs)
  let ?g1 = "check_name upper (fst f) g"
  obtain g2 where g2: "rec (snd f) ?g1 = Some g2"
    and rest: "each (\<lambda>f g. rec (snd f) (check_name upper (fst f) g)) fs g2 = Some g'"
    using Cons.prems(3) by (auto simp: bind_eq_Some_conv)
  have step: "adds env upper (reachable env (snd f)) ?g1 g2" "snd f \<in> checked g2"
    using Cons.prems(1) [of "snd f"] g2 by auto
  have tail: "adds env upper within g2 (less_errors (bad_of upper fs) g')" "snd ` set fs \<subseteq> checked g'"
    using Cons.IH [of g2] Cons.prems(1,2) rest by auto
  let ?k = "if upper (fst f) then 0 else 1 :: nat"
  have "checked ?g1 = checked g" "errorCount ?g1 = errorCount g + int ?k" by (simp_all add: check_name_def)
  then have first: "adds env upper (reachable env (snd f)) g (less_errors ?k g2)"
    using step(1) by (simp add: adds_def)
  have second: "adds env upper within (less_errors ?k g2) (less_errors (bad_of upper (f # fs)) g')"
    using tail(1) by (auto simp: adds_def bad_of_def)
  have "reachable env (snd f) \<subseteq> within" using Cons.prems(2) by simp
  then have "adds env upper within g (less_errors (bad_of upper (f # fs)) g')"
    by (rule adds_trans [OF first second _ order_refl])
  moreover have "checked g2 \<subseteq> checked g'" using tail(1) by (simp add: adds_def)
  ultimately show ?case using step(2) tail(2) by auto
qed

lemma checkType_adds:
  assumes "checkType env upper t g = Some g'"
  shows "adds env upper (reachable env t) g g' \<and> t \<in> checked g'"
  using assms
proof (rule checkType.raw_induct [rotated], goal_cases)
  case (1 rec env upper t g g')
  note IH = 1(1) and eq = 1(2)
  show ?case
  proof (cases "t \<in> checked g")
    case True
    then show ?thesis using eq by (simp add: adds_refl)
  next
    case False
    have sub: "adds env upper (reachable env t) (mark t g) g1 \<and> u \<in> checked g1"
      if "rec env upper u (mark t g) = Some g1" "u \<in> set (parts (env t))" for u g1
      using IH [OF that(1)] reachable_part [of u env t, OF that(2)] by (auto simp: adds_def)
    have single: "adds env upper (reachable env t) g g' \<and> t \<in> checked g'"
      if p: "parts (env t) = [e]" and "bad_fields env upper t = 0" and r: "rec env upper e (mark t g) = Some g'" for e
      using sub [OF r] p that(2) by (intro adds_close [OF False, of _ _ g']) auto
    show ?thesis
    proof (cases "env t")
      case (StructT n fs)
      let ?loop = "each (\<lambda>f g. rec env upper (snd f) (check_name upper (fst f) g)) fs (mark t g)"
      have loop: "?loop = Some g'" using eq False StructT by (simp add: mark_def)
      have "adds env upper (reachable env t) (mark t g) (less_errors (bad_of upper fs) g') \<and>
          snd ` set fs \<subseteq> checked g'"
      proof (rule each_adds [where rec = "rec env upper", OF IH _ loop])
        fix u assume "u \<in> snd ` set fs"
        then have "u \<in> set (parts (env t))" by (simp add: StructT)
        then show "reachable env u \<subseteq> reachable env t" by (rule reachable_part)
      qed
      then show ?thesis
        by (intro adds_close [OF False, of _ _ "less_errors (bad_of upper fs) g'"])
          (auto simp: StructT bad_fields_def bad_of_def)
    next
      case (MapT k e)
      then obtain g1 where g1: "rec env upper e (mark t g) = Some g1" "rec env upper k g1 = Some g'"
        using eq False by (auto simp: bind_eq_Some_conv mark_def)
      have e: "adds env upper (reachable env t) (mark t g) g1" "e \<in> checked g1" using sub [OF g1(1)] MapT by auto
      have k: "adds env upper (reachable env k) g1 g'" "k \<in> checked g'" using IH [OF g1(2)] by auto
      have "reachable env k \<subseteq> reachable env t" using MapT by (intro reachable_part) simp
      then have "adds env upper (reachable env t) (mark t g) g'" by (rule adds_trans [OF e(1) k(1) order_refl])
      moreover have "{e, k} \<subseteq> checked g'" using e(2) k by (auto simp: adds_def)
      ultimately have "adds env upper (reachable env t) (mark t g) g' \<and> {e, k} \<subseteq> checked g'" by blast
      then show ?thesis
        by (intro adds_close [OF False, of _ _ g']) (auto simp: MapT bad_fields_def)
    next
      case OtherT
      then show ?thesis
        using eq False by (intro adds_close [OF False, of _ _ "mark t g"])
          (auto simp: adds_refl bad_fields_def mark_def)
    next
      case (SliceT e)
      then show ?thesis using eq False by (intro single [of e]) (simp_all add: mark_def bad_fields_def)
    next
      case (ArrayT e)
      then show ?thesis using eq False by (intro single [of e]) (simp_all add: mark_def bad_fields_def)
    next
      case (PtrT e)
      then show ?thesis using eq False by (intro single [of e]) (simp_all add: mark_def bad_fields_def)
    qed
  qed
qed


section \<open>Termination\<close>

lemma checkType_grows: "checkType env upper t g = Some g' \<Longrightarrow> checked g \<subseteq> checked g'"
  using checkType_adds by (simp add: adds_def)

lemma check_name_checked [simp]: "checked (check_name upper n g) = checked g"
  by (simp add: check_name_def)

lemma each_returns:
  assumes "\<And>f g. f \<in> set fs \<Longrightarrow> S \<subseteq> checked g \<Longrightarrow> \<exists>g'. step f g = Some g' \<and> S \<subseteq> checked g'"
  shows "S \<subseteq> checked g \<Longrightarrow> \<exists>g'. each step fs g = Some g' \<and> S \<subseteq> checked g'"
  using assms
proof (induction fs arbitrary: g)
  case (Cons f fs)
  obtain g1 where "step f g = Some g1" "S \<subseteq> checked g1" using Cons.prems by (meson list.set_intros(1))
  then show ?case using Cons.IH [of g1] Cons.prems(2) by auto
qed simp

lemma checkType_returns:
  assumes "finite U" and "component env `` U \<subseteq> U"
  shows "t \<in> U \<Longrightarrow> \<exists>g'. checkType env upper t g = Some g'"
proof (induction "card (U - checked g)" arbitrary: t g rule: less_induct)
  case less
  show ?case
  proof (cases "t \<in> checked g")
    case False
    have sub: "\<exists>g'. checkType env upper u g1 = Some g' \<and> insert t (checked g) \<subseteq> checked g'"
      if "u \<in> set (parts (env t))" "insert t (checked g) \<subseteq> checked g1" for u g1
    proof -
      have "U - checked g1 \<subset> U - checked g" using that(2) False less.prems by auto
      then have "card (U - checked g1) < card (U - checked g)" using assms(1) by (intro psubset_card_mono) auto
      moreover have "u \<in> U" using assms(2) less.prems that(1) by (auto simp: component_def)
      ultimately obtain g' where "checkType env upper u g1 = Some g'" using less.hyps by blast
      then show ?thesis using checkType_grows that(2) by blast
    qed
    show ?thesis
    proof (cases "env t")
      case (StructT n fs)
      have "\<exists>g'. each (\<lambda>f g. checkType env upper (snd f) (check_name upper (fst f) g)) fs (mark t g) = Some g' \<and>
          insert t (checked g) \<subseteq> checked g'"
        by (rule each_returns) (use sub StructT in auto)
      then show ?thesis using False StructT by (subst checkType.simps) (auto simp: mark_def)
    next
      case (MapT k e)
      then obtain g1 where g1: "checkType env upper e (mark t g) = Some g1" "insert t (checked g) \<subseteq> checked g1"
        using sub [of e "mark t g"] by auto
      moreover obtain g2 where "checkType env upper k g1 = Some g2" using sub [of k g1] MapT g1(2) by auto
      ultimately show ?thesis using False MapT by (subst checkType.simps) (auto simp: mark_def)
    qed (use False sub [of _ "mark t g"] in \<open>subst checkType.simps, auto simp: mark_def\<close>)+
  qed (subst checkType.simps, simp)
qed

lemma reachable_closed: "component env `` reachable env t \<subseteq> reachable env t"
  by (auto simp: reachable_def intro: rtrancl_into_rtrancl)

section \<open>Properties\<close>

definition closed :: "(tyid \<Rightarrow> tdesc) \<Rightarrow> tyid set \<Rightarrow> bool" where
  "closed env S \<longleftrightarrow> (\<forall>t\<in>S. set (parts (env t)) \<subseteq> S)"

lemma closed_reachable: "closed env S \<Longrightarrow> t \<in> S \<Longrightarrow> reachable env t \<subseteq> S"
proof
  fix u assume c: "closed env S" and t: "t \<in> S" and "u \<in> reachable env t"
  then have "(t, u) \<in> (component env)\<^sup>*" by (simp add: reachable_def)
  then show "u \<in> S" using t by (induction) (use c in \<open>auto simp: closed_def component_def\<close>)
qed

text \<open>
  C28: \<open>checkType\<close> terminates on recursive types and checks everything once. For a type from which
  finitely many types can be reached, and a set of already checked types that contains the
  components of its members (it does after every call), a call returns; afterwards exactly the
  reachable types have been added, the set is closed again, and the error count has grown by the
  number of lower-case fields of the structs that were not checked before, each counted once.
\<close>
theorem check_type_complete:
  assumes "finite (reachable env t)" and "closed env (checked g)"
  shows "\<exists>g'. checkType env upper t g = Some g' \<and>
    checked g' = checked g \<union> reachable env t \<and> closed env (checked g') \<and>
    errorCount g' = errorCount g + (\<Sum>u\<in>reachable env t - checked g. int (bad_fields env upper u)) \<and>
    checkType env upper t g' = Some g'"
proof -
  obtain g' where run: "checkType env upper t g = Some g'"
    using checkType_returns [OF assms(1) reachable_closed reachable_refl] by blast
  from checkType_adds [OF this] have adds: "adds env upper (reachable env t) g g'" and t: "t \<in> checked g'" by auto
  have "closed env (checked g')"
    using adds assms(2) unfolding closed_def adds_def by blast
  moreover have "checked g' = checked g \<union> reachable env t"
    using closed_reachable [OF calculation t] adds by (auto simp: adds_def)
  moreover have "checked g' - checked g = reachable env t - checked g" using calculation(2) by auto
  moreover have "checkType env upper t g' = Some g'" using t by (simp add: checkType.simps)
  ultimately show ?thesis using run adds by (simp add: adds_def)
qed

text \<open>A linked list of structs: \<open>type Node struct { Val int; next *Node }\<close>.\<close>

definition node_env :: "tyid \<Rightarrow> tdesc" where
  "node_env t = (if t = 0 then StructT ''Node'' [(''Val'', 2), (''next'', 1)] else if t = 1 then PtrT 0 else OtherT)"

definition ascii_upper :: "string \<Rightarrow> bool" where
  "ascii_upper s = (case s of [] \<Rightarrow> False | c # _ \<Rightarrow> of_char c \<ge> (65 :: nat) \<and> of_char c \<le> (90 :: nat))"

theorem check_type_complete_witness:
  "\<exists>g'. checkType node_env ascii_upper 0 gob_start = Some g' \<and> errorCount g' = 1 \<and> checked g' = {0, 1, 2}"
proof -
  have "closed node_env {0, 1, 2}" by (auto simp: closed_def node_env_def)
  then have "reachable node_env 0 \<subseteq> {0, 1, 2}" by (rule closed_reachable) simp
  moreover have "{0, 1, 2} \<subseteq> reachable node_env 0"
  proof -
    have "(0, 1) \<in> component node_env" "(0, 2) \<in> component node_env" by (auto simp: component_def node_env_def)
    then show ?thesis by (auto simp: reachable_def)
  qed
  ultimately have r: "reachable node_env 0 = {0, 1, 2}" by auto
  then have "finite (reachable node_env 0)" "closed node_env (checked gob_start)"
    by (simp_all add: closed_def gob_start_def)
  from check_type_complete [OF this, of ascii_upper] show ?thesis
    by (auto simp: r gob_start_def bad_fields_def node_env_def ascii_upper_def)
qed

section \<open>What checkDefault notices\<close>

text \<open>The scalars inside a value, each with its depth and whether it is zero.\<close>

fun scalars :: "gval \<Rightarrow> nat \<Rightarrow> (nat \<times> bool) list"
  and field_scalars :: "(string \<times> gval) list \<Rightarrow> nat \<Rightarrow> (nat \<times> bool) list" where
  "scalars (VStruct fs) d = field_scalars fs (d + 1)"
| "scalars VNilPtr d = []"
| "scalars (VPtr v) d = scalars v (d + 1)"
| "scalars (VScalar tname isZero) d = [(d, isZero)]"
| "scalars VOther d = []"
| "field_scalars [] d = []"
| "field_scalars ((_, v) # rest) d = scalars v d @ field_scalars rest d"

definition noticed :: "(nat \<times> bool) list \<Rightarrow> nat" where
  "noticed xs = length (filter (\<lambda>(d, isZero). d \<le> 3 \<and> \<not> isZero) xs)"

lemma noticed_simps [simp]:
  "noticed [] = 0" "noticed (xs @ ys) = noticed xs + noticed ys"
  "noticed ((d, z) # xs) = (if d \<le> 3 \<and> \<not> z then 1 else 0) + noticed xs"
  by (simp_all add: noticed_def)

lemma deep_unnoticed:
  "3 < d \<Longrightarrow> noticed (scalars v d) = 0" "3 < d \<Longrightarrow> noticed (field_scalars fs d) = 0"
  by (induction v d and fs d rule: scalars_field_scalars.induct) auto

definition warned :: "nat \<Rightarrow> gob_state \<Rightarrow> gob_state \<Rightarrow> bool" where
  "warned k g g' \<longleftrightarrow>
     errorCount g' = errorCount g + int k \<and> checked g' = checked g \<and>
     length (printed g') = length (printed g) + (if errorCount g < 1 \<and> 0 < k then 1 else 0)"

lemma warned_trans: "warned j g g1 \<Longrightarrow> warned k g1 g2 \<Longrightarrow> 0 \<le> errorCount g \<Longrightarrow> warned (j + k) g g2"
  by (auto simp: warned_def split: if_splits)

lemma warned_nonneg: "warned j g g1 \<Longrightarrow> 0 \<le> errorCount g \<Longrightarrow> 0 \<le> errorCount g1"
  by (simp add: warned_def)

lemma checkDefault1_warned:
  "0 \<le> errorCount g \<Longrightarrow> warned (noticed (scalars v depth)) g (checkDefault1 v depth name g)"
  "0 \<le> errorCount g \<Longrightarrow> warned (noticed (field_scalars fs depth)) g (checkFields fs depth name g)"
proof (induction v depth name g and fs depth name g rule: checkDefault1_checkFields.induct)
  case (7 fname v rest depth name g)
  have v: "warned (noticed (scalars v depth)) g (checkDefault1 v depth (field_name name fname) g)"
    using 7 by blast
  show ?case
    using warned_trans [OF v "7.IH"(2) [OF warned_nonneg [OF v "7.prems"]] "7.prems"] by simp
qed (auto simp: warned_def warn_default_def Let_def deep_unnoticed)

text \<open>
  What decoding into a used variable reports. \<open>checkDefault\<close> adds to the error count exactly the
  number of non-zero scalars at depth at most three, where every pointer and every struct is a level,
  and prints one warning at most, only while nothing has been reported before. Non-zero scalars that
  lie deeper, such as those of a struct inside a struct behind the reply pointer, are not noticed.
\<close>
lemma check_default_counts:
  assumes "0 \<le> errorCount g"
  shows "errorCount (checkDefault (Some (t, v)) g) = errorCount g + int (noticed (scalars v 1)) \<and>
    length (printed (checkDefault (Some (t, v)) g)) =
      length (printed g) + (if errorCount g < 1 \<and> 0 < noticed (scalars v 1) then 1 else 0) \<and>
    noticed (scalars (VPtr (VStruct [(a, VStruct fs)])) 1) = 0"
proof -
  have "warned (noticed (scalars v 1)) g (checkDefault (Some (t, v)) g)"
    using checkDefault1_warned(1) [OF assms] by (simp add: checkDefault_def)
  moreover have "noticed (scalars (VPtr (VStruct [(a, VStruct fs)])) 1) = 0"
    using deep_unnoticed(2) [of "Suc (Suc (Suc (Suc 0)))" fs] by simp
  ultimately show ?thesis by (simp add: warned_def)
qed

lemma check_default_counts_witness:
  "errorCount (checkDefault (Some (0, VPtr (VStruct [(''A'', VScalar ''int'' False), (''B'', VScalar ''int'' True)]))) gob_start) = 1"
proof -
  have "0 \<le> errorCount gob_start" by (simp add: gob_start_def)
  from check_default_counts [OF this, of 0 "VPtr (VStruct [(''A'', VScalar ''int'' False), (''B'', VScalar ''int'' True)])"]
  show ?thesis by (simp add: gob_start_def)
qed

end
