(* ===== verification/LabRpc.thy ===== *)
theory LabRpc
  imports GoPrelude
begin

text \<open>
  lab3/labrpc/labrpc.go: the channel-based RPC layer under the Raft lab, with its simulated network.
  This theory holds the data and the operations: services and their dispatch, servers, and the
  administration of the network. LabRpcCalls adds the goroutines that carry a call.

  End-point names are of a type \<open>'n\<close>, server names of a type \<open>'m\<close>; a \<open>*Server\<close> is a number, because
  the network compares servers by pointer. The methods of the registered objects, with the gob
  decoding of their arguments and encoding of their replies, are the parameter \<open>run_method\<close>: service
  name, method name, argument bytes and the objects' state to reply bytes and the new state.
\<close>

section \<open>Services\<close>

text \<open>A method as \<open>reflect\<close> shows it: \<open>In2IsPtr\<close> is meaningful with three inputs only.\<close>

record rmethod =
  m_Name :: string
  m_PkgPath :: string
  m_NumIn :: nat
  m_In2IsPtr :: bool
  m_NumOut :: nat

record Service =
  svc_name :: string
  svc_methods :: "string set"

definition looks_like_handler :: "rmethod \<Rightarrow> bool" where
  "looks_like_handler m \<longleftrightarrow>
     \<not> (m_PkgPath m \<noteq> [] \<or> m_NumIn m \<noteq> 3 \<or> \<not> m_In2IsPtr m \<or> m_NumOut m \<noteq> 0)"

definition MakeService :: "string \<Rightarrow> rmethod list \<Rightarrow> Service" where
  "MakeService typeName ms =
     foldl (\<lambda>svc m. if looks_like_handler m then svc\<lparr>svc_methods := insert (m_Name m) (svc_methods svc)\<rparr> else svc)
       \<lparr>svc_name = typeName, svc_methods = {}\<rparr> ms"

text \<open>A reply message carries \<open>ok\<close> and the encoded reply; an unknown method ends the process.\<close>

type_synonym replyMsg = "bool \<times> bytes"
type_synonym 'app rmethods = "string \<Rightarrow> string \<Rightarrow> bytes \<Rightarrow> 'app \<Rightarrow> bytes \<times> 'app"

definition Service_dispatch :: "'app rmethods \<Rightarrow> string \<Rightarrow> bytes \<Rightarrow> Service \<Rightarrow> 'app \<Rightarrow>
    (string, replyMsg \<times> 'app) go_result" where
  "Service_dispatch run_method methname args svc app =
     (if methname \<in> svc_methods svc
      then case run_method (svc_name svc) methname args app of (r, app') \<Rightarrow> Return ((True, r), app')
      else Panics LogFatal)"

section \<open>Servers\<close>

record Server =
  services :: "string \<rightharpoonup> Service"
  srv_count :: int

definition MakeServer :: Server where
  "MakeServer = \<lparr>services = Map.empty, srv_count = 0\<rparr>"

definition AddService :: "Service \<Rightarrow> Server \<Rightarrow> Server" where
  "AddService svc rs = rs\<lparr>services := (services rs)(svc_name svc \<mapsto> svc)\<rparr>"

text \<open>\<open>strings.LastIndex(s, ".")\<close>, with \<open>None\<close> for -1.\<close>

fun last_dot :: "string \<Rightarrow> nat option" where
  "last_dot [] = None"
| "last_dot (c # cs) =
     (case last_dot cs of
        Some i \<Rightarrow> Some (i + 1)
      | None \<Rightarrow> if c = CHR ''.'' then Some 0 else None)"

text \<open>Without a dot, \<open>req.svcMeth[:dot]\<close> has the bound -1 and panics.\<close>

definition Server_dispatch :: "'app rmethods \<Rightarrow> string \<Rightarrow> bytes \<Rightarrow> Server \<Rightarrow> 'app \<Rightarrow>
    (string, replyMsg \<times> 'app) go_result \<times> Server" where
  "Server_dispatch run_method svcMeth args rs app =
     (let rs = rs\<lparr>srv_count := srv_count rs + 1\<rparr>
      in (case last_dot svcMeth of
            None \<Rightarrow> Panics SliceBoundsOutOfRange
          | Some dot \<Rightarrow>
              (case services rs (take dot svcMeth) of
                 Some service \<Rightarrow> Service_dispatch run_method (drop (dot + 1) svcMeth) args service app
               | None \<Rightarrow> Panics LogFatal), rs))"

definition Server_GetCount :: "Server \<Rightarrow> int" where
  "Server_GetCount rs = srv_count rs"

section \<open>The network\<close>

text \<open>\<open>done\<close> is the channel that \<open>Cleanup\<close> closes; \<open>endCh\<close> belongs to the calls.\<close>

record ('n, 'm) Network =
  reliable :: bool
  longDelays :: bool
  longReordering :: bool
  ends :: "'n set"
  enabled :: "'n \<Rightarrow> bool"
  servers :: "'m \<Rightarrow> nat option"
  connections :: "'n \<Rightarrow> 'm option"
  net_count :: i32
  net_bytes :: u64
  done_closed :: bool

definition MakeNetwork :: "('n, 'm) Network" where
  "MakeNetwork =
     \<lparr>reliable = True, longDelays = False, longReordering = False, ends = {}, enabled = (\<lambda>_. False),
      servers = (\<lambda>_. None), connections = (\<lambda>_. None), net_count = 0, net_bytes = 0, done_closed = False\<rparr>"

definition Cleanup :: "('n, 'm) Network \<Rightarrow> ('n, 'm) Network outcome" where
  "Cleanup rn = (if done_closed rn then Panics CloseOfClosedChannel else Return (rn\<lparr>done_closed := True\<rparr>))"

definition Reliable :: "bool \<Rightarrow> ('n, 'm) Network \<Rightarrow> ('n, 'm) Network" where
  "Reliable yes rn = rn\<lparr>reliable := yes\<rparr>"

definition LongReordering :: "bool \<Rightarrow> ('n, 'm) Network \<Rightarrow> ('n, 'm) Network" where
  "LongReordering yes rn = rn\<lparr>longReordering := yes\<rparr>"

definition LongDelays :: "bool \<Rightarrow> ('n, 'm) Network \<Rightarrow> ('n, 'm) Network" where
  "LongDelays yes rn = rn\<lparr>longDelays := yes\<rparr>"

text \<open>The five results of \<open>readEndnameInfo\<close>; a missing map entry reads as the zero value.\<close>

definition readEndnameInfo :: "'n \<Rightarrow> ('n, 'm) Network \<Rightarrow> bool \<times> 'm option \<times> nat option \<times> bool \<times> bool" where
  "readEndnameInfo endname rn =
     (let servername = connections rn endname;
          server = (case servername of None \<Rightarrow> None | Some m \<Rightarrow> servers rn m)
      in (enabled rn endname, servername, server, reliable rn, longReordering rn))"

definition isServerDead :: "'n \<Rightarrow> 'm \<Rightarrow> nat \<Rightarrow> ('n, 'm) Network \<Rightarrow> bool" where
  "isServerDead endname servername server rn \<longleftrightarrow>
     \<not> enabled rn endname \<or> servers rn servername \<noteq> Some server"

definition MakeEnd :: "'n \<Rightarrow> ('n, 'm) Network \<Rightarrow> ('n, 'm) Network outcome" where
  "MakeEnd endname rn =
     (if endname \<in> ends rn then Panics LogFatal
      else Return (rn\<lparr>ends := insert endname (ends rn), enabled := (enabled rn)(endname := False),
                      connections := (connections rn)(endname := None)\<rparr>))"

definition AddServer :: "'m \<Rightarrow> nat \<Rightarrow> ('n, 'm) Network \<Rightarrow> ('n, 'm) Network" where
  "AddServer servername rs rn = rn\<lparr>servers := (servers rn)(servername := Some rs)\<rparr>"

definition DeleteServer :: "'m \<Rightarrow> ('n, 'm) Network \<Rightarrow> ('n, 'm) Network" where
  "DeleteServer servername rn = rn\<lparr>servers := (servers rn)(servername := None)\<rparr>"

definition Connect :: "'n \<Rightarrow> 'm \<Rightarrow> ('n, 'm) Network \<Rightarrow> ('n, 'm) Network" where
  "Connect endname servername rn = rn\<lparr>connections := (connections rn)(endname := Some servername)\<rparr>"

definition Enable :: "'n \<Rightarrow> bool \<Rightarrow> ('n, 'm) Network \<Rightarrow> ('n, 'm) Network" where
  "Enable endname yes rn = rn\<lparr>enabled := (enabled rn)(endname := yes)\<rparr>"

text \<open>After \<open>DeleteServer\<close> the entry is a nil pointer, whose mutex \<open>GetCount\<close> would lock.\<close>

definition GetCount :: "(nat \<Rightarrow> Server) \<Rightarrow> 'm \<Rightarrow> ('n, 'm) Network \<Rightarrow> int outcome" where
  "GetCount srvs servername rn =
     (case servers rn servername of
        None \<Rightarrow> Panics NilPointerDereference
      | Some rs \<Rightarrow> Return (Server_GetCount (srvs rs)))"

definition GetTotalCount :: "('n, 'm) Network \<Rightarrow> int" where
  "GetTotalCount rn = sint (net_count rn)"

definition GetTotalBytes :: "('n, 'm) Network \<Rightarrow> int" where
  "GetTotalBytes rn = sint (net_bytes rn)"

section \<open>Facts\<close>

lemma last_dot_append: "CHR ''.'' \<notin> set meth \<Longrightarrow> last_dot (svc @ ''.'' @ meth) = Some (length svc)"
proof -
  assume m: "CHR ''.'' \<notin> set meth"
  have none: "CHR ''.'' \<notin> set s \<Longrightarrow> last_dot s = None" for s by (induction s) auto
  show ?thesis by (induction svc) (simp_all add: none [OF m])
qed

lemma svc_methods_MakeService:
  "svc_methods (MakeService typeName ms) = m_Name ` {m \<in> set ms. looks_like_handler m}"
  "svc_name (MakeService typeName ms) = typeName"
proof -
  let ?step = "\<lambda>svc m. if looks_like_handler m then svc\<lparr>svc_methods := insert (m_Name m) (svc_methods svc)\<rparr> else svc"
  have fold: "svc_methods (foldl ?step svc ms) = svc_methods svc \<union> m_Name ` {m \<in> set ms. looks_like_handler m} \<and>
      svc_name (foldl ?step svc ms) = svc_name svc" for svc
    by (induction ms arbitrary: svc) auto
  show "svc_methods (MakeService typeName ms) = m_Name ` {m \<in> set ms. looks_like_handler m}"
    "svc_name (MakeService typeName ms) = typeName"
    using fold [of "\<lparr>svc_name = typeName, svc_methods = {}\<rparr>"] by (simp_all add: MakeService_def)
qed

text \<open>
  Dispatch finds exactly the handlers. A server offering an object's service answers the request
  \<open>Service.Method\<close> by running that method, with \<open>ok\<close> set, if the object has an exported method of that
  name with two arguments, the second a pointer, and no result; for every other method name of the
  service, and for an unknown service, the process is ended by \<open>log.Fatalf\<close>; a request without a dot
  panics. Each of them is counted, and no other service's methods are touched.
\<close>
lemma dispatch_finds_handlers:
  assumes "CHR ''.'' \<notin> set meth"
  shows "Server_dispatch run_method (typeName @ ''.'' @ meth) args (AddService (MakeService typeName ms) rs) app =
    (if \<exists>m\<in>set ms. m_Name m = meth \<and> m_PkgPath m = [] \<and> m_NumIn m = 3 \<and> m_In2IsPtr m \<and> m_NumOut m = 0
     then (case run_method typeName meth args app of (r, app') \<Rightarrow> Return ((True, r), app'))
     else Panics LogFatal,
     AddService (MakeService typeName ms) (rs\<lparr>srv_count := srv_count rs + 1\<rparr>)) \<and>
    (services rs other = None \<and> other \<noteq> typeName \<longrightarrow>
       fst (Server_dispatch run_method (other @ ''.'' @ meth) args (AddService (MakeService typeName ms) rs) app) =
       Panics LogFatal) \<and>
    fst (Server_dispatch run_method meth args (AddService (MakeService typeName ms) rs) app) =
      Panics SliceBoundsOutOfRange"
proof -
  have dot: "last_dot (svc @ ''.'' @ meth) = Some (length svc)" for svc by (rule last_dot_append [OF assms])
  have none: "CHR ''.'' \<notin> set s \<Longrightarrow> last_dot s = None" for s by (induction s) auto
  have handler: "meth \<in> svc_methods (MakeService typeName ms) \<longleftrightarrow>
    (\<exists>m\<in>set ms. m_Name m = meth \<and> m_PkgPath m = [] \<and> m_NumIn m = 3 \<and> m_In2IsPtr m \<and> m_NumOut m = 0)"
    by (auto simp: svc_methods_MakeService looks_like_handler_def)
  show ?thesis
    unfolding handler [symmetric]
    using dot [of typeName] dot [of other] none [OF assms] svc_methods_MakeService(2) [of typeName ms]
    by (simp add: Server_dispatch_def Let_def AddService_def Service_dispatch_def)
qed

lemma dispatch_finds_handlers_witness:
  "fst (Server_dispatch (\<lambda>svc m args n. (args, n + (1::nat))) (''Raft'' @ ''.'' @ ''RequestVote'') [1, 2]
      (AddService (MakeService ''Raft''
         [\<lparr>m_Name = ''Kill'', m_PkgPath = [], m_NumIn = 1, m_In2IsPtr = False, m_NumOut = 0\<rparr>,
          \<lparr>m_Name = ''RequestVote'', m_PkgPath = [], m_NumIn = 3, m_In2IsPtr = True, m_NumOut = 0\<rparr>]) MakeServer) 0) =
   Return ((True, [1, 2]), 1)"
  by (subst dispatch_finds_handlers [THEN conjunct1]) simp_all

end
