(* ===== verification/LabRpcCalls.thy ===== *)
theory LabRpcCalls
  imports LabRpc
begin

text \<open>
  lab3/labrpc/labrpc.go, the goroutines: every \<open>Call\<close> in progress has the caller's goroutine, the
  \<open>processReq\<close> goroutine that carries it and the goroutine that runs the handler, beside the one
  listening goroutine of the network and whoever administers the network. One step is what happens
  between two points where another goroutine can be seen: a critical section of the network's mutex,
  a rendezvous on a channel, the run of a handler. Waiting and the random choices are nondeterminism.

  \<open>enc\<close> and \<open>dec\<close> are labgob's encoding of an argument and decoding of a reply (\<open>None\<close> for an error),
  \<open>run_method\<close> the registered objects' methods. \<open>sent\<close> and \<open>execs\<close> are history variables: the calls the
  listening goroutine has accepted, and the handler runs with their server and reply.
\<close>

section \<open>State\<close>

text \<open>Where a call is: in the caller's \<open>select\<close>, in \<open>processReq\<close>, or returned with the decoded reply.\<close>

datatype ('m, 'v) rpc_pc =
    Unused
  | Calling
  | Accepted
  | Chosen 'm nat bool bool
  | Waiting 'm nat bool bool
  | Deciding 'm nat bool bool "replyMsg option"
  | Delivering replyMsg
  | Failing
  | Returned "'v option"

text \<open>The handler's goroutine: \<open>r := server.dispatch(req)\<close>, then \<open>ech <- r\<close>.\<close>

datatype handler_pc =
    NoHandler
  | Running nat
  | Sending replyMsg
  | Finished

record ('n, 'm, 'v) rpc_call =
  c_end :: 'n
  c_meth :: string
  c_args :: bytes
  c_pc :: "('m, 'v) rpc_pc"
  c_handler :: handler_pc
  c_drain :: bool

record ('n, 'm, 'app, 'v) rpc_sys =
  net :: "('n, 'm) Network"
  srvs :: "nat \<Rightarrow> Server"
  app :: 'app
  calls :: "nat \<Rightarrow> ('n, 'm, 'v) rpc_call"
  listening :: bool
  crash :: "go_panic option"
  sent :: "nat list"
  execs :: "(nat \<times> nat \<times> replyMsg) list"

section \<open>Administration\<close>

datatype ('n, 'm) admin =
    OpReliable bool
  | OpLongReordering bool
  | OpLongDelays bool
  | OpMakeEnd 'n
  | OpAddServer 'm nat
  | OpDeleteServer 'm
  | OpConnect 'n 'm
  | OpEnable 'n bool
  | OpCleanup

fun admin_op :: "('n, 'm) admin \<Rightarrow> ('n, 'm) Network \<Rightarrow> ('n, 'm) Network outcome" where
  "admin_op (OpReliable b) rn = Return (Reliable b rn)"
| "admin_op (OpLongReordering b) rn = Return (LongReordering b rn)"
| "admin_op (OpLongDelays b) rn = Return (LongDelays b rn)"
| "admin_op (OpMakeEnd n) rn = MakeEnd n rn"
| "admin_op (OpAddServer m sid) rn = Return (AddServer m sid rn)"
| "admin_op (OpDeleteServer m) rn = Return (DeleteServer m rn)"
| "admin_op (OpConnect n m) rn = Return (Connect n m rn)"
| "admin_op (OpEnable n b) rn = Return (Enable n b rn)"
| "admin_op OpCleanup rn = Cleanup rn"

section \<open>Steps\<close>

datatype ('n, 'm, 'v) rpc_label =
    StartCall nat 'n string 'v
  | Step nat
  | Handle nat
  | Admin "('n, 'm) admin"
  | Register nat Service
  | ListenerExits

definition set_pc :: "nat \<Rightarrow> ('m, 'v) rpc_pc \<Rightarrow> ('n, 'm, 'app, 'v) rpc_sys \<Rightarrow> ('n, 'm, 'app, 'v) rpc_sys" where
  "set_pc k p s = s\<lparr>calls := (calls s)(k := (calls s k)\<lparr>c_pc := p\<rparr>)\<rparr>"

definition set_handler :: "nat \<Rightarrow> handler_pc \<Rightarrow> ('n, 'm, 'app, 'v) rpc_sys \<Rightarrow> ('n, 'm, 'app, 'v) rpc_sys" where
  "set_handler k h s = s\<lparr>calls := (calls s)(k := (calls s k)\<lparr>c_handler := h\<rparr>)\<rparr>"

definition add_bytes :: "bytes \<Rightarrow> ('n, 'm, 'app, 'v) rpc_sys \<Rightarrow> ('n, 'm, 'app, 'v) rpc_sys" where
  "add_bytes bs s = s\<lparr>net := (net s)\<lparr>net_bytes := net_bytes (net s) + of_nat (length bs)\<rparr>\<rparr>"

text \<open>The client's end of \<open>replyCh\<close>, the last lines of \<open>Call\<close>.\<close>

definition receive_reply :: "(bytes \<Rightarrow> 'v option) \<Rightarrow> nat \<Rightarrow> replyMsg \<Rightarrow>
    ('n, 'm, 'app, 'v) rpc_sys \<Rightarrow> ('n, 'm, 'app, 'v) rpc_sys" where
  "receive_reply dec k rep s =
     (if fst rep
      then (case dec (snd rep) of
              Some v \<Rightarrow> set_pc k (Returned (Some v)) s
            | None \<Rightarrow> s\<lparr>crash := Some LogFatal\<rparr>)
      else set_pc k (Returned None) s)"

text \<open>The choices of \<open>processReq\<close> once the handler has answered or been given up.\<close>

definition decisions :: "bool \<Rightarrow> bool \<Rightarrow> bool \<Rightarrow> replyMsg option \<Rightarrow> ('m, 'v) rpc_pc set" where
  "decisions serverDead rel lro reply =
     (case reply of
        None \<Rightarrow> {Failing}
      | Some r \<Rightarrow>
          if serverDead then {Failing}
          else if rel then {Delivering r} else {Failing, Delivering r})"

definition lookup_pc :: "'n \<Rightarrow> ('n, 'm) Network \<Rightarrow> ('m, 'v) rpc_pc" where
  "lookup_pc endname rn =
     (case readEndnameInfo endname rn of
        (True, Some m, Some sid, rel, lro) \<Rightarrow> Chosen m sid rel lro
      | _ \<Rightarrow> Failing)"
text \<open>What \<open>Call\<close> makes of its arguments: the request, or the panic of a failed encoding.\<close>

definition make_request :: "('v \<Rightarrow> bytes option) \<Rightarrow> 'n \<Rightarrow> string \<Rightarrow> 'v \<Rightarrow> ('n, 'm, 'v) rpc_call option" where
  "make_request enc endname svcMeth args =
     (case enc args of
        None \<Rightarrow> None
      | Some bs \<Rightarrow> Some \<lparr>c_end = endname, c_meth = svcMeth, c_args = bs, c_pc = Calling,
                        c_handler = NoHandler, c_drain = False\<rparr>)"

text \<open>The listening goroutine takes a request: it is counted and \<open>processReq\<close> started on it.\<close>

definition accept_call :: "nat \<Rightarrow> ('n, 'm, 'app, 'v) rpc_sys \<Rightarrow> ('n, 'm, 'app, 'v) rpc_sys" where
  "accept_call k s = set_pc k Accepted (add_bytes (c_args (calls s k))
     (s\<lparr>net := (net s)\<lparr>net_count := net_count (net s) + 1\<rparr>, sent := sent s @ [k]\<rparr>))"

text \<open>The internal steps of call \<open>k\<close>.\<close>

inductive call_step :: "(bytes \<Rightarrow> 'v option) \<Rightarrow> nat \<Rightarrow> ('n, 'm, 'app, 'v) rpc_sys \<Rightarrow> ('n, 'm, 'app, 'v) rpc_sys \<Rightarrow> bool"
  for dec :: "bytes \<Rightarrow> 'v option" and k :: nat where
  accept: "c_pc (calls s k) = Calling \<Longrightarrow> listening s \<Longrightarrow>
    call_step dec k s (accept_call k s)"
| network_done: "c_pc (calls s k) = Calling \<Longrightarrow> done_closed (net s) \<Longrightarrow>
    call_step dec k s (set_pc k (Returned None) s)"
| look_up: "c_pc (calls s k) = Accepted \<Longrightarrow>
    call_step dec k s (set_pc k (lookup_pc (c_end (calls s k)) (net s)) s)"
| drop_request: "c_pc (calls s k) = Chosen m sid False lro \<Longrightarrow> call_step dec k s (set_pc k Failing s)"
| execute: "c_pc (calls s k) = Chosen m sid rel lro \<Longrightarrow>
    call_step dec k s (set_pc k (Waiting m sid rel lro) (set_handler k (Running sid) s))"
| take_reply: "c_pc (calls s k) = Waiting m sid rel lro \<Longrightarrow> c_handler (calls s k) = Sending r \<Longrightarrow>
    call_step dec k s (set_pc k (Deciding m sid rel lro (Some r)) (set_handler k Finished s))"
| give_up: "c_pc (calls s k) = Waiting m sid rel lro \<Longrightarrow> isServerDead (c_end (calls s k)) m sid (net s) \<Longrightarrow>
    call_step dec k s (s\<lparr>calls := (calls s)(k := (calls s k)\<lparr>c_pc := Deciding m sid rel lro None, c_drain := True\<rparr>)\<rparr>)"
| keep_waiting: "c_pc (calls s k) = Waiting m sid rel lro \<Longrightarrow> \<not> isServerDead (c_end (calls s k)) m sid (net s) \<Longrightarrow>
    call_step dec k s s"
| drain: "c_drain (calls s k) \<Longrightarrow> c_handler (calls s k) = Sending r \<Longrightarrow>
    call_step dec k s (set_handler k Finished s)"
| decide: "c_pc (calls s k) = Deciding m sid rel lro ro \<Longrightarrow>
    p \<in> decisions (isServerDead (c_end (calls s k)) m sid (net s)) rel lro ro \<Longrightarrow>
    call_step dec k s (set_pc k p s)"
| deliver: "c_pc (calls s k) = Delivering r \<Longrightarrow>
    call_step dec k s (receive_reply dec k r (add_bytes (snd r) s))"
| fail: "c_pc (calls s k) = Failing \<Longrightarrow>
    call_step dec k s (receive_reply dec k (False, []) s)"

inductive rpc_step :: "('v \<Rightarrow> bytes option) \<Rightarrow> (bytes \<Rightarrow> 'v option) \<Rightarrow> 'app rmethods \<Rightarrow>
    ('n, 'm, 'app, 'v) rpc_sys \<Rightarrow> ('n, 'm, 'v) rpc_label \<Rightarrow> ('n, 'm, 'app, 'v) rpc_sys \<Rightarrow> bool"
  for enc :: "'v \<Rightarrow> bytes option" and dec :: "bytes \<Rightarrow> 'v option" and run_method :: "'app rmethods" where
  start_call: "crash s = None \<Longrightarrow> c_pc (calls s k) = Unused \<Longrightarrow> n \<in> ends (net s) \<Longrightarrow> make_request enc n meth v = Some c \<Longrightarrow>
    rpc_step enc dec run_method s (StartCall k n meth v) (s\<lparr>calls := (calls s)(k := c)\<rparr>)"
| bad_args: "crash s = None \<Longrightarrow> c_pc (calls s k) = Unused \<Longrightarrow> n \<in> ends (net s) \<Longrightarrow>
    (make_request enc n meth v :: ('n, 'm, 'v) rpc_call option) = None \<Longrightarrow>
    rpc_step enc dec run_method s (StartCall k n meth v) (s\<lparr>crash := Some PanicWithError\<rparr>)"
| internal: "crash s = None \<Longrightarrow> call_step dec k s t \<Longrightarrow> rpc_step enc dec run_method s (Step k) t"
| handle: "crash s = None \<Longrightarrow> c_handler (calls s k) = Running sid \<Longrightarrow>
    Server_dispatch run_method (c_meth (calls s k)) (c_args (calls s k)) (srvs s sid) (app s) = (Return (r, a), rs) \<Longrightarrow>
    rpc_step enc dec run_method s (Handle k)
      (set_handler k (Sending r) (s\<lparr>srvs := (srvs s)(sid := rs), app := a, execs := execs s @ [(k, sid, r)]\<rparr>))"
| handler_panics: "crash s = None \<Longrightarrow> c_handler (calls s k) = Running sid \<Longrightarrow>
    Server_dispatch run_method (c_meth (calls s k)) (c_args (calls s k)) (srvs s sid) (app s) = (Panics p, rs) \<Longrightarrow>
    rpc_step enc dec run_method s (Handle k) (s\<lparr>crash := Some p\<rparr>)"
| admin: "crash s = None \<Longrightarrow> admin_op a (net s) = Return rn \<Longrightarrow> rpc_step enc dec run_method s (Admin a) (s\<lparr>net := rn\<rparr>)"
| admin_panics: "crash s = None \<Longrightarrow> admin_op a (net s) = Panics p \<Longrightarrow>
    rpc_step enc dec run_method s (Admin a) (s\<lparr>crash := Some p\<rparr>)"
| register: "crash s = None \<Longrightarrow>
    rpc_step enc dec run_method s (Register sid svc) (s\<lparr>srvs := (srvs s)(sid := AddService svc (srvs s sid))\<rparr>)"
| listener_exits: "crash s = None \<Longrightarrow> listening s \<Longrightarrow> done_closed (net s) \<Longrightarrow>
    rpc_step enc dec run_method s ListenerExits (s\<lparr>listening := False\<rparr>)"

inductive rpc_steps :: "('v \<Rightarrow> bytes option) \<Rightarrow> (bytes \<Rightarrow> 'v option) \<Rightarrow> 'app rmethods \<Rightarrow>
    ('n, 'm, 'app, 'v) rpc_sys \<Rightarrow> ('n, 'm, 'v) rpc_label list \<Rightarrow> ('n, 'm, 'app, 'v) rpc_sys \<Rightarrow> bool"
  for enc :: "'v \<Rightarrow> bytes option" and dec :: "bytes \<Rightarrow> 'v option" and run_method :: "'app rmethods" where
  no_steps: "rpc_steps enc dec run_method s [] s"
| one_more: "rpc_step enc dec run_method s l t \<Longrightarrow> rpc_steps enc dec run_method t ls u \<Longrightarrow> rpc_steps enc dec run_method s (l # ls) u"

text \<open>A network just made, before any \<open>Call\<close>; the zero value of a call record is never read.\<close>

definition fresh_call :: "'n \<Rightarrow> ('n, 'm, 'v) rpc_call" where
  "fresh_call n = \<lparr>c_end = n, c_meth = [], c_args = [], c_pc = Unused, c_handler = NoHandler, c_drain = False\<rparr>"

definition rpc_init :: "'n \<Rightarrow> 'app \<Rightarrow> ('n, 'm, 'app, 'v) rpc_sys" where
  "rpc_init n a =
     \<lparr>net = MakeNetwork, srvs = (\<lambda>_. MakeServer), app = a, calls = (\<lambda>_. fresh_call n), listening = True,
      crash = None, sent = [], execs = []\<rparr>"

inductive_cases call_elim: "call_step dec k s t"
inductive_cases step_elim: "rpc_step enc dec run_method s l t"
inductive_cases steps_elim: "rpc_steps enc dec run_method s (l # ls) t"
inductive_cases no_steps_elim: "rpc_steps enc dec run_method s [] t"

section \<open>Every call is executed at most once\<close>

definition runs_of :: "nat \<Rightarrow> ('n, 'm, 'app, 'v) rpc_sys \<Rightarrow> (nat \<times> nat \<times> replyMsg) list" where
  "runs_of k s = filter (\<lambda>e. fst e = k) (execs s)"

text \<open>
  What the history says of one call: before the handler has run there is no entry, after it exactly
  one, with the reply that is under way, and a caller that got a reply got the decoding of that one.
\<close>

definition answered :: "(bytes \<Rightarrow> 'v option) \<Rightarrow> ('n, 'm, 'v) rpc_call \<Rightarrow> (nat \<times> replyMsg) list \<Rightarrow> bool" where
  "answered dec c h \<longleftrightarrow>
     (case c_handler c of
        NoHandler \<Rightarrow> h = []
      | Running sid \<Rightarrow> h = []
      | Sending r \<Rightarrow> \<exists>sid. h = [(sid, r)]
      | Finished \<Rightarrow> \<exists>sid r. h = [(sid, r)]) \<and>
     (case c_pc c of
        Waiting m sid rel lro \<Rightarrow>
          (c_handler c = Running sid \<or> (\<exists>r. c_handler c = Sending r \<and> h = [(sid, r)])) \<and> \<not> c_drain c
      | Deciding m sid rel lro (Some r) \<Rightarrow> h = [(sid, r)]
      | Deciding m sid rel lro None \<Rightarrow> True
      | Delivering r \<Rightarrow> \<exists>sid. h = [(sid, r)]
      | Returned (Some v) \<Rightarrow> \<exists>sid bs. h = [(sid, True, bs)] \<and> dec bs = Some v
      | Returned None \<Rightarrow> True
      | Failing \<Rightarrow> True
      | _ \<Rightarrow> c_handler c = NoHandler \<and> \<not> c_drain c)"

definition history :: "nat \<Rightarrow> ('n, 'm, 'app, 'v) rpc_sys \<Rightarrow> (nat \<times> replyMsg) list" where
  "history k s = map snd (runs_of k s)"

definition rpc_inv :: "(bytes \<Rightarrow> 'v option) \<Rightarrow> ('n, 'm, 'app, 'v) rpc_sys \<Rightarrow> bool" where
  "rpc_inv dec s \<longleftrightarrow> (\<forall>k. answered dec (calls s k) (history k s))"

lemma make_request_Some: "make_request enc n meth v = Some c \<Longrightarrow>
    c_pc c = Calling \<and> c_handler c = NoHandler \<and> \<not> c_drain c"
  by (auto simp: make_request_def split: option.splits)

lemma frame_simps [simp]:
  "execs (set_pc k p s) = execs s" "execs (set_handler k h s) = execs s" "execs (add_bytes bs s) = execs s"
  "net (set_pc k p s) = net s" "net (set_handler k h s) = net s" "calls (add_bytes bs s) = calls s"
  "crash (set_pc k p s) = crash s" "crash (set_handler k h s) = crash s" "crash (add_bytes bs s) = crash s"
  "srvs (set_pc k p s) = srvs s" "srvs (set_handler k h s) = srvs s" "srvs (add_bytes bs s) = srvs s"
  "sent (set_pc k p s) = sent s" "sent (set_handler k h s) = sent s" "sent (add_bytes bs s) = sent s"
  "listening (set_pc k p s) = listening s" "listening (set_handler k h s) = listening s"
  "listening (add_bytes bs s) = listening s"
  "app (set_pc k p s) = app s" "app (set_handler k h s) = app s" "app (add_bytes bs s) = app s"
  by (simp_all add: set_pc_def set_handler_def add_bytes_def)

lemma calls_simps [simp]:
  "calls (set_pc k p s) = (calls s)(k := (calls s k)\<lparr>c_pc := p\<rparr>)"
  "calls (set_handler k h s) = (calls s)(k := (calls s k)\<lparr>c_handler := h\<rparr>)"
  by (simp_all add: set_pc_def set_handler_def)

lemma net_frame [simp]:
  "enabled (net (add_bytes bs s)) = enabled (net s)" "servers (net (add_bytes bs s)) = servers (net s)"
  "connections (net (add_bytes bs s)) = connections (net s)" "ends (net (add_bytes bs s)) = ends (net s)"
  "reliable (net (add_bytes bs s)) = reliable (net s)" "longReordering (net (add_bytes bs s)) = longReordering (net s)"
  "done_closed (net (add_bytes bs s)) = done_closed (net s)" "net_count (net (add_bytes bs s)) = net_count (net s)"
  by (simp_all add: add_bytes_def)

lemma history_frame [simp]:
  "history j (set_pc k p s) = history j s" "history j (set_handler k h s) = history j s"
  "history j (add_bytes bs s) = history j s" "history j (s\<lparr>net := rn\<rparr>) = history j s"
  "history j (s\<lparr>sent := xs\<rparr>) = history j s" "history j (s\<lparr>calls := cs\<rparr>) = history j s"
  "history j (s\<lparr>crash := cr\<rparr>) = history j s" "history j (s\<lparr>srvs := sv\<rparr>) = history j s"
  "history j (s\<lparr>listening := b\<rparr>) = history j s" "history j (s\<lparr>app := a\<rparr>) = history j s"
  by (simp_all add: history_def runs_of_def)

lemma answered_lookup_pc:
  fixes c :: "('n, 'm, 'v) rpc_call" and rn :: "('n, 'm) Network"
  assumes "c_pc c = Accepted" and "answered dec c h"
  shows "answered dec (c\<lparr>c_pc := lookup_pc n rn\<rparr>) h"
proof -
  have "(\<exists>m sid rel lro. lookup_pc n rn = (Chosen m sid rel lro :: ('m, 'v) rpc_pc)) \<or>
      lookup_pc n rn = (Failing :: ('m, 'v) rpc_pc)"
    by (simp add: lookup_pc_def split: prod.splits bool.splits option.splits)
  with assms show ?thesis by (auto simp: answered_def)
qed

text \<open>An internal step of call \<open>k\<close> changes that call only, and no history.\<close>

lemma receive_reply_frame [simp]:
  "j \<noteq> k \<Longrightarrow> calls (receive_reply dec k r s) j = calls s j"
  "execs (receive_reply dec k r s) = execs s" "history j (receive_reply dec k r s) = history j s"
  "net (receive_reply dec k r s) = net s" "srvs (receive_reply dec k r s) = srvs s"
  "sent (receive_reply dec k r s) = sent s" "listening (receive_reply dec k r s) = listening s"
  by (simp_all add: receive_reply_def split: option.splits)

lemma accept_call_simps [simp]:
  "calls (accept_call k s) = (calls s)(k := (calls s k)\<lparr>c_pc := Accepted\<rparr>)"
  "net (accept_call k s) = (net s)\<lparr>net_count := net_count (net s) + 1,
     net_bytes := net_bytes (net s) + of_nat (length (c_args (calls s k)))\<rparr>"
  "execs (accept_call k s) = execs s" "srvs (accept_call k s) = srvs s" "crash (accept_call k s) = crash s"
  "listening (accept_call k s) = listening s" "sent (accept_call k s) = sent s @ [k]" "app (accept_call k s) = app s"
  "history j (accept_call k s) = history j s"
  by (simp_all add: accept_call_def add_bytes_def)

lemma call_step_frame:
  assumes "call_step dec k s t"
  shows "(\<forall>j. j \<noteq> k \<longrightarrow> calls t j = calls s j) \<and> execs t = execs s \<and> srvs t = srvs s \<and>
    listening t = listening s \<and> ends (net t) = ends (net s) \<and> servers (net t) = servers (net s) \<and>
    done_closed (net t) = done_closed (net s)"
  using assms by (cases rule: call_step.cases) simp_all

lemma receive_reply_pc:
  "c_pc (calls (receive_reply dec k r s) k) =
     (if fst r then (case dec (snd r) of Some v \<Rightarrow> Returned (Some v) | None \<Rightarrow> c_pc (calls s k)) else Returned None)"
  "c_handler (calls (receive_reply dec k r s) k) = c_handler (calls s k)"
  "c_drain (calls (receive_reply dec k r s) k) = c_drain (calls s k)"
  by (simp_all add: receive_reply_def split: option.splits)

lemma call_step_answered:
  assumes "call_step dec k s t" and "answered dec (calls s k) (history k s)"
  shows "answered dec (calls t k) (history k s)"
  using assms
proof (cases rule: call_step.cases)
  case look_up
  then show ?thesis
    using assms(2) by (simp add: answered_lookup_pc)
next
  case (take_reply m sid rel lro r)
  then show ?thesis using assms(2) by (auto simp: answered_def)
next
  case (decide m sid rel lro ro p)
  then show ?thesis
    using assms(2) by (auto simp: answered_def decisions_def split: option.splits if_splits)
next
  case (deliver r)
  then show ?thesis
    using assms(2) by (cases r) (auto simp: answered_def receive_reply_pc split: option.splits)
next
  case fail
  then show ?thesis using assms(2) by (auto simp: answered_def receive_reply_pc)
next
  case (drain r)
  then show ?thesis
    using assms(2) by (cases "c_pc (calls s k)") (auto simp: answered_def split: option.splits)
qed (auto simp: answered_def)

lemma history_exec:
  "history j (s\<lparr>srvs := sv, app := a, execs := execs s @ [(k, sid, r)]\<rparr>) =
     (if j = k then history k s @ [(sid, r)] else history j s)"
  by (simp add: history_def runs_of_def)

lemma answered_running: "answered dec c h \<Longrightarrow> c_handler c = Running sid \<Longrightarrow>
    answered dec (c\<lparr>c_handler := Sending r\<rparr>) (h @ [(sid, r)])"
  by (cases "c_pc c") (auto simp: answered_def split: option.splits)

lemma answered_fresh: "make_request enc n meth v = Some c \<Longrightarrow> answered dec c []"
  by (auto simp: answered_def dest!: make_request_Some)

lemma answered_unused: "answered dec c h \<Longrightarrow> c_pc c = Unused \<Longrightarrow> h = []"
  by (auto simp: answered_def)

lemma rpc_step_inv:
  assumes "rpc_step enc dec run_method s l t" and "rpc_inv dec s"
  shows "rpc_inv dec t"
  using assms(1)
proof (cases rule: rpc_step.cases)
  case (start_call k n meth v c)
  have "history k s = []" using assms(2) start_call answered_unused unfolding rpc_inv_def by metis
  then show ?thesis using assms(2) start_call by (simp add: rpc_inv_def answered_fresh)
next
  case (internal k)
  have "answered dec (calls t j) (history j t)" for j
  proof (cases "j = k")
    case True
    have "history k t = history k s" using call_step_frame [OF internal(3)] by (simp add: history_def runs_of_def)
    then show ?thesis using True call_step_answered [OF internal(3)] assms(2) by (simp add: rpc_inv_def)
  next
    case False
    then have "calls t j = calls s j" "history j t = history j s"
      using call_step_frame [OF internal(3)] by (simp_all add: history_def runs_of_def)
    then show ?thesis using assms(2) by (simp add: rpc_inv_def)
  qed
  then show ?thesis by (simp add: rpc_inv_def)
next
  case (handle k sid r a rs)
  then show ?thesis using assms(2) by (simp add: rpc_inv_def history_exec answered_running)
qed (use assms(2) in \<open>simp_all add: rpc_inv_def\<close>)

text \<open>The accounting: what the listening goroutine accepted, what the servers were asked.\<close>

definition rpc_counts :: "('n, 'm, 'app, 'v) rpc_sys \<Rightarrow> bool" where
  "rpc_counts s \<longleftrightarrow>
     distinct (sent s) \<and> net_count (net s) = of_nat (length (sent s)) \<and>
     (\<forall>k. c_pc (calls s k) \<in> {Unused, Calling} \<longrightarrow> k \<notin> set (sent s)) \<and>
     (\<forall>k. (c_handler (calls s k) \<noteq> NoHandler \<or> c_pc (calls s k) \<notin> {Unused, Calling, Returned None}) \<longrightarrow>
        k \<in> set (sent s)) \<and>
     (\<forall>e\<in>set (execs s). fst e \<in> set (sent s)) \<and>
     (\<forall>sid. srv_count (srvs s sid) = int (length (filter (\<lambda>e. fst (snd e) = sid) (execs s))))"

lemma Server_dispatch_count: "Server_dispatch run_method meth args rs a = (res, rs') \<Longrightarrow> srv_count rs' = srv_count rs + 1"
  by (auto simp: Server_dispatch_def Let_def)

text \<open>A call that has been accepted stays so while it does not go back to waiting for the network.\<close>

lemma rpc_counts_call:
  assumes counts: "rpc_counts s" and k: "k \<in> set (sent s)"
    and other: "\<And>j. j \<noteq> k \<Longrightarrow> calls t j = calls s j" and pc: "c_pc (calls t k) \<notin> {Unused, Calling}"
    and same: "sent t = sent s" "execs t = execs s" "srvs t = srvs s" "net_count (net t) = net_count (net s)"
  shows "rpc_counts t"
proof -
  have "c_pc (calls t j) \<in> {Unused, Calling} \<longrightarrow> j \<notin> set (sent s)" for j
    using counts other [of j] pc by (cases "j = k") (simp_all add: rpc_counts_def)
  moreover have "(c_handler (calls t j) \<noteq> NoHandler \<or> c_pc (calls t j) \<notin> {Unused, Calling, Returned None}) \<longrightarrow>
      j \<in> set (sent s)" for j
    using counts other [of j] k by (cases "j = k") (simp_all add: rpc_counts_def)
  ultimately show ?thesis using counts same by (simp add: rpc_counts_def)
qed

lemma rpc_counts_sent:
  "rpc_counts s \<Longrightarrow> c_pc (calls s k) \<notin> {Unused, Calling, Returned None} \<Longrightarrow> k \<in> set (sent s)"
  by (simp add: rpc_counts_def)

lemma receive_reply_pc_out:
  "c_pc (calls s k) \<notin> {Unused, Calling} \<Longrightarrow> c_pc (calls (receive_reply dec k r s) k) \<notin> {Unused, Calling}"
  by (simp add: receive_reply_pc split: option.splits)

lemma lookup_pc_out: "lookup_pc n rn \<notin> {Unused, Calling}"
  by (auto simp: lookup_pc_def split: prod.splits bool.splits option.splits)

lemma decisions_out: "p \<in> decisions b rel lro ro \<Longrightarrow> p \<notin> {Unused, Calling}"
  by (auto simp: decisions_def split: option.splits if_splits)

lemma call_step_counts:
  assumes step: "call_step dec k s t" and counts: "rpc_counts s"
  shows "rpc_counts t"
  using step
proof (cases rule: call_step.cases)
  case accept
  then show ?thesis using counts by (auto simp: rpc_counts_def)
next
  case (deliver r)
  show ?thesis
    by (rule rpc_counts_call [OF counts rpc_counts_sent [OF counts, of k]])
      (use deliver receive_reply_pc_out [of "add_bytes (snd r) s" k dec r] in simp_all)
next
  case fail
  show ?thesis
    by (rule rpc_counts_call [OF counts rpc_counts_sent [OF counts, of k]])
      (use fail receive_reply_pc_out [of s k dec "(False, [])"] in simp_all)
next
  case look_up
  show ?thesis
    by (rule rpc_counts_call [OF counts rpc_counts_sent [OF counts, of k]]) (use look_up lookup_pc_out in simp_all)
next
  case (decide m sid rel lro ro p)
  show ?thesis
    by (rule rpc_counts_call [OF counts rpc_counts_sent [OF counts, of k]])
      (use decide decisions_out [OF decide(3)] in simp_all)
next
  case network_done
  then have "c_handler (calls s k) = NoHandler \<or> k \<in> set (sent s)" using counts by (auto simp: rpc_counts_def)
  then show ?thesis using network_done counts by (auto simp: rpc_counts_def)
qed (use counts in \<open>auto simp: rpc_counts_def\<close>)

lemma admin_op_counts: "admin_op a rn = Return rn' \<Longrightarrow> net_count rn' = net_count rn"
  by (cases a) (auto simp: Reliable_def LongReordering_def LongDelays_def MakeEnd_def AddServer_def
      DeleteServer_def Connect_def Enable_def Cleanup_def split: if_splits)

lemma rpc_step_counts:
  assumes "rpc_step enc dec run_method s l t" and counts: "rpc_counts s"
  shows "rpc_counts t"
  using assms(1)
proof (cases rule: rpc_step.cases)
  case (internal k)
  then show ?thesis using call_step_counts counts by blast
next
  case (handle k sid r a rs)
  then show ?thesis using counts Server_dispatch_count [OF handle(5)] by (auto simp: rpc_counts_def)
next
  case (admin a rn)
  then show ?thesis using counts admin_op_counts by (fastforce simp: rpc_counts_def)
next
  case (register sid svc)
  then show ?thesis using counts by (simp add: rpc_counts_def AddService_def)
next
  case (start_call k n meth v c)
  then show ?thesis using counts make_request_Some [OF start_call(6)] by (auto simp: rpc_counts_def)
qed (use counts in \<open>simp_all add: rpc_counts_def\<close>)

section \<open>Runs\<close>

lemma distinct_if_count_le_one: "(\<And>x. count_list xs x \<le> 1) \<Longrightarrow> distinct xs"
proof (induction xs)
  case (Cons y xs)
  have "count_list xs x \<le> 1" for x using Cons.prems [of x] by (simp split: if_splits)
  moreover have "y \<notin> set xs" using Cons.prems [of y] by (simp add: count_list_0_iff)
  ultimately show ?case using Cons.IH by simp
qed simp

lemma rpc_steps_induct_inv:
  assumes "rpc_steps enc dec run_method s ls t" and "P s"
    and "\<And>s l t. rpc_step enc dec run_method s l t \<Longrightarrow> l \<in> set ls \<Longrightarrow> P s \<Longrightarrow> P t"
  shows "P t"
  using assms
proof (induction rule: rpc_steps.induct)
  case (one_more s l t ls u)
  then show ?case by (metis list.set_intros)
qed

lemma rpc_init_inv: "rpc_inv dec (rpc_init n a)" "rpc_counts (rpc_init n a)"
  by (simp_all add: rpc_inv_def rpc_counts_def rpc_init_def answered_def history_def runs_of_def fresh_call_def
      MakeNetwork_def MakeServer_def)

lemma reachable_inv: "rpc_steps enc dec run_method (rpc_init n a) ls s \<Longrightarrow> rpc_inv dec s"
  by (erule rpc_steps_induct_inv [where P = "rpc_inv dec"]) (auto intro: rpc_step_inv rpc_init_inv)

lemma reachable_counts: "rpc_steps enc dec run_method (rpc_init n a) ls s \<Longrightarrow> rpc_counts s"
  by (erule rpc_steps_induct_inv [where P = rpc_counts]) (auto intro: rpc_step_counts rpc_init_inv)

lemma runs_of_history: "runs_of k s = map (\<lambda>h. (k, h)) (history k s)"
  by (auto simp: runs_of_def history_def intro!: map_idI [symmetric])

lemma answered_length: "answered dec c h \<Longrightarrow> length h \<le> 1"
  by (cases "c_handler c") (auto simp: answered_def)

lemma length_history: "rpc_inv dec s \<Longrightarrow> length (history k s) \<le> 1"
  unfolding rpc_inv_def by (blast intro: answered_length)

text \<open>
  C12: a call is executed at most once, and a positive answer is the answer of its execution. In every
  schedule of any number of calls on any network, reliable or not, with servers and connections being
  changed meanwhile, no handler is run twice for one \<open>Call\<close>; and whenever \<open>Call\<close> has returned true,
  its handler has run, exactly once, and what the caller decoded is the reply of that run, not one of
  another call.
\<close>
theorem call_exactly_once:
  assumes "rpc_steps enc dec run_method (rpc_init n a) ls s"
  shows "length (runs_of k s) \<le> 1 \<and>
    (c_pc (calls s k) = Returned (Some v) \<longrightarrow>
       (\<exists>sid bs. runs_of k s = [(k, sid, True, bs)] \<and> dec bs = Some v))"
proof -
  have inv: "rpc_inv dec s" by (rule reachable_inv [OF assms])
  have "\<exists>sid bs. history k s = [(sid, True, bs)] \<and> dec bs = Some v" if "c_pc (calls s k) = Returned (Some v)"
    using inv that by (auto simp: rpc_inv_def answered_def dest!: spec [of _ k])
  then show ?thesis using length_history [OF inv, of k] by (auto simp: runs_of_history)
qed

text \<open>
  C29: the statistics add up. \<open>GetTotalCount\<close> is the number of calls accepted by the network (as an
  \<open>int32\<close>, wrapping around), none of them twice; a server's \<open>GetCount\<close> is the number of handlers it
  ran; and only accepted calls reach a handler, each at most one, so the servers' counts together never
  exceed the network's.
\<close>
theorem rpc_statistics:
  assumes "rpc_steps enc dec run_method (rpc_init n a) ls s"
  shows "net_count (net s) = of_nat (length (sent s)) \<and> distinct (sent s) \<and>
    Server_GetCount (srvs s sid) = int (length (filter (\<lambda>e. fst (snd e) = sid) (execs s))) \<and>
    length (execs s) \<le> length (sent s) \<and> set (map fst (execs s)) \<subseteq> set (sent s)"
proof -
  have counts: "rpc_counts s" and inv: "rpc_inv dec s"
    by (rule reachable_counts [OF assms]) (rule reachable_inv [OF assms])
  have "count_list (map fst (execs s)) k \<le> 1" for k
  proof -
    have "count_list (map fst (execs s)) k = length (history k s)"
      by (simp add: history_def runs_of_def count_list_eq_length_filter filter_map comp_def eq_commute)
    then show ?thesis using length_history [OF inv] by simp
  qed
  then have dist: "distinct (map fst (execs s))" by (simp add: distinct_if_count_le_one)
  moreover have sub: "set (map fst (execs s)) \<subseteq> set (sent s)" using counts by (auto simp: rpc_counts_def)
  ultimately have "length (execs s) \<le> length (sent s)"
    by (metis distinct_card card_mono card_length le_trans length_map List.finite_set)
  then show ?thesis using counts sub by (simp add: rpc_counts_def Server_GetCount_def)
qed

text \<open>A call whose handler's server has been looked up and whose answer is not decided.\<close>

definition undecided :: "'m \<Rightarrow> nat \<Rightarrow> ('m, 'v) rpc_pc \<Rightarrow> bool" where
  "undecided m sid p \<longleftrightarrow>
     (case p of
        Chosen m' sid' rel lro \<Rightarrow> m' = m \<and> sid' = sid
      | Waiting m' sid' rel lro \<Rightarrow> m' = m \<and> sid' = sid
      | Deciding m' sid' rel lro ro \<Rightarrow> m' = m \<and> sid' = sid
      | _ \<Rightarrow> False)"

definition doomed :: "nat \<Rightarrow> 'm \<Rightarrow> nat \<Rightarrow> ('n, 'm, 'app, 'v) rpc_sys \<Rightarrow> bool" where
  "doomed k m sid s \<longleftrightarrow>
     servers (net s) m \<noteq> Some sid \<and>
     (undecided m sid (c_pc (calls s k)) \<or> c_pc (calls s k) \<in> {Failing, Returned None})"

lemma admin_op_servers:
  "admin_op a rn = Return rn' \<Longrightarrow> servers rn m \<noteq> Some sid \<Longrightarrow> a \<noteq> OpAddServer m sid \<Longrightarrow> servers rn' m \<noteq> Some sid"
  by (cases a) (auto simp: Reliable_def LongReordering_def LongDelays_def MakeEnd_def AddServer_def
      DeleteServer_def Connect_def Enable_def Cleanup_def split: if_splits)

lemma call_step_doomed:
  assumes "call_step dec k s t" and "doomed k m sid s"
  shows "doomed k m sid t"
  using assms
  by (cases rule: call_step.cases)
    (auto simp: doomed_def undecided_def isServerDead_def decisions_def receive_reply_pc split: option.splits)

lemma rpc_step_doomed:
  assumes "rpc_step enc dec run_method s l t" and "l \<noteq> Admin (OpAddServer m sid)" and d: "doomed k m sid s"
  shows "doomed k m sid t"
  using assms(1)
proof (cases rule: rpc_step.cases)
  case (internal j)
  show ?thesis
  proof (cases "j = k")
    case True
    then show ?thesis using internal d by (simp add: call_step_doomed)
  next
    case False
    then show ?thesis using call_step_frame [OF internal(3)] d by (simp add: doomed_def)
  qed
next
  case (start_call j n meth v c)
  then show ?thesis using d by (auto simp: doomed_def undecided_def)
next
  case (admin a rn)
  then show ?thesis using d assms(2) admin_op_servers [OF admin(4), of m sid] by (simp add: doomed_def)
qed (use d in \<open>auto simp: doomed_def undecided_def\<close>)

text \<open>
  C13: no positive answer from a removed server. If the server that a call was sent to has been deleted
  or replaced under its name before the answer is decided, whether or not its handler has run already
  or runs later, and that very server is not registered under the name again, then the call never
  returns true, however the remaining steps are scheduled: its only answer is false.
\<close>
theorem no_reply_from_removed_server:
  assumes "rpc_steps enc dec run_method s ls t"
    and "undecided m sid (c_pc (calls s k))" and "servers (net s) m \<noteq> Some sid"
    and "Admin (OpAddServer m sid) \<notin> set ls"
  shows "c_pc (calls t k) \<noteq> Returned (Some v) \<and> c_pc (calls t k) \<noteq> Delivering r"
proof -
  have "doomed k m sid t"
  proof (rule rpc_steps_induct_inv [where P = "doomed k m sid", OF assms(1)])
    show "doomed k m sid s" using assms(2,3) by (simp add: doomed_def)
    show "doomed k m sid t'" if "rpc_step enc dec run_method s' l t'" "l \<in> set ls" "doomed k m sid s'" for s' l t'
      by (rule rpc_step_doomed [OF that(1) _ that(3)]) (use that(2) assms(4) in blast)
  qed
  then show ?thesis by (auto simp: doomed_def undecided_def)
qed

section \<open>Calls return\<close>

definition can_return :: "('v \<Rightarrow> bytes option) \<Rightarrow> (bytes \<Rightarrow> 'v option) \<Rightarrow> 'app rmethods \<Rightarrow> bool \<Rightarrow> nat \<Rightarrow>
    ('n, 'm, 'app, 'v) rpc_sys \<Rightarrow> bool" where
  "can_return enc dec run_method alive k s \<longleftrightarrow>
     (\<exists>ls t. rpc_steps enc dec run_method s ls t \<and> set ls \<subseteq> (if alive then {Step k, Handle k} else {Step k}) \<and>
        ((\<exists>r. c_pc (calls t k) = Returned r \<and> (alive \<or> r = None)) \<and> crash t = None \<or> alive \<and> crash t \<noteq> None))"

lemma can_return_step:
  assumes "rpc_step enc dec run_method s l t" and "l = Step k \<or> l = Handle k \<and> alive" and "can_return enc dec run_method alive k t"
  shows "can_return enc dec run_method alive k s"
proof -
  obtain ls u where "rpc_steps enc dec run_method t ls u"
    and "set ls \<subseteq> (if alive then {Step k, Handle k} else {Step k})"
    and "(\<exists>r. c_pc (calls u k) = Returned r \<and> (alive \<or> r = None)) \<and> crash u = None \<or> alive \<and> crash u \<noteq> None"
    using assms(3) unfolding can_return_def by blast
  moreover have "rpc_steps enc dec run_method s (l # ls) u" by (rule one_more [OF assms(1) calculation(1)])
  ultimately show ?thesis using assms(2) unfolding can_return_def by (intro exI [of _ "l # ls"] exI [of _ u]) auto
qed

lemma can_return_now:
  "(\<exists>r. c_pc (calls s k) = Returned r \<and> (alive \<or> r = None)) \<and> crash s = None \<or> alive \<and> crash s \<noteq> None \<Longrightarrow> can_return enc dec run_method alive k s"
  unfolding can_return_def by (intro exI [of _ "[]"] exI [of _ s]) (simp add: no_steps)

lemma can_return_Failing:
  assumes "crash s = None" and "c_pc (calls s k) = Failing"
  shows "can_return enc dec run_method alive k s"
  by (rule can_return_step [OF rpc_step.internal [OF assms(1) call_step.fail [OF assms(2)]]])
    (simp_all add: can_return_now assms receive_reply_def)

lemma can_return_Delivering:
  assumes "crash s = None" and "c_pc (calls s k) = Delivering r"
  shows "can_return enc dec run_method True k s"
  by (rule can_return_step [OF rpc_step.internal [OF assms(1) call_step.deliver [OF assms(2)]]])
    (auto simp: assms receive_reply_def split: option.splits intro!: can_return_now)

lemma can_return_Deciding:
  fixes s :: "('n, 'm, 'app, 'v) rpc_sys"
  assumes "crash s = None" and pc: "c_pc (calls s k) = Deciding m sid rel lro ro"
    and alive: "alive \<or> ro = None"
  shows "can_return enc dec run_method alive k s"
proof -
  obtain p :: "('m, 'v) rpc_pc" where p: "p \<in> decisions (isServerDead (c_end (calls s k)) m sid (net s)) rel lro ro"
    and cases: "p = Failing \<or> alive \<and> (\<exists>r. p = Delivering r)"
    using alive by (fastforce simp: decisions_def split: option.splits if_splits)
  have step: "rpc_step enc dec run_method s (Step k) (set_pc k p s)"
    by (rule rpc_step.internal [OF assms(1) call_step.decide [OF pc p]])
  show ?thesis
    by (rule can_return_step [OF step])
      (use cases assms(1) can_return_Failing [of "set_pc k p s"] can_return_Delivering [of "set_pc k p s"] in auto)
qed

lemma Server_dispatch_cases:
  obtains r a rs where "Server_dispatch run_method meth args sv ap = (Return (r, a), rs)"
  | p rs where "Server_dispatch run_method meth args sv ap = (Panics p, rs)"
proof -
  have svc: "(\<exists>r a. Service_dispatch run_method x args svc ap = Return (r, a)) \<or>
      Service_dispatch run_method x args svc ap = Panics LogFatal" for x svc
    by (auto simp: Service_dispatch_def split: prod.splits)
  have "(\<exists>r a. fst (Server_dispatch run_method meth args sv ap) = Return (r, a)) \<or>
      (\<exists>p. fst (Server_dispatch run_method meth args sv ap) = Panics p)"
    unfolding Server_dispatch_def Let_def fst_conv using svc by (fastforce split: option.splits)
  then show thesis using that by (cases "Server_dispatch run_method meth args sv ap") auto
qed

lemma can_return_Waiting:
  fixes s :: "('n, 'm, 'app, 'v) rpc_sys"
  assumes "crash s = None" and pc: "c_pc (calls s k) = Waiting m sid rel lro" and "rpc_inv dec s"
    and alive: "alive \<or> isServerDead (c_end (calls s k)) m sid (net s)"
  shows "can_return enc dec run_method alive k s"
proof (cases alive)
  case False
  with alive have dead: "isServerDead (c_end (calls s k)) m sid (net s)" by simp
  show ?thesis
    by (rule can_return_step [OF rpc_step.internal [OF assms(1) call_step.give_up [OF pc dead]]])
      (use assms(1) in \<open>simp_all add: can_return_Deciding\<close>)
next
  case True
  have sending: "can_return enc dec run_method True k s"
    if "crash s = None" "c_pc (calls s k) = Waiting m sid rel lro" "c_handler (calls s k) = Sending r"
    for r and s :: "('n, 'm, 'app, 'v) rpc_sys"
    by (rule can_return_step [OF rpc_step.internal [OF that(1) call_step.take_reply [OF that(2,3)]]])
      (use that in \<open>simp_all add: can_return_Deciding\<close>)
  have "c_handler (calls s k) = Running sid \<or> (\<exists>r. c_handler (calls s k) = Sending r)"
    using assms(3) pc by (auto simp: rpc_inv_def answered_def dest!: spec [of _ k])
  then show ?thesis
  proof
    assume run: "c_handler (calls s k) = Running sid"
    show ?thesis
    proof (cases rule: Server_dispatch_cases [of run_method "c_meth (calls s k)" "c_args (calls s k)" "srvs s sid" "app s"])
      case (1 r a rs)
      show ?thesis unfolding eqTrueI [OF True]
        by (rule can_return_step [OF rpc_step.handle [OF assms(1) run 1]]) (use assms(1) pc sending in simp_all)
    next
      case (2 p rs)
      show ?thesis unfolding eqTrueI [OF True]
        by (rule can_return_step [OF rpc_step.handler_panics [OF assms(1) run 2]]) (simp_all add: can_return_now)
    qed
  next
    assume "\<exists>r. c_handler (calls s k) = Sending r"
    then show ?thesis using sending assms(1) pc True by auto
  qed
qed

lemma can_return_Chosen:
  fixes s :: "('n, 'm, 'app, 'v) rpc_sys"
  assumes "crash s = None" and pc: "c_pc (calls s k) = Chosen m sid rel lro" and "rpc_inv dec s"
  shows "can_return enc dec run_method True k s"
proof -
  have step: "rpc_step enc dec run_method s (Step k) (set_pc k (Waiting m sid rel lro) (set_handler k (Running sid) s))"
    by (rule rpc_step.internal [OF assms(1) call_step.execute [OF pc]])
  show ?thesis
    by (rule can_return_step [OF step], simp, rule can_return_Waiting [OF _ _ rpc_step_inv [OF step assms(3)]])
      (use assms(1) in simp_all)
qed

lemma can_return_Accepted:
  fixes s :: "('n, 'm, 'app, 'v) rpc_sys"
  assumes "crash s = None" and pc: "c_pc (calls s k) = Accepted" and "rpc_inv dec s"
  shows "can_return enc dec run_method True k s"
proof -
  let ?p = "lookup_pc (c_end (calls s k)) (net s) :: ('m, 'v) rpc_pc"
  have step: "rpc_step enc dec run_method s (Step k) (set_pc k ?p s)"
    by (rule rpc_step.internal [OF assms(1) call_step.look_up [OF pc]])
  have "(\<exists>m sid rel lro. ?p = Chosen m sid rel lro) \<or> ?p = Failing"
    by (simp add: lookup_pc_def split: prod.splits bool.splits option.splits)
  moreover have "crash (set_pc k ?p s) = None" "c_pc (calls (set_pc k ?p s) k) = ?p" using assms(1) by simp_all
  ultimately have "can_return enc dec run_method True k (set_pc k ?p s)"
    using can_return_Chosen [OF _ _ rpc_step_inv [OF step assms(3)]] can_return_Failing [of "set_pc k ?p s"] by metis
  then show ?thesis by (rule can_return_step [OF step, rotated]) simp
qed

lemma admin_op_done: "admin_op a rn = Return rn' \<Longrightarrow> done_closed rn \<Longrightarrow> done_closed rn'"
  by (cases a) (auto simp: Reliable_def LongReordering_def LongDelays_def MakeEnd_def AddServer_def
      DeleteServer_def Connect_def Enable_def Cleanup_def split: if_splits)

lemma rpc_step_listening:
  assumes "rpc_step enc dec run_method s l t" and on: "listening s \<or> done_closed (net s)"
  shows "listening t \<or> done_closed (net t)"
  using assms(1)
proof (cases rule: rpc_step.cases)
  case (internal k)
  then show ?thesis using call_step_frame on by metis
next
  case (admin a rn)
  then show ?thesis using on admin_op_done [OF admin(4)] by auto
qed (use on in simp_all)

lemma listening_or_done: "rpc_steps enc dec run_method (rpc_init n a) ls s \<Longrightarrow> listening s \<or> done_closed (net s)"
  by (erule rpc_steps_induct_inv [where P = "\<lambda>s. listening s \<or> done_closed (net s)"])
    (simp add: rpc_init_def, erule rpc_step_listening, assumption)

text \<open>
  C14: \<open>Call\<close> can always return. In every reachable state, each call in progress can be carried to its
  end by steps of its own goroutines alone, whatever the state of the network and of the other calls
  (unless its handler panics or its reply cannot be decoded, which ends the process); and once its
  server has been removed or its end disabled, it can return false even if the handler never does.
\<close>
theorem call_can_return:
  assumes "rpc_steps enc dec run_method (rpc_init n a) ls s" and "crash s = None"
    and "c_pc (calls s k) \<noteq> Unused"
  shows "(\<exists>ls' t. rpc_steps enc dec run_method s ls' t \<and> set ls' \<subseteq> {Step k, Handle k} \<and>
      (crash t = None \<longrightarrow> (\<exists>r. c_pc (calls t k) = Returned r))) \<and>
    (\<forall>m sid rel lro. c_pc (calls s k) = Waiting m sid rel lro \<and> isServerDead (c_end (calls s k)) m sid (net s) \<longrightarrow>
      (\<exists>ls' t. rpc_steps enc dec run_method s ls' t \<and> set ls' \<subseteq> {Step k} \<and> crash t = None \<and>
         c_pc (calls t k) = Returned None))"
proof -
  have inv: "rpc_inv dec s" by (rule reachable_inv [OF assms(1)])
  have "can_return enc dec run_method True k s"
  proof (cases "c_pc (calls s k)")
    case Calling
    show ?thesis
    proof (cases "listening s")
      case True
      let ?t = "accept_call k s"
      have step: "rpc_step enc dec run_method s (Step k) ?t"
        by (rule rpc_step.internal [OF assms(2) call_step.accept [OF Calling True]])
      have ret: "can_return enc dec run_method True k ?t"
        by (rule can_return_Accepted [OF _ _ rpc_step_inv [OF step inv]]) (use assms(2) in simp_all)
      show ?thesis by (rule can_return_step [OF step _ ret]) simp
    next
      case False
      then have "done_closed (net s)" using listening_or_done [OF assms(1)] by simp
      from rpc_step.internal [OF assms(2) call_step.network_done [OF Calling this]]
      show ?thesis by (rule can_return_step) (use assms(2) in \<open>simp_all add: can_return_now\<close>)
    qed
  qed (use assms(2,3) inv in \<open>auto intro: can_return_Accepted can_return_Chosen can_return_Waiting can_return_Deciding
        can_return_Delivering can_return_Failing can_return_now\<close>)
  then have 1: "\<exists>ls' t. rpc_steps enc dec run_method s ls' t \<and> set ls' \<subseteq> {Step k, Handle k} \<and>
      (crash t = None \<longrightarrow> (\<exists>r. c_pc (calls t k) = Returned r))"
    unfolding can_return_def by fastforce
  have "can_return enc dec run_method False k s"
    if "c_pc (calls s k) = Waiting m sid rel lro" "isServerDead (c_end (calls s k)) m sid (net s)" for m sid rel lro
    using can_return_Waiting [OF assms(2) that(1) inv] that(2) by simp
  then have 2: "\<exists>ls' t. rpc_steps enc dec run_method s ls' t \<and> set ls' \<subseteq> {Step k} \<and> crash t = None \<and>
      c_pc (calls t k) = Returned None"
    if "c_pc (calls s k) = Waiting m sid rel lro" "isServerDead (c_end (calls s k)) m sid (net s)" for m sid rel lro
    using that unfolding can_return_def by fastforce
  show ?thesis using 1 2 by blast
qed

section \<open>A run\<close>

text \<open>
  End 5 is connected to server 0, a counter with one method; call 7 is accepted and its handler started
  (\<open>demo_start\<close>), and then either answered or cut off by removing the server.
\<close>

definition demo_enc :: "nat \<Rightarrow> bytes option" where
  "demo_enc v = Some [of_nat v]"

definition demo_dec :: "bytes \<Rightarrow> nat option" where
  "demo_dec bs = (case bs of [] \<Rightarrow> None | b # _ \<Rightarrow> Some (unat b))"

definition demo_method :: "nat rmethods" where
  "demo_method svc meth args n = ([of_nat n + hd args], n + 1)"

definition demo_service :: Service where
  "demo_service = \<lparr>svc_name = ''C'', svc_methods = {''Inc''}\<rparr>"

definition demo_start :: "(nat, nat, nat) rpc_label list" where
  "demo_start = [Admin (OpMakeEnd 5), Register 3 demo_service, Admin (OpAddServer 0 3), Admin (OpConnect 5 0),
     Admin (OpEnable 5 True), StartCall 7 5 ''C.Inc'' 4, Step 7, Step 7, Step 7]"

lemma rpc_steps_append:
  "rpc_steps enc dec run_method s ls t \<Longrightarrow> rpc_steps enc dec run_method t ls' u \<Longrightarrow> rpc_steps enc dec run_method s (ls @ ls') u"
  by (induction rule: rpc_steps.induct) (auto intro: rpc_steps.one_more)

lemma make_end_step:
  "crash s = None \<Longrightarrow> n \<notin> ends (net s) \<Longrightarrow> rpc_step enc dec run_method s (Admin (OpMakeEnd n))
     (s\<lparr>net := (net s)\<lparr>ends := insert n (ends (net s)), enabled := (enabled (net s))(n := False),
                      connections := (connections (net s))(n := None)\<rparr>\<rparr>)"
  by (rule rpc_step.admin) (simp_all add: MakeEnd_def)

lemma demo_request: "make_request demo_enc n meth v = Some \<lparr>c_end = n, c_meth = meth, c_args = [of_nat v],
    c_pc = Calling, c_handler = NoHandler, c_drain = False\<rparr>"
  by (simp add: make_request_def demo_enc_def)

lemma demo_waiting:
  "\<exists>s. rpc_steps demo_enc demo_dec demo_method (rpc_init (0::nat) 10) demo_start s \<and> crash s = None \<and>
     c_pc (calls s 7) = Waiting (0::nat) 3 True False \<and> c_handler (calls s 7) = Running 3 \<and>
     c_meth (calls s 7) = ''C.Inc'' \<and> c_args (calls s 7) = [4] \<and> c_end (calls s 7) = 5 \<and> enabled (net s) 5 \<and>
     servers (net s) 0 = Some 3 \<and> app s = 10 \<and> services (srvs s 3) ''C'' = Some demo_service \<and>
     sent s = [7] \<and> execs s = [] \<and> srv_count (srvs s 3) = 0"
  unfolding demo_start_def
  apply (rule exI, rule conjI)
   apply (rule rpc_steps.one_more, rule make_end_step, simp add: rpc_init_def, simp add: rpc_init_def MakeNetwork_def)
   apply (rule rpc_steps.one_more, rule rpc_step.register, simp add: rpc_init_def)
   apply (rule rpc_steps.one_more, rule rpc_step.admin, simp add: rpc_init_def, rule admin_op.simps)
   apply (rule rpc_steps.one_more, rule rpc_step.admin, simp add: rpc_init_def, rule admin_op.simps)
   apply (rule rpc_steps.one_more, rule rpc_step.admin, simp add: rpc_init_def, rule admin_op.simps)
   apply (rule rpc_steps.one_more, rule rpc_step.start_call, simp add: rpc_init_def, simp add: rpc_init_def fresh_call_def,
      simp add: Connect_def AddServer_def Enable_def,
      rule demo_request)
   apply (rule rpc_steps.one_more, rule rpc_step.internal, simp add: rpc_init_def, rule call_step.accept, simp,
      simp add: rpc_init_def)
   apply (rule rpc_steps.one_more, rule rpc_step.internal, simp add: rpc_init_def, rule call_step.look_up, simp)
   apply (rule rpc_steps.one_more, rule rpc_step.internal, simp add: rpc_init_def,
      rule call_step.execute [where m = 0 and sid = 3 and rel = True and lro = False],
      simp add: lookup_pc_def readEndnameInfo_def Connect_def AddServer_def Enable_def rpc_init_def MakeNetwork_def)
   apply (rule rpc_steps.no_steps)
  apply (simp add: Connect_def AddServer_def Enable_def rpc_init_def MakeNetwork_def AddService_def demo_service_def
      MakeServer_def)
  done

text \<open>From there: the handler runs, its reply is taken, passed and delivered.\<close>

definition demo_reply :: "(nat, nat, nat) rpc_label list" where
  "demo_reply = [Handle 7, Step 7, Step 7, Step 7]"

lemma demo_dispatch:
  "services sv ''C'' = Some demo_service \<Longrightarrow>
   Server_dispatch demo_method ''C.Inc'' [4] sv 10 = (Return ((True, [14]), 11), sv\<lparr>srv_count := srv_count sv + 1\<rparr>)"
  by (simp add: Server_dispatch_def Service_dispatch_def demo_service_def demo_method_def Let_def)

lemma demo_answer:
  assumes "crash s = None" "c_pc (calls s 7) = Waiting (0::nat) 3 True False" "c_handler (calls s 7) = Running 3"
    "c_meth (calls s 7) = ''C.Inc''" "c_args (calls s 7) = [4]" "c_end (calls s 7) = (5::nat)" "enabled (net s) 5"
    "servers (net s) 0 = Some 3" "app s = 10" "services (srvs s 3) ''C'' = Some demo_service" "execs s = []"
  shows "\<exists>t. rpc_steps demo_enc demo_dec demo_method s demo_reply t \<and> crash t = None \<and>
    c_pc (calls t 7) = Returned (Some 14) \<and> execs t = [(7, 3, True, [14])] \<and> sent t = sent s \<and>
    srv_count (srvs t 3) = srv_count (srvs s 3) + 1"
  unfolding demo_reply_def
  apply (rule exI, rule conjI)
   apply (rule rpc_steps.one_more, rule rpc_step.handle, rule assms, rule assms,
      simp only: assms(4,5,9), rule demo_dispatch [OF assms(10)])
   apply (rule rpc_steps.one_more, rule rpc_step.internal, simp add: assms,
      rule call_step.take_reply [where m = 0 and sid = 3 and rel = True and lro = False and r = "(True, [14])"],
      simp add: assms, simp add: assms)
   apply (rule rpc_steps.one_more, rule rpc_step.internal, simp add: assms,
      rule call_step.decide [where m = 0 and sid = 3 and rel = True and lro = False and ro = "Some (True, [14])"
        and p = "Delivering (True, [14])"],
      simp add: assms, simp add: assms isServerDead_def decisions_def)
   apply (rule rpc_steps.one_more, rule rpc_step.internal, simp add: assms,
      rule call_step.deliver [where r = "(True, [14])"], simp add: assms)
   apply (rule rpc_steps.no_steps)
  apply (simp add: receive_reply_def demo_dec_def assms)
  done

lemma demo_complete:
  "\<exists>s. rpc_steps demo_enc demo_dec demo_method (rpc_init (0::nat) 10) (demo_start @ demo_reply) s \<and> crash s = None \<and>
     c_pc (calls s 7) = (Returned (Some 14) :: (nat, nat) rpc_pc) \<and> execs s = [(7, 3, True, [14])] \<and> sent s = [7] \<and>
     srv_count (srvs s 3) = 1"
proof -
  obtain s where s: "rpc_steps demo_enc demo_dec demo_method (rpc_init (0::nat) 10) demo_start s" "crash s = None"
     "c_pc (calls s 7) = Waiting (0::nat) 3 True False" "c_handler (calls s 7) = Running 3"
     "c_meth (calls s 7) = ''C.Inc''" "c_args (calls s 7) = [4]" "c_end (calls s 7) = 5" "enabled (net s) 5"
     "servers (net s) 0 = Some 3" "app s = 10" "services (srvs s 3) ''C'' = Some demo_service"
     "sent s = [7]" "execs s = []" "srv_count (srvs s 3) = 0"
    using demo_waiting by blast
  obtain t where "rpc_steps demo_enc demo_dec demo_method s demo_reply t" "crash t = None"
    "c_pc (calls t 7) = Returned (Some 14)" "execs t = [(7, 3, True, [14])]" "sent t = sent s"
    "srv_count (srvs t 3) = srv_count (srvs s 3) + 1"
    using demo_answer [OF s(2-11,13)] by blast
  then show ?thesis using rpc_steps_append [OF s(1)] s(12,14) by (intro exI [of _ t]) simp
qed

theorem call_exactly_once_witness:
  "\<exists>s. rpc_steps demo_enc demo_dec demo_method (rpc_init (0::nat) 10) (demo_start @ demo_reply) s \<and>
     c_pc (calls s 7) = (Returned (Some 14) :: (nat, nat) rpc_pc) \<and>
     (\<exists>sid bs. runs_of 7 s = [(7, sid, True, bs)] \<and> demo_dec bs = Some 14)"
  using demo_complete call_exactly_once [of demo_enc demo_dec demo_method 0 10 "demo_start @ demo_reply" _ 7 14] by blast

theorem rpc_statistics_witness:
  "\<exists>s. rpc_steps demo_enc demo_dec demo_method (rpc_init (0::nat) 10) (demo_start @ demo_reply) s \<and>
     Server_GetCount (srvs s 3) = 1 \<and> net_count (net s) = 1 \<and>
     c_pc (calls s 7) = (Returned (Some 14) :: (nat, nat) rpc_pc)"
proof -
  obtain s where s: "rpc_steps demo_enc demo_dec demo_method (rpc_init (0::nat) 10) (demo_start @ demo_reply) s"
    "execs s = [(7, 3, True, [14])]" "sent s = [7]" "c_pc (calls s 7) = (Returned (Some 14) :: (nat, nat) rpc_pc)"
    using demo_complete by blast
  from rpc_statistics [OF s(1), of 3] s show ?thesis by (intro exI [of _ s]) simp
qed

text \<open>The same call, with the server removed while the handler runs.\<close>

theorem no_reply_from_removed_server_witness:
  "\<exists>s t. rpc_steps demo_enc demo_dec demo_method s [Handle 7] t \<and> servers (net s) (0::nat) = None \<and>
     c_pc (calls s 7) = Waiting 0 3 True False \<and>
     execs t = [(7, 3, True, [14])] \<and> c_pc (calls t 7) \<noteq> Returned (Some (14::nat)) \<and>
     net_count (net s) = (1 :: i32) \<and> c_end (calls s 7) = (5::nat) \<and> app t = (11::nat)"
proof -
  let ?c = "\<lparr>c_end = 5, c_meth = ''C.Inc'', c_args = [4], c_pc = Waiting 0 3 True False,
    c_handler = Running 3, c_drain = False\<rparr>"
  let ?s = "(rpc_init (0::nat) (10::nat))\<lparr>net := MakeNetwork\<lparr>net_count := 1, ends := {5}\<rparr>,
    srvs := (\<lambda>_. AddService demo_service MakeServer), calls := (\<lambda>_. ?c)\<rparr> :: (nat, nat, nat, nat) rpc_sys"
  let ?rs = "(srvs ?s 3)\<lparr>srv_count := srv_count (srvs ?s 3) + 1\<rparr>"
  let ?t = "set_handler 7 (Sending (True, [14]))
    (?s\<lparr>srvs := (srvs ?s)(3 := ?rs), app := 11, execs := execs ?s @ [(7, 3, True, [14])]\<rparr>)"
  have "rpc_step demo_enc demo_dec demo_method ?s (Handle 7) ?t"
    by (rule rpc_step.handle)
      (simp_all add: rpc_init_def Server_dispatch_def Service_dispatch_def AddService_def demo_service_def MakeServer_def
        demo_method_def Let_def)
  then have steps: "rpc_steps demo_enc demo_dec demo_method ?s [Handle 7] ?t"
    by (rule rpc_steps.one_more [OF _ rpc_steps.no_steps])
  have "c_pc (calls ?t 7) \<noteq> Returned (Some 14)"
    using no_reply_from_removed_server [OF steps, of 0 3 7 14] by (simp add: undecided_def rpc_init_def MakeNetwork_def)
  with steps show ?thesis
    by (intro exI [of _ ?s] exI [of _ ?t]) (simp add: rpc_init_def MakeNetwork_def)
qed

theorem call_can_return_witness:
  "\<exists>s. rpc_steps demo_enc demo_dec demo_method (rpc_init (0::nat) 10) demo_start s \<and>
     c_pc (calls s 7) = (Waiting 0 3 True False :: (nat, nat) rpc_pc) \<and>
     (\<exists>ls' t. rpc_steps demo_enc demo_dec demo_method s ls' t \<and> set ls' \<subseteq> {Step 7, Handle 7} \<and>
        (crash t = None \<longrightarrow> (\<exists>r. c_pc (calls t 7) = Returned r)))"
proof -
  obtain s where s: "rpc_steps demo_enc demo_dec demo_method (rpc_init (0::nat) 10) demo_start s" "crash s = None"
    "c_pc (calls s 7) = (Waiting 0 3 True False :: (nat, nat) rpc_pc)"
    using demo_waiting by blast
  have "c_pc (calls s 7) \<noteq> Unused" using s(3) by simp
  from call_can_return [OF s(1,2) this] s show ?thesis by (intro exI [of _ s]) simp
qed

end
