(* ===== verification/Persister.thy ===== *)
theory Persister
  imports GoPrelude
begin

text \<open>
  lab3/raft/persister.go: the in-memory persistent store of a Raft peer. Byte slices are references:
  the model has an explicit heap, a \<open>Persister\<close> holds the addresses of its two slices, and callers
  hold the addresses of theirs, which they may write to at any time. Each method runs under the
  persister's mutex, so a call is one step.
\<close>

section \<open>Heap and persisters\<close>

text \<open>A slice header is an address, or \<open>None\<close> for the nil slice; the heap allocates upwards.\<close>

type_synonym slice = "nat option"

record Persister =
  raftstate :: slice
  snapshot :: slice

record store =
  heap :: "nat \<Rightarrow> bytes"
  next_addr :: nat
  persisters :: "Persister list"

definition bytes_of :: "store \<Rightarrow> slice \<Rightarrow> bytes" where
  "bytes_of s x = (case x of None \<Rightarrow> [] | Some a \<Rightarrow> heap s a)"

definition alloc :: "bytes \<Rightarrow> store \<Rightarrow> slice \<times> store" where
  "alloc bs s = (Some (next_addr s), s\<lparr>heap := (heap s)(next_addr s := bs), next_addr := next_addr s + 1\<rparr>)"

definition MakePersister :: Persister where
  "MakePersister = \<lparr>raftstate = None, snapshot = None\<rparr>"

text \<open>\<open>make([]byte, len(orig))\<close> and \<open>copy\<close>: a new slice with the same bytes.\<close>

definition clone :: "slice \<Rightarrow> store \<Rightarrow> slice \<times> store" where
  "clone orig s = alloc (bytes_of s orig) s"

definition set_persister :: "nat \<Rightarrow> Persister \<Rightarrow> store \<Rightarrow> store" where
  "set_persister i p s = s\<lparr>persisters := (persisters s)[i := p]\<rparr>"

section \<open>The methods\<close>

definition Copy :: "nat \<Rightarrow> store \<Rightarrow> store" where
  "Copy i s =
     (let np = MakePersister\<lparr>raftstate := raftstate (persisters s ! i), snapshot := snapshot (persisters s ! i)\<rparr>
      in s\<lparr>persisters := persisters s @ [np]\<rparr>)"

definition SaveRaftState :: "nat \<Rightarrow> slice \<Rightarrow> store \<Rightarrow> store" where
  "SaveRaftState i st s =
     (case clone st s of (x, s) \<Rightarrow> set_persister i ((persisters s ! i)\<lparr>raftstate := x\<rparr>) s)"

definition ReadRaftState :: "nat \<Rightarrow> store \<Rightarrow> slice \<times> store" where
  "ReadRaftState i s = clone (raftstate (persisters s ! i)) s"

definition RaftStateSize :: "nat \<Rightarrow> store \<Rightarrow> nat" where
  "RaftStateSize i s = length (bytes_of s (raftstate (persisters s ! i)))"

definition SaveStateAndSnapshot :: "nat \<Rightarrow> slice \<Rightarrow> slice \<Rightarrow> store \<Rightarrow> store" where
  "SaveStateAndSnapshot i st snap s =
     (case clone st s of
        (x, s) \<Rightarrow>
          let s = set_persister i ((persisters s ! i)\<lparr>raftstate := x\<rparr>) s in
          case clone snap s of
            (y, s) \<Rightarrow> set_persister i ((persisters s ! i)\<lparr>snapshot := y\<rparr>) s)"

definition ReadSnapshot :: "nat \<Rightarrow> store \<Rightarrow> slice \<times> store" where
  "ReadSnapshot i s = clone (snapshot (persisters s ! i)) s"

definition SnapshotSize :: "nat \<Rightarrow> store \<Rightarrow> nat" where
  "SnapshotSize i s = length (bytes_of s (snapshot (persisters s ! i)))"

section \<open>Programs that use persisters\<close>

text \<open>
  What a program can do: make slices of its own, overwrite the bytes of a slice it holds, and call
  the methods with slices it holds. \<open>known\<close> are the addresses it has been handed.
\<close>

datatype action =
    NewSlice bytes
  | WriteByte nat nat u8
  | NewPersister
  | CopyOf nat
  | Save nat slice
  | SaveBoth nat slice slice
  | Read nat
  | ReadSnap nat
  | Sizes nat

datatype answer = NoAnswer | Bytes bytes | SizeAnswer nat nat

record client =
  st :: store
  known :: "nat set"

definition holds :: "nat set \<Rightarrow> slice \<Rightarrow> bool" where
  "holds kn x = (case x of None \<Rightarrow> True | Some a \<Rightarrow> a \<in> kn)"

definition got :: "slice \<times> store \<Rightarrow> client \<Rightarrow> answer \<times> client" where
  "got r c = (case r of (x, s) \<Rightarrow>
     (Bytes (bytes_of s x), c\<lparr>st := s, known := (case x of None \<Rightarrow> known c | Some a \<Rightarrow> insert a (known c))\<rparr>))"

fun act :: "action \<Rightarrow> client \<Rightarrow> answer \<times> client" where
  "act (NewSlice bs) c = (NoAnswer, snd (got (alloc bs (st c)) c))"
| "act (WriteByte a k b) c =
     (NoAnswer, if a \<in> known c then c\<lparr>st := (st c)\<lparr>heap := (heap (st c))(a := (heap (st c) a)[k := b])\<rparr>\<rparr> else c)"
| "act NewPersister c = (NoAnswer, c\<lparr>st := (st c)\<lparr>persisters := persisters (st c) @ [MakePersister]\<rparr>\<rparr>)"
| "act (CopyOf i) c =
     (NoAnswer, if i < length (persisters (st c)) then c\<lparr>st := Copy i (st c)\<rparr> else c)"
| "act (Save i x) c =
     (NoAnswer, if i < length (persisters (st c)) \<and> holds (known c) x
                then c\<lparr>st := SaveRaftState i x (st c)\<rparr> else c)"
| "act (SaveBoth i x y) c =
     (NoAnswer, if i < length (persisters (st c)) \<and> holds (known c) x \<and> holds (known c) y
                then c\<lparr>st := SaveStateAndSnapshot i x y (st c)\<rparr> else c)"
| "act (Read i) c =
     (if i < length (persisters (st c)) then got (ReadRaftState i (st c)) c else (NoAnswer, c))"
| "act (ReadSnap i) c =
     (if i < length (persisters (st c)) then got (ReadSnapshot i (st c)) c else (NoAnswer, c))"
| "act (Sizes i) c =
     (if i < length (persisters (st c)) then SizeAnswer (RaftStateSize i (st c)) (SnapshotSize i (st c))
      else NoAnswer, c)"

fun acts :: "action list \<Rightarrow> client \<Rightarrow> answer list \<times> client" where
  "acts [] c = ([], c)"
| "acts (a # as) c = (case act a c of (r, c) \<Rightarrow> case acts as c of (rs, c) \<Rightarrow> (r # rs, c))"

definition start :: client where
  "start = \<lparr>st = \<lparr>heap = (\<lambda>_. []), next_addr = 0, persisters = []\<rparr>, known = {}\<rparr>"

section \<open>The contract: persisters hold values\<close>

text \<open>
  The specification has no addresses in the persisters: each holds two byte strings, and only saving
  changes them. \<open>mem\<close> is the program's own slices.
\<close>

record vstate =
  mem :: "nat \<Rightarrow> bytes"
  vnext :: nat
  vknown :: "nat set"
  saved :: "(bytes \<times> bytes) list"

definition value_of :: "vstate \<Rightarrow> slice \<Rightarrow> bytes" where
  "value_of v x = (case x of None \<Rightarrow> [] | Some a \<Rightarrow> mem v a)"

definition vgot :: "bytes \<Rightarrow> vstate \<Rightarrow> answer \<times> vstate" where
  "vgot bs v = (Bytes bs, v\<lparr>mem := (mem v)(vnext v := bs), vnext := vnext v + 1, vknown := insert (vnext v) (vknown v)\<rparr>)"

definition vholds :: "vstate \<Rightarrow> slice \<Rightarrow> bool" where
  "vholds v x = holds (vknown v) x"

text \<open>
  Saving skips the addresses of the clones, so that both machines name the program's slices alike.
\<close>

fun vact :: "action \<Rightarrow> vstate \<Rightarrow> answer \<times> vstate" where
  "vact (NewSlice bs) v = (NoAnswer, snd (vgot bs v))"
| "vact (WriteByte a k b) v =
     (NoAnswer, if a \<in> vknown v then v\<lparr>mem := (mem v)(a := (mem v a)[k := b])\<rparr> else v)"
| "vact NewPersister v = (NoAnswer, v\<lparr>saved := saved v @ [([], [])]\<rparr>)"
| "vact (CopyOf i) v =
     (NoAnswer, if i < length (saved v) then v\<lparr>saved := saved v @ [saved v ! i]\<rparr> else v)"
| "vact (Save i x) v =
     (NoAnswer, if i < length (saved v) \<and> vholds v x
                then v\<lparr>saved := (saved v)[i := (value_of v x, snd (saved v ! i))], vnext := vnext v + 1\<rparr> else v)"
| "vact (SaveBoth i x y) v =
     (NoAnswer, if i < length (saved v) \<and> vholds v x \<and> vholds v y
                then v\<lparr>saved := (saved v)[i := (value_of v x, value_of v y)], vnext := vnext v + 2\<rparr> else v)"
| "vact (Read i) v = (if i < length (saved v) then vgot (fst (saved v ! i)) v else (NoAnswer, v))"
| "vact (ReadSnap i) v = (if i < length (saved v) then vgot (snd (saved v ! i)) v else (NoAnswer, v))"
| "vact (Sizes i) v =
     (if i < length (saved v) then SizeAnswer (length (fst (saved v ! i))) (length (snd (saved v ! i)))
      else NoAnswer, v)"

fun vacts :: "action list \<Rightarrow> vstate \<Rightarrow> answer list \<times> vstate" where
  "vacts [] v = ([], v)"
| "vacts (a # as) v = (case vact a v of (r, v) \<Rightarrow> case vacts as v of (rs, v) \<Rightarrow> (r # rs, v))"

definition vstart :: vstate where
  "vstart = \<lparr>mem = (\<lambda>_. []), vnext = 0, vknown = {}, saved = []\<rparr>"

section \<open>Refinement\<close>

text \<open>An address that only persisters hold.\<close>

definition hidden :: "client \<Rightarrow> slice \<Rightarrow> bool" where
  "hidden c x \<longleftrightarrow> (case x of None \<Rightarrow> True | Some a \<Rightarrow> a < next_addr (st c) \<and> a \<notin> known c)"

definition contents_of :: "store \<Rightarrow> Persister \<Rightarrow> bytes \<times> bytes" where
  "contents_of s p = (bytes_of s (raftstate p), bytes_of s (snapshot p))"

definition refines :: "client \<Rightarrow> vstate \<Rightarrow> bool" where
  "refines c v \<longleftrightarrow>
     vnext v = next_addr (st c) \<and> vknown v = known c \<and> (\<forall>a\<in>known c. a < next_addr (st c)) \<and>
     (\<forall>a\<in>known c. mem v a = heap (st c) a) \<and>
     (\<forall>p\<in>set (persisters (st c)). hidden c (raftstate p) \<and> hidden c (snapshot p)) \<and>
     saved v = map (contents_of (st c)) (persisters (st c))"

lemma bytes_of_update_other:
  "hidden c x \<Longrightarrow> a \<in> known c \<or> a = next_addr (st c) \<Longrightarrow>
   bytes_of ((st c)\<lparr>heap := (heap (st c))(a := bs)\<rparr>) x = bytes_of (st c) x"
  by (auto simp: bytes_of_def hidden_def split: option.splits)

lemma bytes_of_frame [simp]:
  "bytes_of (s\<lparr>next_addr := n\<rparr>) x = bytes_of s x"
  "bytes_of (s\<lparr>persisters := ps\<rparr>) x = bytes_of s x"
  by (auto simp: bytes_of_def split: option.splits)

lemma contents_of_frame [simp]:
  "contents_of (s\<lparr>next_addr := n\<rparr>) p = contents_of s p"
  "contents_of (s\<lparr>persisters := ps\<rparr>) p = contents_of s p"
  by (auto simp: contents_of_def)

lemma contents_of_update_other:
  "hidden c (raftstate p) \<Longrightarrow> hidden c (snapshot p) \<Longrightarrow> a \<in> known c \<or> a = next_addr (st c) \<Longrightarrow>
   contents_of ((st c)\<lparr>heap := (heap (st c))(a := bs)\<rparr>) p = contents_of (st c) p"
  by (simp add: contents_of_def bytes_of_update_other)

text \<open>Handing the program a new slice, which is what \<open>make\<close> and both reads do.\<close>

lemma refines_got:
  assumes "refines c v"
  shows "refines (snd (got (alloc bs (st c)) c)) (snd (vgot bs v)) \<and>
    fst (got (alloc bs (st c)) c) = fst (vgot bs v)"
proof -
  have "contents_of ((st c)\<lparr>heap := (heap (st c))(next_addr (st c) := bs)\<rparr>) p = contents_of (st c) p"
    if "p \<in> set (persisters (st c))" for p
    using assms that by (intro contents_of_update_other) (auto simp: refines_def)
  moreover have "hidden (snd (got (alloc bs (st c)) c)) x" if "hidden c x" for x
    using that by (auto simp: hidden_def got_def alloc_def split: option.splits)
  ultimately show ?thesis
    using assms by (auto simp: refines_def got_def alloc_def vgot_def bytes_of_def)
qed

lemma value_of_frame [simp]:
  "value_of (v\<lparr>saved := xs\<rparr>) x = value_of v x" "value_of (v\<lparr>vnext := n\<rparr>) x = value_of v x"
  by (auto simp: value_of_def split: option.splits)

text \<open>Replacing what a persister holds by clones.\<close>

lemma refines_clone_bytes:
  "refines c v \<Longrightarrow> holds (known c) x \<Longrightarrow> bytes_of (st c) x = value_of v x"
  by (auto simp: refines_def holds_def bytes_of_def value_of_def split: option.splits)

definition install :: "bytes \<Rightarrow> nat \<Rightarrow> (slice \<Rightarrow> Persister \<Rightarrow> Persister) \<Rightarrow> store \<Rightarrow> store" where
  "install bs i f s =
     (case alloc bs s of (x, s) \<Rightarrow> set_persister i (f x (persisters s ! i)) s)"

lemma install_simps [simp]:
  "persisters (install bs i f s) = (persisters s)[i := f (Some (next_addr s)) (persisters s ! i)]"
  "heap (install bs i f s) = (heap s)(next_addr s := bs)"
  "next_addr (install bs i f s) = next_addr s + 1"
  by (simp_all add: install_def alloc_def set_persister_def)

lemma bytes_of_install:
  "bytes_of (install bs i f s) x = (if x = Some (next_addr s) then bs else bytes_of s x)"
  by (auto simp: bytes_of_def split: option.splits)

lemma refines_install:
  assumes r: "refines c v" and i: "i < length (persisters (st c))"
    and f: "\<And>x p. raftstate (f x p) \<in> {raftstate p, x} \<and> snapshot (f x p) \<in> {snapshot p, x}"
  shows "refines (c\<lparr>st := install bs i f (st c)\<rparr>)
    (v\<lparr>saved := (saved v)[i := contents_of (install bs i f (st c)) (f (Some (next_addr (st c))) (persisters (st c) ! i))],
       vnext := vnext v + 1\<rparr>)"
proof -
  let ?s = "install bs i f (st c)" and ?p = "f (Some (next_addr (st c))) (persisters (st c) ! i)"
  have old: "contents_of ?s p = contents_of (st c) p" if "p \<in> set (persisters (st c))" for p
    using r that by (auto simp: refines_def contents_of_def bytes_of_install hidden_def split: option.splits)
  have keep: "hidden (c\<lparr>st := ?s\<rparr>) x" if "hidden c x \<or> x = Some (next_addr (st c))" for x
    using that r by (auto simp: hidden_def refines_def split: option.splits)
  have "hidden (c\<lparr>st := ?s\<rparr>) (raftstate p) \<and> hidden (c\<lparr>st := ?s\<rparr>) (snapshot p)"
    if "p \<in> set (persisters ?s)" for p
  proof (cases "p = ?p")
    case True
    have "hidden c (raftstate (persisters (st c) ! i)) \<and> hidden c (snapshot (persisters (st c) ! i))"
      using r nth_mem [OF i] by (auto simp: refines_def)
    then show ?thesis
      using True f [of "Some (next_addr (st c))" "persisters (st c) ! i"] keep by auto
  next
    case False
    then have "p \<in> set (persisters (st c))" using that set_update_subset_insert by fastforce
    then show ?thesis using r keep by (auto simp: refines_def)
  qed
  moreover have "map (contents_of ?s) (persisters ?s) = (saved v)[i := contents_of ?s ?p]"
    using r by (simp add: refines_def map_update old cong: map_cong)
  moreover have "\<forall>a\<in>known c. a < next_addr ?s \<and> a \<noteq> next_addr (st c)" using r by (auto simp: refines_def)
  ultimately show ?thesis using r unfolding refines_def by auto
qed

lemma SaveRaftState_install: "SaveRaftState i x s = install (bytes_of s x) i (\<lambda>y p. p\<lparr>raftstate := y\<rparr>) s"
  by (simp add: SaveRaftState_def install_def clone_def)

lemma SaveStateAndSnapshot_install:
  "SaveStateAndSnapshot i x y s =
     (let s1 = install (bytes_of s x) i (\<lambda>y p. p\<lparr>raftstate := y\<rparr>) s
      in install (bytes_of s1 y) i (\<lambda>y p. p\<lparr>snapshot := y\<rparr>) s1)"
  by (simp add: SaveStateAndSnapshot_def install_def clone_def Let_def split: prod.splits)

lemma hidden_field_neq:
  "refines c v \<Longrightarrow> i < length (persisters (st c)) \<Longrightarrow> raftstate (persisters (st c) ! i) \<noteq> Some (next_addr (st c)) \<and>
   snapshot (persisters (st c) ! i) \<noteq> Some (next_addr (st c))"
proof -
  assume "refines c v" and "i < length (persisters (st c))"
  then have "hidden c (raftstate (persisters (st c) ! i)) \<and> hidden c (snapshot (persisters (st c) ! i))"
    using nth_mem by (simp add: refines_def)
  then show ?thesis by (auto simp: hidden_def)
qed

lemma saved_nth: "refines c v \<Longrightarrow> i < length (persisters (st c)) \<Longrightarrow>
    saved v ! i = contents_of (st c) (persisters (st c) ! i)"
  by (simp add: refines_def)

lemma refines_Save:
  assumes "refines c v" and "i < length (persisters (st c))" and "holds (known c) x"
  shows "refines (c\<lparr>st := SaveRaftState i x (st c)\<rparr>)
    (v\<lparr>saved := (saved v)[i := (value_of v x, snd (saved v ! i))], vnext := vnext v + 1\<rparr>)"
  using refines_install [OF assms(1,2), of "\<lambda>y p. p\<lparr>raftstate := y\<rparr>" "bytes_of (st c) x"]
    hidden_field_neq [OF assms(1,2)] refines_clone_bytes [OF assms(1,3)] saved_nth [OF assms(1,2)]
  by (simp add: SaveRaftState_install contents_of_def bytes_of_install)

lemma refines_SaveBoth:
  assumes r: "refines c v" and i: "i < length (persisters (st c))" and x: "holds (known c) x" and y: "holds (known c) y"
  shows "refines (c\<lparr>st := SaveStateAndSnapshot i x y (st c)\<rparr>)
    (v\<lparr>saved := (saved v)[i := (value_of v x, value_of v y)], vnext := vnext v + 2\<rparr>)"
proof -
  let ?c1 = "c\<lparr>st := SaveRaftState i x (st c)\<rparr>"
  let ?v1 = "v\<lparr>saved := (saved v)[i := (value_of v x, snd (saved v ! i))], vnext := vnext v + 1\<rparr>"
  have r1: "refines ?c1 ?v1" by (rule refines_Save [OF r i x])
  have i1: "i < length (persisters (st ?c1))" using i by (simp add: SaveRaftState_install)
  have "holds (known ?c1) y" using y by simp
  then have b: "bytes_of (st ?c1) y = value_of v y" using refines_clone_bytes [OF r1] by simp
  have "i < length (saved v)" using r i by (simp add: refines_def)
  then show ?thesis
    using refines_install [OF r1 i1, of "\<lambda>y p. p\<lparr>snapshot := y\<rparr>" "bytes_of (st ?c1) y"] b
      hidden_field_neq [OF r1 i1] saved_nth [OF r1 i1]
    by (simp add: SaveStateAndSnapshot_install SaveRaftState_install Let_def contents_of_def bytes_of_install)
qed

lemma act_refines:
  assumes r: "refines c v"
  shows "refines (snd (act a c)) (snd (vact a v)) \<and> fst (act a c) = fst (vact a v)"
proof -
  have len: "length (saved v) = length (persisters (st c))" and kn: "vknown v = known c"
    using r by (simp_all add: refines_def)
  have read: "refines (snd (got (clone x (st c)) c)) (snd (vgot bs v)) \<and>
      fst (got (clone x (st c)) c) = fst (vgot bs v)" if "bytes_of (st c) x = bs" for x bs
    using refines_got [OF r, of bs] that by (simp add: clone_def)
  show ?thesis
  proof (cases a)
    case (NewSlice bs)
    then show ?thesis using refines_got [OF r, of bs] by simp
  next
    case (WriteByte b k byte)
    show ?thesis
    proof (cases "b \<in> known c")
      case True
      have "contents_of ((st c)\<lparr>heap := (heap (st c))(b := (heap (st c) b)[k := byte])\<rparr>) p = contents_of (st c) p"
        if "p \<in> set (persisters (st c))" for p
        using r that True by (intro contents_of_update_other) (auto simp: refines_def)
      then show ?thesis
        using r True WriteByte by (auto simp: refines_def hidden_def split: option.splits)
    qed (use r WriteByte kn in simp)
  next
    case NewPersister
    then show ?thesis
      using r by (auto simp: refines_def MakePersister_def hidden_def contents_of_def bytes_of_def split: option.splits)
  next
    case (CopyOf i)
    show ?thesis
    proof (cases "i < length (persisters (st c))")
      case True
      let ?p = "persisters (st c) ! i"
      have "persisters (Copy i (st c)) = persisters (st c) @ [?p]" "heap (Copy i (st c)) = heap (st c)"
        "next_addr (Copy i (st c)) = next_addr (st c)"
        by (simp_all add: Copy_def MakePersister_def Let_def)
      moreover have "contents_of (Copy i (st c)) p = contents_of (st c) p" for p by (simp add: Copy_def Let_def)
      moreover have "?p \<in> set (persisters (st c))" using True by simp
      moreover have "hidden (c\<lparr>st := Copy i (st c)\<rparr>) x = hidden c x" for x
        using calculation(3) by (cases x) (simp_all add: hidden_def)
      ultimately show ?thesis
        using r True CopyOf len by (auto simp: refines_def)
    qed (use r CopyOf len in simp)
  next
    case (Save i x)
    then show ?thesis using r refines_Save [OF r] len kn by (auto simp: vholds_def)
  next
    case (SaveBoth i x y)
    then show ?thesis using r refines_SaveBoth [OF r] len kn by (auto simp: vholds_def)
  next
    case (Read i)
    then show ?thesis
      using r read [of "raftstate (persisters (st c) ! i)"] saved_nth [OF r] len
      by (auto simp: ReadRaftState_def contents_of_def)
  next
    case (ReadSnap i)
    then show ?thesis
      using r read [of "snapshot (persisters (st c) ! i)"] saved_nth [OF r] len
      by (auto simp: ReadSnapshot_def contents_of_def)
  next
    case (Sizes i)
    then show ?thesis
      using r saved_nth [OF r] len by (auto simp: RaftStateSize_def SnapshotSize_def contents_of_def)
  qed
qed

lemma acts_refine:
  "refines c v \<Longrightarrow> refines (snd (acts as c)) (snd (vacts as v)) \<and> fst (acts as c) = fst (vacts as v)"
proof (induction as arbitrary: c v)
  case (Cons a as)
  obtain r1 c1 where c1: "act a c = (r1, c1)" by (rule prod.exhaust)
  obtain r2 v1 where v1: "vact a v = (r2, v1)" by (rule prod.exhaust)
  have "refines c1 v1" "r1 = r2" using act_refines [OF Cons.prems, of a] c1 v1 by auto
  then show ?case using Cons.IH [of c1 v1] c1 v1 by (auto split: prod.splits)
qed simp

text \<open>
  C21: a persister holds values, not slices. Whatever sequence of operations a program performs, with
  any number of persisters and copies of them, and however it overwrites the slices it passed to the
  save methods or got back from the read methods, every read, every size and every save gives exactly
  what the specification gives in which a persister is a pair of byte strings that only saving
  changes: the clones on the way in and out keep the persisters' memory apart from the program's, and
  two copies stay independent although they share their slices.
\<close>
theorem persister_holds_values:
  "fst (acts ops start) = fst (vacts ops vstart) \<and>
   saved (snd (vacts ops vstart)) =
     map (contents_of (st (snd (acts ops start)))) (persisters (st (snd (acts ops start))))"
proof -
  have "refines start vstart" by (simp add: refines_def start_def vstart_def)
  from acts_refine [OF this, of ops] show ?thesis by (simp add: refines_def)
qed

end
