(* ===== verification/RaftPeer.thy ===== *)
theory RaftPeer
  imports Persister LabRpc
begin

text \<open>
  lab3/raft/raft.go: the Raft peer as the repository has it, an outline whose election and replication
  are not written. It is the object that the tester of config.go makes, kills, connects and asks; end
  points are named by the strings the tester gives them, the persister is its number in the store.
\<close>

record 'c ApplyMsg =
  CommandValid :: bool
  Command :: 'c
  CommandIndex :: int

record Raft =
  peers :: "string list"
  persister :: nat
  me :: nat
  dead :: i32

definition GetState :: "Raft \<Rightarrow> int \<times> bool" where
  "GetState rf = (let term = 0; isleader = False in (term, isleader))"

definition readPersist :: "slice \<Rightarrow> store \<Rightarrow> Raft \<Rightarrow> Raft" where
  "readPersist data s rf = (if data = None \<or> length (bytes_of s data) < 1 then rf else rf)"

definition RequestVote :: "Raft \<Rightarrow> Raft" where
  "RequestVote rf = rf"

definition Start :: "'c \<Rightarrow> Raft \<Rightarrow> int \<times> int \<times> bool" where
  "Start command rf = (let index = -1; term = -1; isLeader = True in (index, term, isLeader))"

definition Kill :: "Raft \<Rightarrow> Raft" where
  "Kill rf = rf\<lparr>dead := 1\<rparr>"

definition killed :: "Raft \<Rightarrow> bool" where
  "killed rf \<longleftrightarrow> dead rf = 1"

text \<open>
  \<open>ticker\<close> spins until the peer is killed: it looks at \<open>dead\<close> and does nothing else. The list holds
  the peer as successive turns find it; the result is the number of turns, \<open>None\<close> while it spins.
\<close>

fun ticker :: "Raft list \<Rightarrow> nat option" where
  "ticker [] = None"
| "ticker (rf # rfs) = (if \<not> killed rf then map_option Suc (ticker rfs) else Some 0)"

text \<open>\<open>Make\<close> reads the persisted state, which copies it, and starts the ticker.\<close>

definition Make :: "string list \<Rightarrow> nat \<Rightarrow> nat \<Rightarrow> store \<Rightarrow> Raft \<times> store" where
  "Make es i p s =
     (let rf = \<lparr>peers = es, persister = p, me = i, dead = 0\<rparr>;
          (data, s) = ReadRaftState p s
      in (readPersist data s rf, s))"

text \<open>The methods of \<open>*Raft\<close> that reflection shows \<open>MakeService\<close>: the exported ones, with the receiver
  counted among the inputs.\<close>

definition raft_methods :: "rmethod list" where
  "raft_methods =
     [\<lparr>m_Name = ''GetState'', m_PkgPath = [], m_NumIn = 1, m_In2IsPtr = False, m_NumOut = 2\<rparr>,
      \<lparr>m_Name = ''Kill'', m_PkgPath = [], m_NumIn = 1, m_In2IsPtr = False, m_NumOut = 0\<rparr>,
      \<lparr>m_Name = ''RequestVote'', m_PkgPath = [], m_NumIn = 3, m_In2IsPtr = True, m_NumOut = 0\<rparr>,
      \<lparr>m_Name = ''Start'', m_PkgPath = [], m_NumIn = 2, m_In2IsPtr = False, m_NumOut = 3\<rparr>]"

lemma Make_peer:
  "fst (Make es i p s) = \<lparr>peers = es, persister = p, me = i, dead = 0\<rparr>"
  "snd (Make es i p s) = snd (ReadRaftState p s)"
  by (simp_all add: Make_def readPersist_def Let_def split: prod.splits)

lemma raft_service: "svc_methods (MakeService ''Raft'' raft_methods) = {''RequestVote''}"
  by (auto simp: MakeService_def raft_methods_def looks_like_handler_def)

lemma ticker_stops: "k < length rfs \<Longrightarrow> killed (rfs ! k) \<Longrightarrow> \<exists>m\<le>k. ticker rfs = Some m"
proof (induction rfs arbitrary: k)
  case (Cons rf rfs)
  then show ?case by (cases k) (fastforce simp: less_Suc_eq_0_disj)+
qed simp

end
