(* ===== verification/RaftConfig.thy ===== *)
theory RaftConfig
  imports RaftPeer
begin

text \<open>
  lab3/raft/config.go, the tester's cluster: which peers exist, which of them are on the network, under
  which end names they call each other, and what they have persisted. The network is that of LabRpc,
  the store of slices and persisters that of Persister, the peers those of RaftPeer; a \<open>*Raft\<close>, a
  \<open>*Persister\<close> and a \<open>*labrpc.Server\<close> are positions in the lists of all of them ever made. Each
  function runs as one step (they are called one after the other by a test); the 20 random characters
  of an end name are arguments.
\<close>

section \<open>State\<close>

record 'c config =
  cnet :: "(string, nat) Network"
  cfg_n :: nat
  rafts :: "nat option list"
  applyErr :: "string list"
  connected :: "bool list"
  saved :: "nat option list"
  endnames :: "string list option list"
  logs :: "(int \<rightharpoonup> 'c) list"
  maxIndex :: int
  rpcs0 :: int
  cmds0 :: int
  bytes0 :: int
  maxIndex0 :: int
  store :: store
  peers_made :: "Raft list"
  servers_made :: "Server list"

type_synonym 'c cfg_outcome = "(string, 'c config) go_result"

text \<open>Indexing a nil row of \<open>endnames\<close> is out of range, like indexing an empty one.\<close>

definition row :: "nat \<Rightarrow> 'c config \<Rightarrow> string list" where
  "row i cfg = (case endnames cfg ! i of None \<Rightarrow> [] | Some es \<Rightarrow> es)"

definition enable_end :: "nat \<Rightarrow> nat \<Rightarrow> bool \<Rightarrow> 'c config \<Rightarrow> 'c cfg_outcome" where
  "enable_end i j yes cfg =
     bind_go (idx_get (row i cfg) j) (\<lambda>endname. Return (cfg\<lparr>cnet := Enable endname yes (cnet cfg)\<rparr>))"

section \<open>On and off the network\<close>

definition connect :: "nat \<Rightarrow> 'c config \<Rightarrow> 'c cfg_outcome" where
  "connect i cfg =
     bind_go (idx_set (connected cfg) i True) (\<lambda>cs.
     bind_go (for_go (\<lambda>j cfg. if connected cfg ! j then enable_end i j True cfg else Return cfg) [0..<cfg_n cfg]
       (cfg\<lparr>connected := cs\<rparr>)) (\<lambda>cfg.
     for_go (\<lambda>j cfg. if connected cfg ! j then enable_end j i True cfg else Return cfg) [0..<cfg_n cfg] cfg))"

definition disconnect :: "nat \<Rightarrow> 'c config \<Rightarrow> 'c cfg_outcome" where
  "disconnect i cfg =
     bind_go (idx_set (connected cfg) i False) (\<lambda>cs.
     bind_go (for_go (\<lambda>j cfg. if endnames cfg ! i \<noteq> None then enable_end i j False cfg else Return cfg) [0..<cfg_n cfg]
       (cfg\<lparr>connected := cs\<rparr>)) (\<lambda>cfg.
     for_go (\<lambda>j cfg. if endnames cfg ! j \<noteq> None then enable_end j i False cfg else Return cfg) [0..<cfg_n cfg] cfg))"

section \<open>Crashing and starting a server\<close>

text \<open>\<open>cfg.saved[i] = cfg.saved[i].Copy()\<close>\<close>

definition copy_saved :: "nat \<Rightarrow> nat \<Rightarrow> 'c config \<Rightarrow> 'c config" where
  "copy_saved i p cfg =
     cfg\<lparr>saved := (saved cfg)[i := Some (length (persisters (store cfg)))], store := Copy p (store cfg)\<rparr>"

text \<open>A fresh persister into which the contents of the saved one are read and saved again.\<close>

definition fresh_saved :: "nat \<Rightarrow> nat \<Rightarrow> 'c config \<Rightarrow> 'c config" where
  "fresh_saved i p cfg =
     (let (raftlog, s) = ReadRaftState p (store cfg);
          (snap, s) = ReadSnapshot p s;
          q = length (persisters s);
          s = s\<lparr>persisters := persisters s @ [MakePersister]\<rparr>
      in cfg\<lparr>saved := (saved cfg)[i := Some q], store := SaveStateAndSnapshot q raftlog snap s\<rparr>)"

definition kill_raft :: "nat \<Rightarrow> 'c config \<Rightarrow> 'c config" where
  "kill_raft i cfg =
     (case rafts cfg ! i of
        None \<Rightarrow> cfg
      | Some r \<Rightarrow> cfg\<lparr>peers_made := (peers_made cfg)[r := Kill (peers_made cfg ! r)], rafts := (rafts cfg)[i := None]\<rparr>)"

definition crash1 :: "nat \<Rightarrow> 'c config \<Rightarrow> 'c cfg_outcome" where
  "crash1 i cfg =
     bind_go (disconnect i cfg) (\<lambda>cfg.
       let cfg = cfg\<lparr>cnet := DeleteServer i (cnet cfg)\<rparr>;
           cfg = (case saved cfg ! i of None \<Rightarrow> cfg | Some p \<Rightarrow> copy_saved i p cfg);
           cfg = kill_raft i cfg
       in Return (case saved cfg ! i of None \<Rightarrow> cfg | Some p \<Rightarrow> fresh_saved i p cfg))"

text \<open>\<open>MakeEnd\<close> and \<open>Connect\<close> for the j-th name; two ends of one name end the process.\<close>

definition make_end :: "(nat \<Rightarrow> string) \<Rightarrow> nat \<Rightarrow> 'c config \<Rightarrow> 'c cfg_outcome" where
  "make_end names j cfg =
     (case MakeEnd (names j) (cnet cfg) of
        Return rn \<Rightarrow> Return (cfg\<lparr>cnet := Connect (names j) j rn\<rparr>)
      | Panics p \<Rightarrow> Panics p
      | Fails e \<Rightarrow> Fails (st_message e)
      | Blocks \<Rightarrow> Blocks)"

definition start_peer :: "nat \<Rightarrow> (nat \<Rightarrow> string) \<Rightarrow> 'c config \<Rightarrow> 'c config" where
  "start_peer i names cfg =
     (let cfg = (case saved cfg ! i of
                   Some p \<Rightarrow> copy_saved i p cfg
                 | None \<Rightarrow> cfg\<lparr>saved := (saved cfg)[i := Some (length (persisters (store cfg)))],
                              store := (store cfg)\<lparr>persisters := persisters (store cfg) @ [MakePersister]\<rparr>\<rparr>);
          (rf, s) = Make (map names [0..<cfg_n cfg]) i (the (saved cfg ! i)) (store cfg);
          r = length (peers_made cfg);
          cfg = cfg\<lparr>store := s, peers_made := peers_made cfg @ [rf], rafts := (rafts cfg)[i := Some r]\<rparr>;
          srv = AddService (MakeService ''Raft'' raft_methods) MakeServer;
          sid = length (servers_made cfg)
      in cfg\<lparr>servers_made := servers_made cfg @ [srv], cnet := AddServer i sid (cnet cfg)\<rparr>)"

definition start1 :: "nat \<Rightarrow> (nat \<Rightarrow> string) \<Rightarrow> 'c config \<Rightarrow> 'c cfg_outcome" where
  "start1 i names cfg =
     bind_go (crash1 i cfg) (\<lambda>cfg.
     bind_go (for_go (make_end names) [0..<cfg_n cfg]
       (cfg\<lparr>endnames := (endnames cfg)[i := Some (map names [0..<cfg_n cfg])]\<rparr>)) (\<lambda>cfg.
     Return (start_peer i names cfg)))"

section \<open>Making a cluster\<close>

definition empty_config :: "nat \<Rightarrow> bool \<Rightarrow> 'c config" where
  "empty_config n unreliable =
     \<lparr>cnet = LongDelays True (Reliable (\<not> unreliable) MakeNetwork), cfg_n = n, rafts = replicate n None,
      applyErr = replicate n [], connected = replicate n False, saved = replicate n None,
      endnames = replicate n None, logs = replicate n Map.empty, maxIndex = 0, rpcs0 = 0, cmds0 = 0, bytes0 = 0,
      maxIndex0 = 0, store = \<lparr>heap = (\<lambda>_. []), next_addr = 0, persisters = []\<rparr>, peers_made = [], servers_made = []\<rparr>"

definition make_config :: "nat \<Rightarrow> bool \<Rightarrow> (nat \<Rightarrow> nat \<Rightarrow> string) \<Rightarrow> 'c cfg_outcome" where
  "make_config n unreliable names =
     bind_go (for_go (\<lambda>i. start1 i (names i)) [0..<n] (empty_config n unreliable))
       (\<lambda>cfg. for_go connect [0..<n] cfg)"

definition setunreliable :: "bool \<Rightarrow> 'c config \<Rightarrow> 'c config" where
  "setunreliable unrel cfg = cfg\<lparr>cnet := Reliable (\<not> unrel) (cnet cfg)\<rparr>"

definition setlongreordering :: "bool \<Rightarrow> 'c config \<Rightarrow> 'c config" where
  "setlongreordering longrel cfg = cfg\<lparr>cnet := LongReordering longrel (cnet cfg)\<rparr>"

end
