(* ===== verification/RaftEnds.thy ===== *)
theory RaftEnds
  imports RaftConfig
begin

text \<open>
  The network side of the tester's cluster (lab3/raft/config.go): what the loops of \<open>connect\<close> and
  \<open>disconnect\<close> do to the ends, and the invariant that the ends of the running instances are enabled
  exactly between connected servers, kept by every operation.
\<close>

section \<open>What the loops do\<close>

definition set_enabled :: "string set \<Rightarrow> bool \<Rightarrow> (string, nat) Network \<Rightarrow> (string, nat) Network" where
  "set_enabled A yes rn = rn\<lparr>enabled := (\<lambda>e. if e \<in> A then yes else enabled rn e)\<rparr>"

lemma set_enabled_simps [simp]:
  "enabled (set_enabled A yes rn) e = (if e \<in> A then yes else enabled rn e)"
  "ends (set_enabled A yes rn) = ends rn" "servers (set_enabled A yes rn) = servers rn"
  "connections (set_enabled A yes rn) = connections rn"
  by (simp_all add: set_enabled_def)

lemma set_enabled_twice: "set_enabled A yes (set_enabled B yes rn) = set_enabled (B \<union> A) yes rn"
  by (rule Network.equality) (auto simp: set_enabled_def fun_eq_iff)

lemma Enable_set_enabled: "Enable e yes rn = set_enabled {e} yes rn"
  by (rule Network.equality) (auto simp: set_enabled_def Enable_def fun_eq_iff)

text \<open>A loop that enables or disables the ends \<open>nm j\<close> of some indices.\<close>

lemma for_enable:
  assumes "\<And>j rn. j \<in> set js \<Longrightarrow>
    body j (cfg\<lparr>cnet := rn\<rparr>) = Return (cfg\<lparr>cnet := (if P j then Enable (nm j) yes rn else rn)\<rparr>)"
  shows "for_go body js (cfg\<lparr>cnet := rn\<rparr>) =
    Return (cfg\<lparr>cnet := set_enabled {nm j |j. j \<in> set js \<and> P j} yes rn\<rparr>)"
  using assms
proof (induction js arbitrary: rn)
  case Nil
  then show ?case by (simp add: set_enabled_def)
next
  case (Cons j js)
  let ?rn = "if P j then Enable (nm j) yes rn else rn"
  have "for_go body (j # js) (cfg\<lparr>cnet := rn\<rparr>) = for_go body js (cfg\<lparr>cnet := ?rn\<rparr>)"
    using Cons.prems [of j rn] by simp
  also have "\<dots> = Return (cfg\<lparr>cnet := set_enabled {nm k |k. k \<in> set js \<and> P k} yes ?rn\<rparr>)"
    by (rule Cons.IH) (use Cons.prems in simp)
  also have "set_enabled {nm k |k. k \<in> set js \<and> P k} yes ?rn = set_enabled {nm k |k. k \<in> set (j # js) \<and> P k} yes rn"
  proof -
    have "{nm k |k. k \<in> set (j # js) \<and> P k} =
        (if P j then insert (nm j) {nm k |k. k \<in> set js \<and> P k} else {nm k |k. k \<in> set js \<and> P k})"
      by auto
    then show ?thesis by (simp add: Enable_set_enabled set_enabled_twice)
  qed
  finally show ?case .
qed

definition cfg_shape :: "'c config \<Rightarrow> bool" where
  "cfg_shape cfg \<longleftrightarrow>
     length (connected cfg) = cfg_n cfg \<and> length (rafts cfg) = cfg_n cfg \<and> length (saved cfg) = cfg_n cfg \<and>
     length (endnames cfg) = cfg_n cfg \<and>
     (\<forall>i<cfg_n cfg. \<forall>es. endnames cfg ! i = Some es \<longrightarrow> length es = cfg_n cfg)"

definition started :: "nat \<Rightarrow> 'c config \<Rightarrow> bool" where
  "started i cfg \<longleftrightarrow> endnames cfg ! i \<noteq> None"

lemma length_row: "cfg_shape cfg \<Longrightarrow> i < cfg_n cfg \<Longrightarrow> started i cfg \<Longrightarrow> length (row i cfg) = cfg_n cfg"
  by (auto simp: cfg_shape_def started_def row_def)

lemma row_cnet [simp]: "row i (cfg\<lparr>cnet := rn\<rparr>) = row i cfg" "row i (cfg\<lparr>connected := cs\<rparr>) = row i cfg"
  by (simp_all add: row_def)

definition row_ends :: "nat \<Rightarrow> (nat \<Rightarrow> bool) \<Rightarrow> 'c config \<Rightarrow> string set" where
  "row_ends i P cfg = {row i cfg ! j |j. j < cfg_n cfg \<and> P j}"

definition column_ends :: "nat \<Rightarrow> (nat \<Rightarrow> bool) \<Rightarrow> 'c config \<Rightarrow> string set" where
  "column_ends i P cfg = {row j cfg ! i |j. j < cfg_n cfg \<and> P j}"

lemma connect_value:
  assumes shape: "cfg_shape cfg" and i: "i < cfg_n cfg" and all: "\<And>k. k < cfg_n cfg \<Longrightarrow> started k cfg"
  defines "cs \<equiv> (connected cfg)[i := True]"
  shows "connect i cfg = Return (cfg\<lparr>connected := cs,
    cnet := set_enabled (row_ends i ((!) cs) cfg \<union> column_ends i ((!) cs) cfg) True (cnet cfg)\<rparr>)"
proof -
  let ?cfg = "cfg\<lparr>connected := cs\<rparr>"
  have len: "k < cfg_n cfg \<Longrightarrow> length (row k cfg) = cfg_n cfg" for k using length_row [OF shape] all by blast
  have 1: "for_go (\<lambda>j cfg. if connected cfg ! j then enable_end i j True cfg else Return cfg) [0..<cfg_n cfg]
      (?cfg\<lparr>cnet := rn\<rparr>) = Return (?cfg\<lparr>cnet := set_enabled (row_ends i ((!) cs) cfg) True rn\<rparr>)" for rn
    using len i by (subst for_enable [where nm = "(!) (row i cfg)" and P = "(!) cs" and yes = True])
      (auto simp: enable_end_def idx_get_def row_ends_def)
  have 2: "for_go (\<lambda>j cfg. if connected cfg ! j then enable_end j i True cfg else Return cfg) [0..<cfg_n cfg]
      (?cfg\<lparr>cnet := rn\<rparr>) = Return (?cfg\<lparr>cnet := set_enabled (column_ends i ((!) cs) cfg) True rn\<rparr>)" for rn
    using len i by (subst for_enable [where nm = "\<lambda>j. row j cfg ! i" and P = "(!) cs" and yes = True])
      (auto simp: enable_end_def idx_get_def column_ends_def)
  have "idx_set (connected cfg) i True = (Return cs :: (string, bool list) go_result)"
    using shape i by (simp add: idx_set_def cfg_shape_def cs_def)
  moreover have "?cfg = ?cfg\<lparr>cnet := cnet cfg\<rparr>" by simp
  ultimately show ?thesis
    using 1 [of "cnet cfg"] 2 unfolding connect_def by (simp add: set_enabled_twice)
qed

lemma disconnect_value:
  assumes shape: "cfg_shape cfg" and i: "i < cfg_n cfg"
  shows "disconnect i cfg = Return (cfg\<lparr>connected := (connected cfg)[i := False],
    cnet := set_enabled (row_ends i (\<lambda>_. started i cfg) cfg \<union> column_ends i (\<lambda>j. started j cfg) cfg) False (cnet cfg)\<rparr>)"
proof -
  let ?cfg = "cfg\<lparr>connected := (connected cfg)[i := False]\<rparr>"
  have len: "k < cfg_n cfg \<Longrightarrow> endnames cfg ! k \<noteq> None \<Longrightarrow> length (row k cfg) = cfg_n cfg" for k
    using length_row [OF shape] by (simp add: started_def)
  have 1: "for_go (\<lambda>j cfg. if endnames cfg ! i \<noteq> None then enable_end i j False cfg else Return cfg) [0..<cfg_n cfg]
      (?cfg\<lparr>cnet := rn\<rparr>) = Return (?cfg\<lparr>cnet := set_enabled (row_ends i (\<lambda>_. started i cfg) cfg) False rn\<rparr>)" for rn
    using len i by (subst for_enable [where nm = "(!) (row i cfg)" and P = "\<lambda>_. started i cfg" and yes = False])
      (auto simp: enable_end_def idx_get_def row_ends_def started_def)
  have 2: "for_go (\<lambda>j cfg. if endnames cfg ! j \<noteq> None then enable_end j i False cfg else Return cfg) [0..<cfg_n cfg]
      (?cfg\<lparr>cnet := rn\<rparr>) = Return (?cfg\<lparr>cnet := set_enabled (column_ends i (\<lambda>j. started j cfg) cfg) False rn\<rparr>)" for rn
    using len i by (subst for_enable [where nm = "\<lambda>j. row j cfg ! i" and P = "\<lambda>j. started j cfg" and yes = False])
      (auto simp: enable_end_def idx_get_def column_ends_def started_def)
  have "idx_set (connected cfg) i False = (Return ((connected cfg)[i := False]) :: (string, bool list) go_result)"
    using shape i by (simp add: idx_set_def cfg_shape_def)
  moreover have "?cfg = ?cfg\<lparr>cnet := cnet cfg\<rparr>" by simp
  ultimately show ?thesis
    using 1 [of "cnet cfg"] 2 unfolding disconnect_def by (simp add: set_enabled_twice)
qed

section \<open>Who can call whom\<close>

text \<open>The end that the running instance of server \<open>i\<close> uses to call server \<open>j\<close>.\<close>

definition current :: "nat \<Rightarrow> nat \<Rightarrow> 'c config \<Rightarrow> bool" where
  "current i j cfg \<longleftrightarrow> i < cfg_n cfg \<and> j < cfg_n cfg \<and> started i cfg"

definition ends_inv :: "'c config \<Rightarrow> bool" where
  "ends_inv cfg \<longleftrightarrow>
     cfg_shape cfg \<and>
     (\<forall>i j i' j'. current i j cfg \<and> current i' j' cfg \<and> row i cfg ! j = row i' cfg ! j' \<longrightarrow> i = i' \<and> j = j') \<and>
     (\<forall>i j. current i j cfg \<longrightarrow> row i cfg ! j \<in> ends (cnet cfg) \<and> connections (cnet cfg) (row i cfg ! j) = Some j) \<and>
     (\<forall>i j. current i j cfg \<longrightarrow> enabled (cnet cfg) (row i cfg ! j) = (connected cfg ! i \<and> connected cfg ! j)) \<and>
     (\<forall>e. enabled (cnet cfg) e \<longrightarrow> (\<exists>i j. current i j cfg \<and> e = row i cfg ! j)) \<and>
     (\<forall>i<cfg_n cfg. connected cfg ! i \<longrightarrow> started i cfg)"

lemma started_frame [simp]:
  "started i (cfg\<lparr>cnet := rn\<rparr>) = started i cfg" "started i (cfg\<lparr>connected := cs\<rparr>) = started i cfg"
  by (simp_all add: started_def)

lemma current_frame [simp]:
  "current i j (cfg\<lparr>cnet := rn\<rparr>) = current i j cfg" "current i j (cfg\<lparr>connected := cs\<rparr>) = current i j cfg"
  by (simp_all add: current_def)

lemma ends_inv_connect:
  assumes inv: "ends_inv cfg" and i: "i < cfg_n cfg" and all: "\<And>k. k < cfg_n cfg \<Longrightarrow> started k cfg"
    and eq: "connect i cfg = Return cfg'"
  shows "ends_inv cfg'"
proof -
  let ?cs = "(connected cfg)[i := True]"
  let ?A = "row_ends i ((!) ?cs) cfg \<union> column_ends i ((!) ?cs) cfg"
  have shape: "cfg_shape cfg" using inv by (simp add: ends_inv_def)
  have cfg': "cfg' = cfg\<lparr>connected := ?cs, cnet := set_enabled ?A True (cnet cfg)\<rparr>"
    using connect_value [OF shape i all] eq by simp
  have len: "length (connected cfg) = cfg_n cfg" using shape by (simp add: cfg_shape_def)
  have uniq: "current a b cfg \<Longrightarrow> current a' b' cfg \<Longrightarrow> row a cfg ! b = row a' cfg ! b' \<Longrightarrow> a = a' \<and> b = b'"
    for a b a' b' using inv unfolding ends_inv_def by blast
  have cur: "a < cfg_n cfg \<Longrightarrow> b < cfg_n cfg \<Longrightarrow> current a b cfg" for a b using all by (simp add: current_def)
  have inA: "row a cfg ! b \<in> ?A \<longleftrightarrow> (a = i \<and> ?cs ! b) \<or> (b = i \<and> ?cs ! a)" if "current a b cfg" for a b
  proof -
    have "a < cfg_n cfg" "b < cfg_n cfg" using that by (simp_all add: current_def)
    then show ?thesis using uniq [OF that cur] i unfolding row_ends_def column_ends_def by blast
  qed
  have "enabled (cnet cfg') (row a cfg ! b) = (?cs ! a \<and> ?cs ! b)" if "current a b cfg" for a b
  proof -
    have "enabled (cnet cfg) (row a cfg ! b) = (connected cfg ! a \<and> connected cfg ! b)"
      using inv that unfolding ends_inv_def by blast
    then show ?thesis using inA [OF that] len i by (auto simp: cfg' nth_list_update)
  qed
  moreover have "\<exists>a b. current a b cfg \<and> e = row a cfg ! b" if "enabled (cnet cfg') e" for e
  proof (cases "e \<in> ?A")
    case True
    then show ?thesis using cur i unfolding row_ends_def column_ends_def by blast
  next
    case False
    then show ?thesis using that inv by (simp add: cfg' ends_inv_def)
  qed
  moreover have "\<forall>k<cfg_n cfg. started k cfg" using all by simp
  ultimately show ?thesis
    using inv i unfolding ends_inv_def cfg' by (simp add: cfg_shape_def)
qed

lemma ends_inv_disconnect:
  assumes inv: "ends_inv cfg" and i: "i < cfg_n cfg" and eq: "disconnect i cfg = Return cfg'"
  shows "ends_inv cfg'"
proof -
  let ?cs = "(connected cfg)[i := False]"
  let ?A = "row_ends i (\<lambda>_. started i cfg) cfg \<union> column_ends i (\<lambda>j. started j cfg) cfg"
  have shape: "cfg_shape cfg" using inv by (simp add: ends_inv_def)
  have cfg': "cfg' = cfg\<lparr>connected := ?cs, cnet := set_enabled ?A False (cnet cfg)\<rparr>"
    using disconnect_value [OF shape i] eq by simp
  have len: "length (connected cfg) = cfg_n cfg" using shape by (simp add: cfg_shape_def)
  have uniq: "current a b cfg \<Longrightarrow> current a' b' cfg \<Longrightarrow> row a cfg ! b = row a' cfg ! b' \<Longrightarrow> a = a' \<and> b = b'"
    for a b a' b' using inv unfolding ends_inv_def by blast
  have inA: "row a cfg ! b \<in> ?A \<longleftrightarrow> a = i \<or> b = i" if "current a b cfg" for a b
  proof
    assume "row a cfg ! b \<in> ?A"
    then obtain a' b' where "current a' b' cfg" "row a cfg ! b = row a' cfg ! b'" "a' = i \<or> b' = i"
      using i unfolding row_ends_def column_ends_def current_def by auto
    then show "a = i \<or> b = i" using uniq [OF that] by blast
  qed (use that in \<open>auto simp: row_ends_def column_ends_def current_def\<close>)
  have "enabled (cnet cfg') (row a cfg ! b) = (?cs ! a \<and> ?cs ! b)" if "current a b cfg" for a b
  proof -
    have "enabled (cnet cfg) (row a cfg ! b) = (connected cfg ! a \<and> connected cfg ! b)"
      using inv that unfolding ends_inv_def by blast
    then show ?thesis using inA [OF that] len i by (auto simp: cfg' nth_list_update)
  qed
  moreover have "\<exists>a b. current a b cfg \<and> e = row a cfg ! b" if "enabled (cnet cfg') e" for e
    using that inv by (auto simp: cfg' ends_inv_def split: if_splits)
  moreover have "\<forall>k<cfg_n cfg. ?cs ! k \<longrightarrow> started k cfg"
    using inv len i by (auto simp: ends_inv_def nth_list_update)
  ultimately show ?thesis
    using inv unfolding ends_inv_def cfg' by (simp add: cfg_shape_def)
qed

text \<open>What the rest of crashing and starting leaves alone.\<close>

definition same_ends :: "'c config \<Rightarrow> 'c config \<Rightarrow> bool" where
  "same_ends cfg cfg' \<longleftrightarrow>
     cfg_n cfg' = cfg_n cfg \<and> connected cfg' = connected cfg \<and> endnames cfg' = endnames cfg \<and>
     length (rafts cfg') = length (rafts cfg) \<and> length (saved cfg') = length (saved cfg) \<and>
     ends (cnet cfg') = ends (cnet cfg) \<and> enabled (cnet cfg') = enabled (cnet cfg) \<and>
     connections (cnet cfg') = connections (cnet cfg)"

lemma same_ends_trans: "same_ends a b \<Longrightarrow> same_ends b c \<Longrightarrow> same_ends a c"
  by (simp add: same_ends_def)

lemma same_ends_steps:
  "same_ends cfg (copy_saved i p cfg)" "same_ends cfg (kill_raft i cfg)" "same_ends cfg (fresh_saved i p cfg)"
  "same_ends cfg (cfg\<lparr>cnet := DeleteServer i (cnet cfg)\<rparr>)" "same_ends cfg cfg"
  by (simp_all add: same_ends_def copy_saved_def kill_raft_def fresh_saved_def DeleteServer_def Let_def
      split: option.splits prod.splits)

lemma same_ends_start_peer: "same_ends cfg (start_peer i names cfg)"
  by (simp add: same_ends_def start_peer_def copy_saved_def AddServer_def Let_def split: option.splits prod.splits)

lemma ends_inv_same:
  assumes "ends_inv cfg" and same: "same_ends cfg cfg'"
  shows "ends_inv cfg'"
proof -
  have "row i cfg' = row i cfg" "started i cfg' = started i cfg" "current i j cfg' = current i j cfg" for i j
    using same by (simp_all add: same_ends_def row_def started_def current_def)
  moreover have "cfg_shape cfg' = cfg_shape cfg" using same by (simp add: same_ends_def cfg_shape_def)
  moreover have "cfg_n cfg' = cfg_n cfg" "connected cfg' = connected cfg" "ends (cnet cfg') = ends (cnet cfg)"
    "enabled (cnet cfg') = enabled (cnet cfg)" "connections (cnet cfg') = connections (cnet cfg)"
    using same by (simp_all add: same_ends_def)
  ultimately show ?thesis using assms(1) unfolding ends_inv_def by simp
qed

lemma crash1_cases:
  assumes "crash1 i cfg = Return cfg'"
  obtains cfg1 where "disconnect i cfg = Return cfg1" and "same_ends cfg1 cfg'"
proof -
  let ?copy = "\<lambda>c. case saved c ! i of None \<Rightarrow> c | Some p \<Rightarrow> copy_saved i p c"
  let ?fresh = "\<lambda>c. case saved c ! i of None \<Rightarrow> c | Some p \<Rightarrow> fresh_saved i p c"
  obtain cfg1 where d: "disconnect i cfg = Return cfg1"
    and r: "cfg' = ?fresh (kill_raft i (?copy (cfg1\<lparr>cnet := DeleteServer i (cnet cfg1)\<rparr>)))"
    using assms by (auto simp: crash1_def bind_go_Return_iff Let_def)
  have copy: "same_ends c (?copy c)" and fresh: "same_ends c (?fresh c)" for c :: "'a config"
    by (simp_all add: same_ends_steps split: option.splits)
  have "same_ends cfg1 cfg'" unfolding r
    by (rule same_ends_trans [OF same_ends_trans [OF same_ends_trans [OF same_ends_steps(4) copy] same_ends_steps(2)] fresh])
  with d that show thesis by blast
qed

lemma make_end_value:
  "make_end names j cfg = Return cfg' \<longleftrightarrow> names j \<notin> ends (cnet cfg) \<and>
     cfg' = cfg\<lparr>cnet := (cnet cfg)\<lparr>ends := insert (names j) (ends (cnet cfg)),
       enabled := (enabled (cnet cfg))(names j := False),
       connections := (connections (cnet cfg))(names j := Some j)\<rparr>\<rparr>"
  by (auto simp: make_end_def MakeEnd_def Connect_def)

lemma for_make_end:
  assumes "for_go (make_end names) js cfg = Return cfg'"
  shows "\<exists>rn. cfg' = cfg\<lparr>cnet := rn\<rparr> \<and> ends rn = ends (cnet cfg) \<union> names ` set js \<and>
    (distinct js \<longrightarrow> inj_on names (set js)) \<and> names ` set js \<inter> ends (cnet cfg) = {} \<and> servers rn = servers (cnet cfg) \<and>
    (\<forall>e. enabled rn e \<longleftrightarrow> e \<notin> names ` set js \<and> enabled (cnet cfg) e) \<and>
    (\<forall>j\<in>set js. connections rn (names j) = Some j) \<and>
    (\<forall>e. e \<notin> names ` set js \<longrightarrow> connections rn e = connections (cnet cfg) e)"
  using assms
proof (induction js arbitrary: cfg)
  case Nil
  then show ?case by (intro exI [of _ "cnet cfg"]) simp
next
  case (Cons j js)
  obtain cfg1 where 1: "make_end names j cfg = Return cfg1" and 2: "for_go (make_end names) js cfg1 = Return cfg'"
    using Cons.prems by (auto simp: bind_go_Return_iff)
  note cfg1 = 1 [unfolded make_end_value]
  obtain rn where rn: "cfg' = cfg1\<lparr>cnet := rn\<rparr>" "ends rn = ends (cnet cfg1) \<union> names ` set js"
    "distinct js \<longrightarrow> inj_on names (set js)" "names ` set js \<inter> ends (cnet cfg1) = {}" "servers rn = servers (cnet cfg1)"
    "\<forall>e. enabled rn e \<longleftrightarrow> e \<notin> names ` set js \<and> enabled (cnet cfg1) e"
    "\<forall>j\<in>set js. connections rn (names j) = Some j"
    "\<forall>e. e \<notin> names ` set js \<longrightarrow> connections rn e = connections (cnet cfg1) e"
    using Cons.IH [OF 2] by blast
  have new: "names j \<notin> names ` set js" using rn(4) cfg1 by auto
  show ?case
  proof (intro exI [of _ rn] conjI)
    show "cfg' = cfg\<lparr>cnet := rn\<rparr>" using rn(1) cfg1 by simp
    show "ends rn = ends (cnet cfg) \<union> names ` set (j # js)" using rn(2) cfg1 by auto
    show "distinct (j # js) \<longrightarrow> inj_on names (set (j # js))" using rn(3) new by auto
    show "names ` set (j # js) \<inter> ends (cnet cfg) = {}" using rn(4) cfg1 by auto
    show "servers rn = servers (cnet cfg)" using rn(5) cfg1 by simp
    show "\<forall>e. enabled rn e \<longleftrightarrow> e \<notin> names ` set (j # js) \<and> enabled (cnet cfg) e" using rn(6) cfg1 by auto
    show "\<forall>k\<in>set (j # js). connections rn (names k) = Some k" using rn(7,8) new cfg1 by auto
    show "\<forall>e. e \<notin> names ` set (j # js) \<longrightarrow> connections rn e = connections (cnet cfg) e" using rn(8) cfg1 by auto
  qed
qed

lemma ends_inv_crash1:
  assumes "ends_inv cfg" and i: "i < cfg_n cfg" and "crash1 i cfg = Return cfg'"
  shows "ends_inv cfg' \<and> cfg_n cfg' = cfg_n cfg \<and> connected cfg' = (connected cfg)[i := False] \<and>
    (\<forall>k. started k cfg' = started k cfg)"
  using assms(3)
proof (rule crash1_cases)
  fix cfg1 assume d: "disconnect i cfg = Return cfg1" and same: "same_ends cfg1 cfg'"
  have shape: "cfg_shape cfg" using assms(1) by (simp add: ends_inv_def)
  have "ends_inv cfg1" by (rule ends_inv_disconnect [OF assms(1) i d])
  moreover have "cfg_n cfg1 = cfg_n cfg" "connected cfg1 = (connected cfg)[i := False]" "endnames cfg1 = endnames cfg"
    using d disconnect_value [OF shape i] by auto
  ultimately show ?thesis
    using ends_inv_same [OF _ same] same by (simp add: same_ends_def started_def)
qed

text \<open>New ends for a disconnected server: none of the old ones of its row is enabled any more.\<close>

lemma ends_inv_new_row:
  assumes inv: "ends_inv cfg" and i: "i < cfg_n cfg" and off: "\<not> connected cfg ! i"
    and new: "for_go (make_end names) [0..<cfg_n cfg]
      (cfg\<lparr>endnames := (endnames cfg)[i := Some (map names [0..<cfg_n cfg])]\<rparr>) = Return cfg'"
  shows "ends_inv cfg' \<and> cfg_n cfg' = cfg_n cfg \<and> connected cfg' = connected cfg \<and>
    (\<forall>k<cfg_n cfg. started k cfg' \<longleftrightarrow> k = i \<or> started k cfg)"
proof -
  let ?es = "map names [0..<cfg_n cfg]"
  obtain rn where cfg': "cfg' = cfg\<lparr>endnames := (endnames cfg)[i := Some ?es], cnet := rn\<rparr>"
    and ends: "ends rn = ends (cnet cfg) \<union> names ` {0..<cfg_n cfg}" and inj: "inj_on names {0..<cfg_n cfg}"
    and fresh: "names ` {0..<cfg_n cfg} \<inter> ends (cnet cfg) = {}"
    and on: "\<And>e. enabled rn e \<longleftrightarrow> e \<notin> names ` {0..<cfg_n cfg} \<and> enabled (cnet cfg) e"
    and conn: "\<And>j. j < cfg_n cfg \<Longrightarrow> connections rn (names j) = Some j"
    and conn': "\<And>e. e \<notin> names ` {0..<cfg_n cfg} \<Longrightarrow> connections rn e = connections (cnet cfg) e"
    using for_make_end [OF new] by auto
  have shape: "cfg_shape cfg" using inv by (simp add: ends_inv_def)
  have len: "length (endnames cfg) = cfg_n cfg" using shape by (simp add: cfg_shape_def)
  have row: "row k cfg' = (if k = i then ?es else row k cfg)" and st: "started k cfg' \<longleftrightarrow> k = i \<or> started k cfg"
    if "k < cfg_n cfg" for k
    using that len by (cases "k = i"; simp add: cfg' row_def started_def)+
  have old: "row a cfg ! b \<in> ends (cnet cfg) \<and> row a cfg ! b \<notin> names ` {0..<cfg_n cfg}" if "current a b cfg" for a b
    using inv that fresh unfolding ends_inv_def by blast
  have differ: "names k \<noteq> row a cfg ! b" "row a cfg ! b \<noteq> names k" if "current a b cfg" "k < cfg_n cfg" for a b k
    using old [OF that(1)] that(2) by (metis imageI atLeastLessThan_iff le0)+
  have cur: "current a b cfg' \<longleftrightarrow> a < cfg_n cfg \<and> b < cfg_n cfg \<and> (a = i \<or> current a b cfg)" for a b
    using st [of a] by (auto simp: current_def cfg')
  have nm: "a < cfg_n cfg \<Longrightarrow> b < cfg_n cfg \<Longrightarrow> row a cfg' ! b = (if a = i then names b else row a cfg ! b)" for a b
    by (simp add: row)
  have "length es = cfg_n cfg" if "k < cfg_n cfg" "endnames cfg' ! k = Some es" for k es
    using that shape by (cases "k = i") (auto simp: cfg_shape_def cfg')
  then have 1: "cfg_shape cfg'" using shape by (simp add: cfg_shape_def cfg')
  have 2: "a = a' \<and> b = b'" if "current a b cfg'" "current a' b' cfg'" "row a cfg' ! b = row a' cfg' ! b'" for a b a' b'
  proof (cases "a = i")
    case True
    then have "a' = i" using that differ [of a' b' b] by (auto simp: cur nm split: if_splits)
    then show ?thesis using True that inj by (auto simp: cur nm inj_on_def)
  next
    case False
    then have "a' \<noteq> i" using that differ [of a b b'] by (auto simp: cur nm split: if_splits)
    then show ?thesis using False that inv unfolding ends_inv_def by (auto simp: cur nm)
  qed
  have 3: "row a cfg' ! b \<in> ends rn \<and> connections rn (row a cfg' ! b) = Some b \<and>
      enabled rn (row a cfg' ! b) = (connected cfg ! a \<and> connected cfg ! b)" if "current a b cfg'" for a b
  proof (cases "a = i")
    case True
    then show ?thesis using that ends conn on off by (auto simp: cur nm)
  next
    case False
    then have c: "current a b cfg" and n: "row a cfg' ! b = row a cfg ! b" using that by (auto simp: cur nm)
    have "connections (cnet cfg) (row a cfg ! b) = Some b"
      "enabled (cnet cfg) (row a cfg ! b) = (connected cfg ! a \<and> connected cfg ! b)"
      using inv c unfolding ends_inv_def by blast+
    then show ?thesis using old [OF c] by (simp add: n ends on conn')
  qed
  have 4: "\<exists>a b. current a b cfg' \<and> e = row a cfg' ! b" if "enabled rn e" for e
  proof -
    have en: "enabled (cnet cfg) e" using that on by simp
    then obtain a b where ab: "current a b cfg" "e = row a cfg ! b"
      using inv unfolding ends_inv_def by blast
    then have "connected cfg ! a" using inv en unfolding ends_inv_def by blast
    then have "a \<noteq> i" using off by auto
    moreover have "a < cfg_n cfg" "b < cfg_n cfg" using ab(1) by (simp_all add: current_def)
    ultimately have "current a b cfg'" "e = row a cfg' ! b" using ab nm [of a b] cur [of a b] by simp_all
    then show ?thesis by blast
  qed
  have same: "cnet cfg' = rn" "connected cfg' = connected cfg" "cfg_n cfg' = cfg_n cfg" by (simp_all add: cfg')
  have 5: "\<forall>k<cfg_n cfg. connected cfg ! k \<longrightarrow> started k cfg'" using inv st by (simp add: ends_inv_def)
  have "ends_inv cfg'" unfolding ends_inv_def same
    by (intro conjI allI impI; (elim conjE)?) (use 1 2 3 4 5 in \<open>blast+\<close>)
  then show ?thesis using st same by simp
qed

lemma ends_inv_start1:
  assumes "ends_inv cfg" and i: "i < cfg_n cfg" and "start1 i names cfg = Return cfg'"
  shows "ends_inv cfg' \<and> cfg_n cfg' = cfg_n cfg \<and> connected cfg' = (connected cfg)[i := False] \<and>
    (\<forall>k<cfg_n cfg. started k cfg' \<longleftrightarrow> k = i \<or> started k cfg)"
proof -
  obtain cfg1 cfg2 where 1: "crash1 i cfg = Return cfg1"
    and 2: "for_go (make_end names) [0..<cfg_n cfg1]
      (cfg1\<lparr>endnames := (endnames cfg1)[i := Some (map names [0..<cfg_n cfg1])]\<rparr>) = Return cfg2"
    and 3: "cfg' = start_peer i names cfg2"
    using assms(3) by (auto simp: start1_def bind_go_Return_iff)
  note c = ends_inv_crash1 [OF assms(1) i 1]
  have "length (connected cfg) = cfg_n cfg" using assms(1) by (simp add: ends_inv_def cfg_shape_def)
  then have "i < cfg_n cfg1" "\<not> connected cfg1 ! i" using c i by auto
  note r = ends_inv_new_row [OF conjunct1 [OF c] this 2]
  have "same_ends cfg2 cfg'" by (simp add: 3 same_ends_start_peer)
  then show ?thesis using r c ends_inv_same [of cfg2 cfg'] by (simp add: same_ends_def started_def)
qed

end
