(* ===== verification/RaftPersisted.thy ===== *)
theory RaftPersisted
  imports RaftConfig RaftEnds
begin

text \<open>
  The storage side of the tester's cluster (lab3/raft/config.go): the shuffling of persisters at a crash
  and a start keeps what every server has persisted, and gives every instance a persister that no other
  one holds.
\<close>

section \<open>What the servers have persisted\<close>

text \<open>Addresses of persisters are allocated; a store grows without touching what it had.\<close>

definition store_ok :: "store \<Rightarrow> bool" where
  "store_ok s \<longleftrightarrow> (\<forall>p\<in>set (persisters s). \<forall>a. raftstate p = Some a \<or> snapshot p = Some a \<longrightarrow> a < next_addr s)"

definition extends :: "store \<Rightarrow> store \<Rightarrow> bool" where
  "extends s s' \<longleftrightarrow>
     next_addr s \<le> next_addr s' \<and> (\<forall>a<next_addr s. heap s' a = heap s a) \<and>
     length (persisters s) \<le> length (persisters s') \<and>
     (\<forall>k<length (persisters s). persisters s' ! k = persisters s ! k)"

definition held :: "nat \<Rightarrow> store \<Rightarrow> bytes \<times> bytes" where
  "held q s = contents_of s (persisters s ! q)"

lemma extends_refl: "extends s s"
  by (simp add: extends_def)

lemma extends_trans: "extends s t \<Longrightarrow> extends t u \<Longrightarrow> extends s u"
  by (simp add: extends_def)

lemma extends_bytes: "extends s s' \<Longrightarrow> (\<And>a. x = Some a \<Longrightarrow> a < next_addr s) \<Longrightarrow> bytes_of s' x = bytes_of s x"
  by (auto simp: extends_def bytes_of_def split: option.splits)

lemma extends_held:
  assumes "store_ok s" and "extends s s'" and k: "k < length (persisters s)"
  shows "held k s' = held k s"
proof -
  have "persisters s ! k \<in> set (persisters s)" and same: "persisters s' ! k = persisters s ! k"
    using k assms(2) by (simp_all add: extends_def)
  then show ?thesis
    using assms(1) by (simp add: held_def contents_of_def same extends_bytes [OF assms(2)] store_ok_def)
qed

lemma clone_extends: "extends s (snd (clone x s))"
  by (simp add: extends_def clone_def alloc_def)

lemma store_ok_clone: "store_ok s \<Longrightarrow> store_ok (snd (clone x s))"
  by (auto simp: store_ok_def clone_def alloc_def less_SucI)

lemma extends_append: "extends s (s\<lparr>persisters := persisters s @ ps\<rparr>)"
  by (simp add: extends_def nth_append)

lemma install_extends:
  "length (persisters s) \<le> q \<Longrightarrow> extends s t \<Longrightarrow> extends s (install bs q f t)"
  by (auto simp: extends_def)

lemma store_ok_install:
  assumes "store_ok s" and "\<And>x p. raftstate (f x p) \<in> {raftstate p, x} \<and> snapshot (f x p) \<in> {snapshot p, x}"
  shows "store_ok (install bs q f s)"
proof (cases "q < length (persisters s)")
  case True
  have "a < next_addr s + 1" if "p \<in> set (persisters (install bs q f s))" "raftstate p = Some a \<or> snapshot p = Some a" for p a
  proof (cases "p \<in> set (persisters s)")
    case False
    then have p: "p = f (Some (next_addr s)) (persisters s ! q)"
      using that(1) set_update_subset_insert [of "persisters s" q] by auto
    have "raftstate p \<in> {raftstate (persisters s ! q), Some (next_addr s)}"
      "snapshot p \<in> {snapshot (persisters s ! q), Some (next_addr s)}"
      using assms(2) [of "Some (next_addr s)" "persisters s ! q"] p by simp_all
    moreover have "raftstate (persisters s ! q) = Some a \<or> snapshot (persisters s ! q) = Some a \<Longrightarrow> a < next_addr s"
      using assms(1) nth_mem [OF True] unfolding store_ok_def by blast
    ultimately show ?thesis using that(2) by auto
  qed (use assms(1) that(2) in \<open>fastforce simp: store_ok_def\<close>)
  then show ?thesis by (simp add: store_ok_def)
next
  case False
  then have "persisters (install bs q f s) = persisters s" by (simp add: list_update_beyond)
  then show ?thesis using assms(1) by (simp add: store_ok_def) (meson less_SucI)
qed

lemma store_ok_append: "store_ok s \<Longrightarrow> store_ok (s\<lparr>persisters := persisters s @ [MakePersister]\<rparr>)"
  by (auto simp: store_ok_def MakePersister_def)

lemma fresh_saved_value:
  assumes ok: "store_ok (store cfg)" and p: "p < length (persisters (store cfg))"
  defines "q \<equiv> length (persisters (store cfg))"
  shows "saved (fresh_saved i p cfg) = (saved cfg)[i := Some q] \<and> extends (store cfg) (store (fresh_saved i p cfg)) \<and>
    store_ok (store (fresh_saved i p cfg)) \<and> length (persisters (store (fresh_saved i p cfg))) = q + 1 \<and>
    held q (store (fresh_saved i p cfg)) = held p (store cfg) \<and>
    rafts (fresh_saved i p cfg) = rafts cfg \<and> peers_made (fresh_saved i p cfg) = peers_made cfg"
proof -
  let ?s = "store cfg" and ?P = "persisters (store cfg) ! p"
  obtain x s1 where c1: "ReadRaftState p ?s = (x, s1)" by (rule prod.exhaust)
  obtain y s2 where c2: "ReadSnapshot p s1 = (y, s2)" by (rule prod.exhaust)
  let ?s3 = "s2\<lparr>persisters := persisters s2 @ [MakePersister]\<rparr>"
  let ?t1 = "install (bytes_of ?s3 x) q (\<lambda>y p. p\<lparr>raftstate := y\<rparr>) ?s3"
  let ?t = "install (bytes_of ?t1 y) q (\<lambda>y p. p\<lparr>snapshot := y\<rparr>) ?t1"
  have e1: "extends ?s s1" and o1: "store_ok s1"
    using clone_extends [of ?s] store_ok_clone [OF ok] c1 unfolding ReadRaftState_def by (metis snd_conv)+
  have e2: "extends s1 s2" and o2: "store_ok s2"
    using clone_extends [of s1] store_ok_clone [OF o1] c2 unfolding ReadSnapshot_def by (metis snd_conv)+
  have P1: "persisters s1 = persisters ?s" and P2: "persisters s2 = persisters ?s"
    using c1 c2 by (auto simp: ReadRaftState_def ReadSnapshot_def clone_def alloc_def)
  have fresh: "fresh_saved i p cfg = cfg\<lparr>saved := (saved cfg)[i := Some q], store := ?t\<rparr>"
    by (simp add: fresh_saved_def c1 c2 Let_def SaveStateAndSnapshot_install q_def P2)
  have e3: "extends ?s ?s3" using extends_trans [OF extends_trans [OF e1 e2] extends_append] .
  have "extends ?s ?t" by (intro install_extends e3) (simp_all add: q_def)
  moreover have "store_ok ?t" by (intro store_ok_install store_ok_append o2) auto
  moreover have "length (persisters ?t) = q + 1" by (simp add: P2 q_def)
  moreover have "held q ?t = held p ?s"
  proof -
    have Pin: "?P \<in> set (persisters ?s)" using p by simp
    have bx: "bytes_of s1 x = bytes_of ?s (raftstate ?P)" and x: "x = Some (next_addr ?s)"
      and n1: "next_addr s1 = next_addr ?s + 1"
      using c1 by (auto simp: ReadRaftState_def clone_def alloc_def bytes_of_def)
    have by1: "bytes_of s2 y = bytes_of s1 (snapshot ?P)" and y: "y = Some (next_addr s1)"
      and n2: "next_addr s2 = next_addr s1 + 1"
      using c2 by (auto simp: ReadSnapshot_def clone_def alloc_def bytes_of_def P1)
    have "bytes_of s1 (snapshot ?P) = bytes_of ?s (snapshot ?P)"
      by (rule extends_bytes [OF e1]) (use ok Pin in \<open>auto simp: store_ok_def\<close>)
    moreover have "bytes_of s2 x = bytes_of s1 x" by (rule extends_bytes [OF e2]) (simp add: x n1)
    ultimately show ?thesis
      by (simp add: held_def contents_of_def bytes_of_install P2 q_def bx [unfolded x] by1 [unfolded y n1, simplified] x y n1 n2)
  qed
  ultimately show ?thesis by (simp add: fresh)
qed

lemma copy_saved_value:
  assumes ok: "store_ok (store cfg)" and p: "p < length (persisters (store cfg))"
  defines "q \<equiv> length (persisters (store cfg))"
  shows "saved (copy_saved i p cfg) = (saved cfg)[i := Some q] \<and> extends (store cfg) (store (copy_saved i p cfg)) \<and>
    store_ok (store (copy_saved i p cfg)) \<and> length (persisters (store (copy_saved i p cfg))) = q + 1 \<and>
    held q (store (copy_saved i p cfg)) = held p (store cfg) \<and>
    rafts (copy_saved i p cfg) = rafts cfg \<and> peers_made (copy_saved i p cfg) = peers_made cfg"
proof -
  have "persisters (Copy p s) = persisters s @ [persisters s ! p]" "heap (Copy p s) = heap s"
    "next_addr (Copy p s) = next_addr s" "contents_of (Copy p s) = contents_of s" for s
    by (simp_all add: Copy_def MakePersister_def Let_def fun_eq_iff)
  then show ?thesis
    using ok p by (auto simp: copy_saved_def q_def extends_def nth_append store_ok_def held_def)
qed

text \<open>The persister each peer ever made was given, and what the tester would hand to the next one.\<close>

definition owner :: "'c config \<Rightarrow> nat list" where
  "owner cfg = map persister (peers_made cfg)"

definition saved_bytes :: "nat \<Rightarrow> 'c config \<Rightarrow> (bytes \<times> bytes) option" where
  "saved_bytes i cfg = map_option (\<lambda>q. held q (store cfg)) (saved cfg ! i)"

definition inst_inv :: "'c config \<Rightarrow> bool" where
  "inst_inv cfg \<longleftrightarrow>
     length (rafts cfg) = cfg_n cfg \<and> length (saved cfg) = cfg_n cfg \<and> store_ok (store cfg) \<and>
     (\<forall>i<cfg_n cfg. \<forall>q. saved cfg ! i = Some q \<longrightarrow> q < length (persisters (store cfg))) \<and>
     (\<forall>i<cfg_n cfg. \<forall>j<cfg_n cfg. \<forall>q. saved cfg ! i = Some q \<and> saved cfg ! j = Some q \<longrightarrow> i = j) \<and>
     (\<forall>r<length (owner cfg). owner cfg ! r < length (persisters (store cfg))) \<and>
     (\<forall>i<cfg_n cfg. \<forall>r. rafts cfg ! i = Some r \<longrightarrow> r < length (owner cfg) \<and> saved cfg ! i = Some (owner cfg ! r)) \<and>
     (\<forall>r<length (owner cfg). \<forall>i<cfg_n cfg. saved cfg ! i = Some (owner cfg ! r) \<longrightarrow> rafts cfg ! i = Some r)"

lemma inst_invD:
  assumes "inst_inv cfg"
  shows "length (rafts cfg) = cfg_n cfg" "length (saved cfg) = cfg_n cfg" "store_ok (store cfg)"
    "i < cfg_n cfg \<Longrightarrow> saved cfg ! i = Some q \<Longrightarrow> q < length (persisters (store cfg))"
    "i < cfg_n cfg \<Longrightarrow> j < cfg_n cfg \<Longrightarrow> saved cfg ! i = Some q \<Longrightarrow> saved cfg ! j = Some q \<Longrightarrow> i = j"
    "r < length (owner cfg) \<Longrightarrow> owner cfg ! r < length (persisters (store cfg))"
    "i < cfg_n cfg \<Longrightarrow> rafts cfg ! i = Some r \<Longrightarrow> r < length (owner cfg) \<and> saved cfg ! i = Some (owner cfg ! r)"
    "r < length (owner cfg) \<Longrightarrow> i < cfg_n cfg \<Longrightarrow> saved cfg ! i = Some (owner cfg ! r) \<Longrightarrow> rafts cfg ! i = Some r"
  using assms unfolding inst_inv_def by blast+

lemma inst_invI:
  assumes "length (rafts cfg) = cfg_n cfg" "length (saved cfg) = cfg_n cfg" "store_ok (store cfg)"
    and "\<And>i q. i < cfg_n cfg \<Longrightarrow> saved cfg ! i = Some q \<Longrightarrow> q < length (persisters (store cfg))"
    and "\<And>i j q. i < cfg_n cfg \<Longrightarrow> j < cfg_n cfg \<Longrightarrow> saved cfg ! i = Some q \<Longrightarrow> saved cfg ! j = Some q \<Longrightarrow> i = j"
    and "\<And>r. r < length (owner cfg) \<Longrightarrow> owner cfg ! r < length (persisters (store cfg))"
    and "\<And>i r. i < cfg_n cfg \<Longrightarrow> rafts cfg ! i = Some r \<Longrightarrow> r < length (owner cfg) \<and> saved cfg ! i = Some (owner cfg ! r)"
    and "\<And>i r. r < length (owner cfg) \<Longrightarrow> i < cfg_n cfg \<Longrightarrow> saved cfg ! i = Some (owner cfg ! r) \<Longrightarrow> rafts cfg ! i = Some r"
  shows "inst_inv cfg"
  using assms unfolding inst_inv_def by blast

lemma saved_bytes_keep:
  assumes inv: "inst_inv cfg" and "k < cfg_n cfg" and "extends (store cfg) (store cfg')" and "saved cfg' ! k = saved cfg ! k"
  shows "saved_bytes k cfg' = saved_bytes k cfg"
proof (cases "saved cfg ! k")
  case (Some q)
  have "store_ok (store cfg)" "q < length (persisters (store cfg))"
    using inst_invD(3,4) [OF inv] assms(2) Some by blast+
  then show ?thesis using Some assms(3,4) by (simp add: saved_bytes_def extends_held)
qed (use assms(4) in \<open>simp add: saved_bytes_def\<close>)

text \<open>A server gets a fresh persister, and with it no instance or a new one.\<close>

lemma inst_inv_replace:
  assumes inv: "inst_inv cfg" and i: "i < cfg_n cfg"
    and saved: "saved cfg' = (saved cfg)[i := Some q]"
    and q: "length (persisters (store cfg)) \<le> q" "q < length (persisters (store cfg'))"
    and ext: "extends (store cfg) (store cfg')" and ok: "store_ok (store cfg')" and n: "cfg_n cfg' = cfg_n cfg"
    and rafts: "rafts cfg' = (rafts cfg)[i := ro]" and owner: "owner cfg' = owner cfg @ xs"
    and ro: "ro = None \<and> xs = [] \<or> ro = Some (length (owner cfg)) \<and> xs = [q]"
  shows "inst_inv cfg' \<and> saved_bytes i cfg' = Some (held q (store cfg')) \<and>
    (\<forall>k<cfg_n cfg. k \<noteq> i \<longrightarrow> saved_bytes k cfg' = saved_bytes k cfg)"
proof -
  let ?L = "length (persisters (store cfg))"
  note len = inst_invD(1,2) [OF inv] and old = inst_invD(4) [OF inv] and own = inst_invD(6) [OF inv]
  have L: "?L \<le> length (persisters (store cfg'))" using ext by (simp add: extends_def)
  have sv: "k < cfg_n cfg \<Longrightarrow> saved cfg' ! k = (if k = i then Some q else saved cfg ! k)" for k
    using len by (simp add: saved)
  have rf: "k < cfg_n cfg \<Longrightarrow> rafts cfg' ! k = (if k = i then ro else rafts cfg ! k)" for k
    using len by (simp add: rafts)
  have ow: "r < length (owner cfg') \<Longrightarrow> owner cfg' ! r = (if r < length (owner cfg) then owner cfg ! r else q) \<and>
      (\<not> r < length (owner cfg) \<longrightarrow> ro = Some r)" for r
    using ro by (auto simp: owner nth_append)
  have 1: "p < length (persisters (store cfg'))" if "k < cfg_n cfg" "saved cfg' ! k = Some p" for k p
    using that old [of k p] q L by (auto simp: sv split: if_splits)
  have 2: "k = j" if "k < cfg_n cfg" "j < cfg_n cfg" "saved cfg' ! k = Some p" "saved cfg' ! j = Some p" for k j p
    using that old [of k p] old [of j p] q inst_invD(5) [OF inv, of k j p] by (auto simp: sv split: if_splits)
  have 3: "owner cfg' ! r < length (persisters (store cfg'))" if "r < length (owner cfg')" for r
    using ow [OF that] own [of r] q L by auto
  have 4: "r < length (owner cfg') \<and> saved cfg' ! k = Some (owner cfg' ! r)"
    if "k < cfg_n cfg" "rafts cfg' ! k = Some r" for k r
  proof (cases "k = i")
    case True
    then show ?thesis using that ro by (auto simp: sv rf owner)
  next
    case False
    then have "r < length (owner cfg) \<and> saved cfg ! k = Some (owner cfg ! r)"
      using that inst_invD(7) [OF inv, of k r] by (simp add: rf)
    then show ?thesis using False that(1) by (simp add: sv owner nth_append)
  qed
  have 5: "rafts cfg' ! k = Some r"
    if "r < length (owner cfg')" "k < cfg_n cfg" "saved cfg' ! k = Some (owner cfg' ! r)" for k r
  proof (cases "r < length (owner cfg)")
    case True
    then have "k \<noteq> i" using that own [of r] q ow [of r] by (auto simp: sv)
    then show ?thesis using True that ow [of r] inst_invD(8) [OF inv, of r k] by (simp add: sv rf)
  next
    case False
    then have "k = i" using that old [of k q] q ow [of r] by (auto simp: sv split: if_splits)
    then show ?thesis using False that ow [of r] by (simp add: rf)
  qed
  have lens: "length (rafts cfg') = cfg_n cfg" "length (saved cfg') = cfg_n cfg" using len by (simp_all add: rafts saved)
  have "inst_inv cfg'" by (rule inst_invI; (unfold n)?) (fact lens ok 1 2 3 4 5)+
  moreover have "saved_bytes k cfg' = saved_bytes k cfg" if "k < cfg_n cfg" "k \<noteq> i" for k
    by (rule saved_bytes_keep [OF inv that(1) ext]) (use that in \<open>simp add: sv\<close>)
  ultimately show ?thesis using sv [OF i] by (simp add: saved_bytes_def)
qed

text \<open>Operations that leave all of it alone.\<close>

definition same_instances :: "'c config \<Rightarrow> 'c config \<Rightarrow> bool" where
  "same_instances cfg cfg' \<longleftrightarrow>
     cfg_n cfg' = cfg_n cfg \<and> rafts cfg' = rafts cfg \<and> saved cfg' = saved cfg \<and> store cfg' = store cfg \<and>
     owner cfg' = owner cfg"

lemma inst_inv_store:
  assumes "inst_inv cfg" and "store_ok (store cfg')"
    and eq: "cfg_n cfg' = cfg_n cfg" "rafts cfg' = rafts cfg" "saved cfg' = saved cfg" "owner cfg' = owner cfg"
      "length (persisters (store cfg')) = length (persisters (store cfg))"
  shows "inst_inv cfg'"
  using assms(1,2) unfolding inst_inv_def eq by - (elim conjE, (intro conjI; assumption))

lemma inst_inv_same:
  assumes "inst_inv cfg" and "same_instances cfg cfg'"
  shows "inst_inv cfg'"
proof -
  have eq: "cfg_n cfg' = cfg_n cfg" "rafts cfg' = rafts cfg" "saved cfg' = saved cfg" "store cfg' = store cfg"
    "owner cfg' = owner cfg"
    using assms(2) by (simp_all add: same_instances_def)
  show ?thesis using assms(1) unfolding inst_inv_def eq .
qed

lemma saved_bytes_same: "same_instances cfg cfg' \<Longrightarrow> saved_bytes k cfg' = saved_bytes k cfg"
  by (simp add: saved_bytes_def same_instances_def)

lemma same_instances_net [simp]:
  "same_instances cfg (cfg\<lparr>cnet := rn\<rparr>)" "same_instances cfg (cfg\<lparr>connected := cs, cnet := rn\<rparr>)"
  "same_instances cfg (cfg\<lparr>endnames := es, cnet := rn\<rparr>)"
  by (simp_all add: same_instances_def owner_def)

lemma persister_kill: "map persister (rfs[r := Kill (rfs ! r)]) = map persister rfs"
proof (cases "r < length rfs")
  case True
  then have "map persister (rfs[r := Kill (rfs ! r)]) = (map persister rfs)[r := map persister rfs ! r]"
    by (simp add: map_update Kill_def)
  then show ?thesis by simp
qed (simp add: list_update_beyond)

lemma owner_kill [simp]: "owner (kill_raft i cfg) = owner cfg"
  by (simp add: owner_def kill_raft_def persister_kill split: option.splits)

lemma kill_raft_simps [simp]:
  "saved (kill_raft i cfg) = saved cfg" "store (kill_raft i cfg) = store cfg" "cfg_n (kill_raft i cfg) = cfg_n cfg"
  "rafts (kill_raft i cfg) = (rafts cfg)[i := None]"
  by (auto simp: kill_raft_def list_update_id split: option.splits) (metis list_update_id)

lemma disconnect_instances:
  "cfg_shape cfg \<Longrightarrow> i < cfg_n cfg \<Longrightarrow> disconnect i cfg = Return cfg' \<Longrightarrow> same_instances cfg cfg'"
  using disconnect_value by fastforce

lemma owner_simps [simp]:
  "owner (copy_saved i p cfg) = owner cfg" "owner (fresh_saved i p cfg) = owner cfg" "owner (cfg\<lparr>cnet := rn\<rparr>) = owner cfg"
  by (simp_all add: owner_def copy_saved_def fresh_saved_def Let_def split: prod.splits)

lemma crash1_instances:
  assumes shape: "cfg_shape cfg" and inv: "inst_inv cfg" and i: "i < cfg_n cfg" and "crash1 i cfg = Return cfg'"
  shows "inst_inv cfg' \<and> cfg_n cfg' = cfg_n cfg \<and> rafts cfg' = (rafts cfg)[i := None] \<and> owner cfg' = owner cfg \<and>
    (\<forall>k<cfg_n cfg. saved_bytes k cfg' = saved_bytes k cfg)"
proof -
  obtain cfg0 where d: "disconnect i cfg = Return cfg0" using assms(4) by (auto simp: crash1_def bind_go_Return_iff)
  let ?c = "cfg0\<lparr>cnet := DeleteServer i (cnet cfg0)\<rparr>"
  have same: "same_instances cfg ?c"
    using disconnect_instances [OF shape i d] by (simp add: same_instances_def)
  then have c: "inst_inv ?c" "cfg_n ?c = cfg_n cfg" "saved ?c = saved cfg" "rafts ?c = rafts cfg" "owner ?c = owner cfg"
    using inst_inv_same [OF inv] by (simp_all add: same_instances_def)
  have bytes: "saved_bytes k ?c = saved_bytes k cfg" for k by (rule saved_bytes_same [OF same])
  show ?thesis
  proof (cases "saved cfg ! i")
    case None
    then have "cfg' = kill_raft i ?c" using assms(4) d c(3) by (simp add: crash1_def Let_def)
    moreover have "rafts cfg ! i = None"
    proof (cases "rafts cfg ! i")
      case (Some r)
      then show ?thesis using inst_invD(7) [OF inv i Some] None by simp
    qed
    then have "(rafts cfg)[i := None] = rafts cfg" by (metis list_update_id)
    ultimately have "same_instances ?c cfg'" "rafts cfg' = (rafts cfg)[i := None]"
      using c by (simp_all add: same_instances_def)
    then show ?thesis
      using inst_inv_same [OF c(1)] saved_bytes_same [of ?c cfg'] bytes c by (simp add: same_instances_def)
  next
    case (Some p)
    let ?d = "copy_saved i p ?c" and ?q = "length (persisters (store ?c))"
    let ?e = "kill_raft i ?d"
    have ok: "store_ok (store ?c)" and p: "p < ?q"
      using inst_invD(3) [OF c(1)] inst_invD(4) [OF c(1), of i p] i c(2,3) Some by simp_all
    note copy = copy_saved_value [OF ok p, of i]
    have len: "length (saved cfg) = cfg_n cfg" by (rule inst_invD(2) [OF inv])
    have sv: "saved ?e = (saved cfg)[i := Some ?q]" using copy c(3) by simp
    then have svi: "saved ?e ! i = Some ?q" using i len by simp
    have cfg': "cfg' = fresh_saved i ?q ?e"
      using assms(4) d Some c(3) svi by (simp add: crash1_def Let_def)
    have oke: "store_ok (store ?e)" and qe: "?q < length (persisters (store ?e))" using copy by simp_all
    note fresh = fresh_saved_value [OF oke qe, of i]
    let ?q2 = "length (persisters (store ?e))"
    have ext: "extends (store ?c) (store cfg')" 
      by (rule extends_trans [of _ "store ?d"]) (use copy fresh in \<open>simp_all add: cfg'\<close>)
    have rep: "inst_inv cfg' \<and> saved_bytes i cfg' = Some (held ?q2 (store cfg')) \<and>
      (\<forall>k<cfg_n ?c. k \<noteq> i \<longrightarrow> saved_bytes k cfg' = saved_bytes k ?c)"
    proof (rule inst_inv_replace [OF c(1)])
      show "i < cfg_n ?c" using i c(2) by simp
      show "saved cfg' = (saved ?c)[i := Some ?q2]" using fresh sv c(3) by (simp add: cfg')
      show "?q \<le> ?q2" "?q2 < length (persisters (store cfg'))" using fresh qe cfg' by simp_all
      show "store_ok (store cfg')" "rafts cfg' = (rafts ?c)[i := None]" "owner cfg' = owner ?c @ []"
        using fresh copy by (simp_all add: cfg')
      show "cfg_n cfg' = cfg_n ?c" by (simp add: cfg' fresh_saved_def copy_saved_def Let_def split: prod.splits)
    qed (use ext in simp_all)
    have "held ?q2 (store cfg') = held p (store ?c)" using fresh copy by (simp add: cfg')
    then have si: "Some (held ?q2 (store cfg')) = saved_bytes i ?c" using Some c(3) by (simp add: saved_bytes_def)
    have "saved_bytes k cfg' = saved_bytes k cfg" if "k < cfg_n cfg" for k
    proof (cases "k = i")
      case True
      show ?thesis unfolding True using conjunct1 [OF conjunct2 [OF rep]] unfolding si bytes .
    next
      case False
      then show ?thesis using rep that c(2) bytes [of k] by simp
    qed
    moreover have "cfg_n cfg' = cfg_n ?c" by (simp add: cfg' fresh_saved_def copy_saved_def Let_def split: prod.splits)
    moreover have "rafts cfg' = (rafts cfg)[i := None]" "owner cfg' = owner cfg"
      using fresh copy c by (simp_all add: cfg')
    ultimately show ?thesis using conjunct1 [OF rep] c(2) by simp
  qed
qed

text \<open>The persister a starting server gets: a copy of the saved one, or an empty one.\<close>

definition give_persister :: "nat \<Rightarrow> 'c config \<Rightarrow> 'c config" where
  "give_persister i cfg =
     (case saved cfg ! i of
        Some p \<Rightarrow> copy_saved i p cfg
      | None \<Rightarrow> cfg\<lparr>saved := (saved cfg)[i := Some (length (persisters (store cfg)))],
                   store := (store cfg)\<lparr>persisters := persisters (store cfg) @ [MakePersister]\<rparr>\<rparr>)"

definition initially :: "(bytes \<times> bytes) option \<Rightarrow> bytes \<times> bytes" where
  "initially b = (case b of None \<Rightarrow> ([], []) | Some x \<Rightarrow> x)"

lemma give_persister_value:
  assumes inv: "inst_inv cfg" and i: "i < cfg_n cfg"
  defines "q \<equiv> length (persisters (store cfg))"
  shows "saved (give_persister i cfg) = (saved cfg)[i := Some q] \<and> extends (store cfg) (store (give_persister i cfg)) \<and>
    store_ok (store (give_persister i cfg)) \<and> length (persisters (store (give_persister i cfg))) = q + 1 \<and>
    held q (store (give_persister i cfg)) = initially (saved_bytes i cfg) \<and>
    rafts (give_persister i cfg) = rafts cfg \<and> peers_made (give_persister i cfg) = peers_made cfg \<and>
    cfg_n (give_persister i cfg) = cfg_n cfg"
proof (cases "saved cfg ! i")
  case None
  have "store_ok (store cfg)" by (rule inst_invD(3) [OF inv])
  then show ?thesis
    using None by (simp add: give_persister_def q_def extends_append store_ok_append [unfolded MakePersister_def] held_def contents_of_def bytes_of_def
        MakePersister_def initially_def saved_bytes_def nth_append)
next
  case (Some p)
  have "p < length (persisters (store cfg))" by (rule inst_invD(4) [OF inv i Some])
  moreover have "cfg_n (copy_saved i p cfg) = cfg_n cfg" by (simp add: copy_saved_def)
  ultimately show ?thesis
    using Some copy_saved_value [OF inst_invD(3) [OF inv], of p i]
    by (simp add: give_persister_def q_def initially_def saved_bytes_def)
qed

lemma start_peer_give:
  "start_peer i names cfg =
     (let c = give_persister i cfg; m = Make (map names [0..<cfg_n c]) i (the (saved c ! i)) (store c)
      in c\<lparr>store := snd m, peers_made := peers_made c @ [fst m], rafts := (rafts c)[i := Some (length (peers_made c))],
           servers_made := servers_made c @ [AddService (MakeService ''Raft'' raft_methods) MakeServer],
           cnet := AddServer i (length (servers_made c)) (cnet c)\<rparr>)"
  by (simp add: start_peer_def give_persister_def Let_def split: prod.splits option.splits)

lemma start_peer_instances:
  assumes inv: "inst_inv cfg" and i: "i < cfg_n cfg"
  shows "inst_inv (start_peer i names cfg) \<and> cfg_n (start_peer i names cfg) = cfg_n cfg \<and>
    rafts (start_peer i names cfg) = (rafts cfg)[i := Some (length (peers_made cfg))] \<and>
    saved_bytes i (start_peer i names cfg) = Some (initially (saved_bytes i cfg)) \<and>
    (\<forall>k<cfg_n cfg. k \<noteq> i \<longrightarrow> saved_bytes k (start_peer i names cfg) = saved_bytes k cfg)"
proof -
  let ?c = "give_persister i cfg" and ?q = "length (persisters (store cfg))" and ?t = "start_peer i names cfg"
  note give = give_persister_value [OF inv i]
  have len: "length (saved cfg) = cfg_n cfg" by (rule inst_invD(2) [OF inv])
  have qi: "the (saved ?c ! i) = ?q" using give i len by simp
  obtain d s1 where cl: "ReadRaftState ?q (store ?c) = (d, s1)" by (rule prod.exhaust)
  have e1: "extends (store ?c) s1" and o1: "store_ok s1" and P1: "persisters s1 = persisters (store ?c)"
  proof -
    have "s1 = snd (clone (raftstate (persisters (store ?c) ! ?q)) (store ?c))" using cl by (simp add: ReadRaftState_def)
    then show "extends (store ?c) s1" "store_ok s1" "persisters s1 = persisters (store ?c)"
      using give by (simp_all add: clone_extends store_ok_clone) (simp add: clone_def alloc_def)
  qed
  have t: "saved ?t = (saved cfg)[i := Some ?q]" "store ?t = s1" "cfg_n ?t = cfg_n cfg"
    "rafts ?t = (rafts cfg)[i := Some (length (peers_made cfg))]" "owner ?t = owner cfg @ [?q]"
    using give i len by (simp_all add: start_peer_give Let_def Make_peer cl owner_def)
  have "inst_inv ?t \<and> saved_bytes i ?t = Some (held ?q (store ?t)) \<and>
      (\<forall>k<cfg_n cfg. k \<noteq> i \<longrightarrow> saved_bytes k ?t = saved_bytes k cfg)"
  proof (rule inst_inv_replace [OF inv i t(1)])
    show "?q < length (persisters (store ?t))" using give P1 by (simp add: t)
    show "extends (store cfg) (store ?t)" using give e1 extends_trans by (simp add: t) blast
    show "owner ?t = owner cfg @ [?q]" "rafts ?t = (rafts cfg)[i := Some (length (peers_made cfg))]" by (fact t)+
  qed (use o1 t in \<open>simp_all add: owner_def\<close>)
  moreover have "held ?q (store ?t) = initially (saved_bytes i cfg)"
    using give extends_held [of "store ?c" s1 ?q] e1 by (simp add: t)
  ultimately show ?thesis using t by simp
qed

lemma start1_instances:
  assumes shape: "cfg_shape cfg" and inv: "inst_inv cfg" and i: "i < cfg_n cfg" and "start1 i names cfg = Return cfg'"
  shows "inst_inv cfg' \<and> cfg_n cfg' = cfg_n cfg \<and> rafts cfg' = (rafts cfg)[i := Some (length (peers_made cfg))] \<and>
    saved_bytes i cfg' = Some (initially (saved_bytes i cfg)) \<and>
    (\<forall>k<cfg_n cfg. k \<noteq> i \<longrightarrow> saved_bytes k cfg' = saved_bytes k cfg)"
proof -
  obtain cfg1 cfg2 where 1: "crash1 i cfg = Return cfg1"
    and 2: "for_go (make_end names) [0..<cfg_n cfg1]
      (cfg1\<lparr>endnames := (endnames cfg1)[i := Some (map names [0..<cfg_n cfg1])]\<rparr>) = Return cfg2"
    and 3: "cfg' = start_peer i names cfg2"
    using assms(4) by (auto simp: start1_def bind_go_Return_iff)
  note c = crash1_instances [OF shape inv i 1]
  have same: "same_instances cfg1 cfg2" using for_make_end [OF 2] by auto
  have len: "length (peers_made cfg2) = length (peers_made cfg)"
    using same c by (metis length_map owner_def same_instances_def)
  have inv2: "inst_inv cfg2" using inst_inv_same [OF _ same] c by blast
  have n2: "cfg_n cfg2 = cfg_n cfg" "rafts cfg2 = (rafts cfg)[i := None]" using same c by (simp_all add: same_instances_def)
  have "i < cfg_n cfg2" using i n2 by simp
  note p = start_peer_instances [OF inv2 this, of names]
  have b: "saved_bytes k cfg2 = saved_bytes k cfg" if "k < cfg_n cfg" for k
    using saved_bytes_same [OF same] c that by simp
  show ?thesis using p b i n2 len by (simp add: 3)
qed

end
