(* ===== verification/RaftCluster.thy ===== *)
theory RaftCluster
  imports RaftPersisted
begin

text \<open>
  The clusters that a test can reach (lab3/raft/config.go): both invariants together over every sequence
  of operations, and what they guarantee.
\<close>

section \<open>What a test does with the cluster\<close>

text \<open>
  Besides the tester's operations, a peer may persist at any time, killed or not, in the way that
  \<open>persist\<close> of raft.go shows as its example: it makes a slice and saves it as its Raft state.
\<close>

definition raft_persists :: "nat \<Rightarrow> bytes \<Rightarrow> 'c config \<Rightarrow> 'c config" where
  "raft_persists r data cfg =
     (if r < length (peers_made cfg)
      then (case alloc data (store cfg) of
              (x, s) \<Rightarrow> cfg\<lparr>store := SaveRaftState (persister (peers_made cfg ! r)) x s\<rparr>)
      else cfg)"

datatype cfg_op =
    OpStart nat "nat \<Rightarrow> string"
  | OpCrash nat
  | OpJoin nat
  | OpLeave nat
  | OpUnreliable bool
  | OpReordering bool
  | OpPersist nat bytes

fun cfg_do :: "cfg_op \<Rightarrow> 'c config \<Rightarrow> 'c cfg_outcome" where
  "cfg_do (OpStart i names) cfg = start1 i names cfg"
| "cfg_do (OpCrash i) cfg = crash1 i cfg"
| "cfg_do (OpJoin i) cfg = connect i cfg"
| "cfg_do (OpLeave i) cfg = disconnect i cfg"
| "cfg_do (OpUnreliable b) cfg = Return (setunreliable b cfg)"
| "cfg_do (OpReordering b) cfg = Return (setlongreordering b cfg)"
| "cfg_do (OpPersist r data) cfg = Return (raft_persists r data cfg)"

definition cfg_run :: "nat \<Rightarrow> bool \<Rightarrow> (nat \<Rightarrow> nat \<Rightarrow> string) \<Rightarrow> cfg_op list \<Rightarrow> 'c cfg_outcome" where
  "cfg_run n unreliable names ops = bind_go (make_config n unreliable names) (for_go cfg_do ops)"

definition cfg_inv :: "nat \<Rightarrow> 'c config \<Rightarrow> bool" where
  "cfg_inv n cfg \<longleftrightarrow> cfg_n cfg = n \<and> ends_inv cfg \<and> inst_inv cfg \<and>
     (\<forall>k<n. started k cfg \<and> saved_bytes k cfg \<noteq> None)"

lemma held_SaveRaftState:
  fixes data :: bytes
  assumes "store_ok s" and q: "q < length (persisters s)" and k: "k < length (persisters s)"
  defines "t \<equiv> SaveRaftState q (Some (next_addr s)) (snd (alloc data s))"
  shows "held k t = (if k = q then (data, snd (held k s)) else held k s)" and "store_ok t" and
    "length (persisters t) = length (persisters s)"
proof -
  let ?s1 = "snd (alloc data s)"
  have t: "t = install data q (\<lambda>y p. p\<lparr>raftstate := y\<rparr>) ?s1"
    by (simp add: t_def SaveRaftState_install alloc_def bytes_of_def)
  have e: "extends s ?s1" and ok1: "store_ok ?s1" and P: "persisters ?s1 = persisters s"
    using assms(1) by (auto simp: extends_def store_ok_def alloc_def less_SucI)
  show "store_ok t" unfolding t by (rule store_ok_install [OF ok1]) simp
  show "length (persisters t) = length (persisters s)" by (simp add: t P)
  have in_s: "persisters s ! k \<in> set (persisters s)" using k by simp
  have n1: "next_addr ?s1 = next_addr s + 1" by (simp add: alloc_def)
  have b: "bytes_of t x = bytes_of s x" if "x = raftstate (persisters s ! k) \<or> x = snapshot (persisters s ! k)" for x
  proof -
    have "\<And>a. x = Some a \<Longrightarrow> a < next_addr s" using assms(1) in_s that unfolding store_ok_def by metis
    moreover from this have "x \<noteq> Some (next_addr ?s1)" by (auto simp: n1)
    ultimately show ?thesis using extends_bytes [OF e] by (simp add: t bytes_of_install)
  qed
  show "held k t = (if k = q then (data, snd (held k s)) else held k s)"
  proof (cases "k = q")
    case True
    have "raftstate (persisters t ! q) = Some (next_addr ?s1)" "snapshot (persisters t ! q) = snapshot (persisters s ! q)"
      using q by (simp_all add: t P)
    then show ?thesis using True b by (simp add: held_def contents_of_def) (simp add: t bytes_of_install)
  next
    case False
    then have "persisters t ! k = persisters s ! k" by (simp add: t P)
    then show ?thesis using False b by (simp add: held_def contents_of_def)
  qed
qed

lemma raft_persists_instances:
  assumes inv: "inst_inv cfg" and r: "r < length (peers_made cfg)"
  shows "inst_inv (raft_persists r data cfg) \<and>
    (\<forall>k<cfg_n cfg. saved_bytes k (raft_persists r data cfg) =
       (if rafts cfg ! k = Some r then Some (data, snd (initially (saved_bytes k cfg))) else saved_bytes k cfg))"
proof -
  let ?q = "owner cfg ! r" and ?s = "store cfg"
  let ?t = "SaveRaftState ?q (Some (next_addr ?s)) (snd (alloc data ?s))"
  have ro: "r < length (owner cfg)" "persister (peers_made cfg ! r) = ?q" using r by (simp_all add: owner_def)
  have c: "raft_persists r data cfg = cfg\<lparr>store := ?t\<rparr>" using r ro by (simp add: raft_persists_def alloc_def)
  have q: "?q < length (persisters ?s)" by (rule inst_invD(6) [OF inv ro(1)])
  note h = held_SaveRaftState [OF inst_invD(3) [OF inv] q, where data = data]
  have len: "length (persisters ?t) = length (persisters ?s)" by (rule h(3) [OF q])
  have ow: "owner (cfg\<lparr>store := ?t\<rparr>) = owner cfg" by (simp add: owner_def)
  have "inst_inv (cfg\<lparr>store := ?t\<rparr>)"
    by (rule inst_inv_store [OF inv]) (use h(2) [OF q] ow len in simp_all)
  moreover have "saved_bytes k (cfg\<lparr>store := ?t\<rparr>) =
       (if rafts cfg ! k = Some r then Some (data, snd (initially (saved_bytes k cfg))) else saved_bytes k cfg)"
    if k: "k < cfg_n cfg" for k
  proof (cases "saved cfg ! k")
    case None
    then have "rafts cfg ! k \<noteq> Some r" using inst_invD(7) [OF inv k, of r] by auto
    then show ?thesis using None by (simp add: saved_bytes_def)
  next
    case (Some p)
    have p: "p < length (persisters ?s)" by (rule inst_invD(4) [OF inv k Some])
    have "rafts cfg ! k = Some r \<longleftrightarrow> p = ?q"
      using inst_invD(7) [OF inv k, of r] inst_invD(8) [OF inv ro(1) k] Some by auto
    then show ?thesis using h(1) [OF p] Some by (simp add: saved_bytes_def initially_def)
  qed
  ultimately show ?thesis by (simp add: c)
qed

section \<open>Every cluster a test can reach\<close>

lemma returned_index:
  "disconnect i cfg = Return cfg' \<Longrightarrow> cfg_shape cfg \<Longrightarrow> i < cfg_n cfg"
  "connect i cfg = Return cfg' \<Longrightarrow> cfg_shape cfg \<Longrightarrow> i < cfg_n cfg"
  "crash1 i cfg = Return cfg' \<Longrightarrow> cfg_shape cfg \<Longrightarrow> i < cfg_n cfg"
  "start1 i names cfg = Return cfg' \<Longrightarrow> cfg_shape cfg \<Longrightarrow> i < cfg_n cfg"
  by (auto simp: disconnect_def connect_def crash1_def start1_def bind_go_Return_iff idx_set_def cfg_shape_def split: if_splits)

lemma connect_instances:
  "cfg_shape cfg \<Longrightarrow> i < cfg_n cfg \<Longrightarrow> (\<And>k. k < cfg_n cfg \<Longrightarrow> started k cfg) \<Longrightarrow> connect i cfg = Return cfg' \<Longrightarrow>
   same_instances cfg cfg' \<and> endnames cfg' = endnames cfg"
  using connect_value by fastforce

text \<open>Starting the servers of an empty configuration one after the other.\<close>

definition half_inv :: "nat \<Rightarrow> nat set \<Rightarrow> 'c config \<Rightarrow> bool" where
  "half_inv n ds cfg \<longleftrightarrow> cfg_n cfg = n \<and> ends_inv cfg \<and> inst_inv cfg \<and>
     (\<forall>k<n. started k cfg \<longleftrightarrow> k \<in> ds) \<and> (\<forall>k\<in>ds. k < n \<longrightarrow> saved_bytes k cfg \<noteq> None)"

lemma start1_half:
  assumes inv: "half_inv n ds cfg" and start: "start1 i names cfg = Return cfg'"
  shows "half_inv n (insert i ds) cfg'"
proof -
  have shape: "cfg_shape cfg" using inv by (simp add: half_inv_def ends_inv_def)
  have i: "i < cfg_n cfg" by (rule returned_index(4) [OF start shape])
  have e: "ends_inv cfg" "inst_inv cfg" "cfg_n cfg = n" using inv by (simp_all add: half_inv_def)
  note a = ends_inv_start1 [OF e(1) i start] and b = start1_instances [OF shape e(2) i start]
  have "saved_bytes k cfg' \<noteq> None" if "k \<in> insert i ds" "k < n" for k
    using that b e(3) inv by (cases "k = i") (auto simp: half_inv_def)
  then show ?thesis using a b e inv by (auto simp: half_inv_def)
qed

lemma start_all:
  "for_go (\<lambda>i. start1 i (names i)) js cfg = Return cfg' \<Longrightarrow> half_inv n ds cfg \<Longrightarrow> half_inv n (set js \<union> ds) cfg'"
proof (induction js arbitrary: cfg ds)
  case (Cons j js)
  obtain c where c: "start1 j (names j) cfg = Return c" "for_go (\<lambda>i. start1 i (names i)) js c = Return cfg'"
    using Cons.prems(1) by (auto simp: bind_go_Return_iff)
  show ?case using Cons.IH [OF c(2) start1_half [OF Cons.prems(2) c(1)]] by simp
qed simp

lemma half_inv_empty: "half_inv n {} (empty_config n unreliable :: 'c config)"
proof -
  let ?c = "empty_config n unreliable :: 'c config"
  have inst: "inst_inv ?c"
    by (rule inst_invI) (simp_all add: empty_config_def store_ok_def owner_def)
  have st: "k < n \<Longrightarrow> \<not> started k ?c" and n: "cfg_n ?c = n" for k by (simp_all add: started_def empty_config_def)
  then have "\<not> current i j ?c" for i j by (auto simp: current_def)
  moreover have "cfg_shape ?c" by (simp add: cfg_shape_def empty_config_def)
  moreover have "\<not> enabled (cnet ?c) e" for e
    by (simp add: empty_config_def MakeNetwork_def Reliable_def LongDelays_def)
  moreover have "k < n \<Longrightarrow> \<not> connected ?c ! k" for k by (simp add: empty_config_def)
  ultimately have "ends_inv ?c" unfolding ends_inv_def n by blast
  then show ?thesis using inst st n by (simp add: half_inv_def)
qed

lemma half_inv_all: "half_inv n {0..<n} cfg \<Longrightarrow> cfg_inv n cfg"
  by (simp add: half_inv_def cfg_inv_def)

lemma connect_inv:
  assumes inv: "cfg_inv n cfg" and c: "connect i cfg = Return cfg'"
  shows "cfg_inv n cfg'" and "saved_bytes k cfg' = saved_bytes k cfg"
proof -
  have shape: "cfg_shape cfg" using inv by (simp add: cfg_inv_def ends_inv_def)
  have i: "i < cfg_n cfg" by (rule returned_index(2) [OF c shape])
  have st: "k < cfg_n cfg \<Longrightarrow> started k cfg" for k using inv by (simp add: cfg_inv_def)
  have e: "ends_inv cfg" "inst_inv cfg" using inv by (simp_all add: cfg_inv_def)
  have same: "same_instances cfg cfg'" and en: "endnames cfg' = endnames cfg"
    using connect_instances [OF shape i st c] by simp_all
  show b: "saved_bytes k cfg' = saved_bytes k cfg" for k by (rule saved_bytes_same [OF same])
  show "cfg_inv n cfg'"
    using inv b ends_inv_connect [OF e(1) i st c] inst_inv_same [OF e(2) same] same en
    by (simp add: cfg_inv_def same_instances_def started_def)
qed

text \<open>The persisted state as the operations should change it: only by the running instances.\<close>

fun persists_value :: "cfg_op \<Rightarrow> nat \<Rightarrow> 'c config \<Rightarrow> (bytes \<times> bytes) option" where
  "persists_value (OpPersist r data) k cfg =
     (if rafts cfg ! k = Some r then Some (data, snd (initially (saved_bytes k cfg))) else saved_bytes k cfg)"
| "persists_value _ k cfg = saved_bytes k cfg"

lemma cfg_do_inv:
  assumes inv: "cfg_inv n cfg" and step: "cfg_do op cfg = Return cfg'"
  shows "cfg_inv n cfg' \<and> (\<forall>k<n. saved_bytes k cfg' = persists_value op k cfg)"
proof -
  have shape: "cfg_shape cfg" and e: "ends_inv cfg" "inst_inv cfg" "cfg_n cfg = n"
    using inv by (simp_all add: cfg_inv_def ends_inv_def)
  have st: "k < n \<Longrightarrow> started k cfg" and sb: "k < n \<Longrightarrow> \<exists>b. saved_bytes k cfg = Some b" for k
    using inv by (simp_all add: cfg_inv_def)
  have quiet: ?thesis if "ends_inv cfg'" "same_instances cfg cfg'" "endnames cfg' = endnames cfg"
      "\<And>k. persists_value op k cfg = saved_bytes k cfg"
    using that inv inst_inv_same [OF e(2) that(2)] saved_bytes_same [OF that(2)]
    by (simp add: cfg_inv_def same_instances_def started_def)
  show ?thesis
  proof (cases op)
    case (OpStart i names)
    have start: "start1 i names cfg = Return cfg'" using step OpStart by simp
    have i: "i < cfg_n cfg" by (rule returned_index(4) [OF start shape])
    note a = ends_inv_start1 [OF e(1) i start] and b = start1_instances [OF shape e(2) i start]
    have "saved_bytes k cfg' = saved_bytes k cfg" if "k < n" for k
      using b sb [OF that] that e(3) by (cases "k = i") (auto simp: initially_def)
    then show ?thesis using OpStart a b e(3) st sb by (auto simp: cfg_inv_def)
  next
    case (OpCrash i)
    have crash: "crash1 i cfg = Return cfg'" using step OpCrash by simp
    have i: "i < cfg_n cfg" by (rule returned_index(3) [OF crash shape])
    show ?thesis
      using ends_inv_crash1 [OF e(1) i crash] crash1_instances [OF shape e(2) i crash] OpCrash e(3) st sb
      by (auto simp: cfg_inv_def)
  next
    case (OpJoin i)
    then show ?thesis using connect_inv [OF inv] step by simp
  next
    case (OpLeave i)
    have d: "disconnect i cfg = Return cfg'" using step OpLeave by simp
    have i: "i < cfg_n cfg" by (rule returned_index(1) [OF d shape])
    have "endnames cfg' = endnames cfg" using disconnect_value [OF shape i] d by auto
    then show ?thesis
      using quiet ends_inv_disconnect [OF e(1) i d] disconnect_instances [OF shape i d] OpLeave by simp
  next
    case (OpUnreliable b)
    have "cfg' = setunreliable b cfg" using step OpUnreliable by simp
    then show ?thesis
      using quiet ends_inv_same [OF e(1), of cfg'] OpUnreliable
      by (simp add: setunreliable_def same_ends_def Reliable_def)
  next
    case (OpReordering b)
    have "cfg' = setlongreordering b cfg" using step OpReordering by simp
    then show ?thesis
      using quiet ends_inv_same [OF e(1), of cfg'] OpReordering
      by (simp add: setlongreordering_def same_ends_def LongReordering_def)
  next
    case (OpPersist r data)
    have c: "cfg' = raft_persists r data cfg" using step OpPersist by simp
    have ends: "ends_inv cfg'" "endnames cfg' = endnames cfg" "cfg_n cfg' = cfg_n cfg"
      using ends_inv_same [OF e(1), of cfg'] by (simp_all add: c raft_persists_def same_ends_def alloc_def)
    show ?thesis
    proof (cases "r < length (peers_made cfg)")
      case True
      have "persists_value op k cfg \<noteq> None" if "k < n" for k using sb [OF that] OpPersist by simp
      then show ?thesis
        using raft_persists_instances [OF e(2) True, of data] ends OpPersist e(3) st
        by (auto simp: cfg_inv_def c started_def)
    next
      case False
      then have "rafts cfg ! k \<noteq> Some r" if "k < n" for k
        using inst_invD(7) [OF e(2), of k r] that e(3) by (auto simp: owner_def)
      then show ?thesis using False OpPersist inv by (simp add: c raft_persists_def)
    qed
  qed
qed

lemma cfg_run_inv:
  assumes "cfg_run n unreliable names ops = Return cfg"
  shows "cfg_inv n cfg"
proof -
  obtain c1 c2 where 1: "for_go (\<lambda>i. start1 i (names i)) [0..<n] (empty_config n unreliable) = Return c1"
    and 2: "for_go connect [0..<n] c1 = Return c2" and 3: "for_go cfg_do ops c2 = Return cfg"
    using assms by (auto simp: cfg_run_def make_config_def bind_go_Return_iff)
  have "cfg_inv n c1" using half_inv_all start_all [OF 1 half_inv_empty] by simp
  from 2 this have "cfg_inv n c2" by (rule for_go_invariant) (rule connect_inv(1))
  from 3 this show ?thesis by (rule for_go_invariant) (use cfg_do_inv in blast)
qed

section \<open>With fresh end names nothing fails\<close>

lemma crash1_returns:
  assumes "cfg_shape cfg" and "i < cfg_n cfg"
  shows "\<exists>cfg'. crash1 i cfg = Return cfg' \<and> ends (cnet cfg') = ends (cnet cfg) \<and> cfg_n cfg' = cfg_n cfg"
proof -
  obtain cfg' where c: "crash1 i cfg = Return cfg'"
    using disconnect_value [OF assms] by (auto simp: crash1_def Let_def)
  then obtain cfg1 where d: "disconnect i cfg = Return cfg1" and same: "same_ends cfg1 cfg'" by (rule crash1_cases)
  have "ends (cnet cfg1) = ends (cnet cfg)" "cfg_n cfg1 = cfg_n cfg" using disconnect_value [OF assms] d by auto
  then show ?thesis using c same by (simp add: same_ends_def)
qed

lemma for_make_end_returns:
  "distinct js \<Longrightarrow> inj_on names (set js) \<Longrightarrow> names ` set js \<inter> ends (cnet cfg) = {} \<Longrightarrow>
   \<exists>cfg'. for_go (make_end names) js cfg = Return cfg'"
proof (induction js arbitrary: cfg)
  case (Cons j js)
  obtain c where c: "make_end names j cfg = Return c" using Cons.prems(3) by (simp add: make_end_value)
  have "ends (cnet c) = insert (names j) (ends (cnet cfg))" using c by (simp add: make_end_value)
  moreover have "names j \<notin> names ` set js" using Cons.prems(1,2) by auto
  ultimately have "names ` set js \<inter> ends (cnet c) = {}" using Cons.prems(3) by auto
  moreover have "distinct js" "inj_on names (set js)" using Cons.prems(1,2) by auto
  ultimately show ?case using Cons.IH [of c] c by simp
qed simp

lemma start1_returns:
  assumes shape: "cfg_shape cfg" and i: "i < cfg_n cfg" and inj: "inj_on names {0..<cfg_n cfg}"
    and fresh: "names ` {0..<cfg_n cfg} \<inter> ends (cnet cfg) = {}"
  shows "\<exists>cfg'. start1 i names cfg = Return cfg' \<and> ends (cnet cfg') = ends (cnet cfg) \<union> names ` {0..<cfg_n cfg}"
proof -
  obtain c1 where 1: "crash1 i cfg = Return c1" and c1: "ends (cnet c1) = ends (cnet cfg)" "cfg_n c1 = cfg_n cfg"
    using crash1_returns [OF shape i] by blast
  let ?c = "c1\<lparr>endnames := (endnames c1)[i := Some (map names [0..<cfg_n c1])]\<rparr>"
  obtain c2 where 2: "for_go (make_end names) [0..<cfg_n c1] ?c = Return c2"
    using for_make_end_returns [of "[0..<cfg_n c1]" names ?c] inj fresh c1 by auto
  have "ends (cnet c2) = ends (cnet cfg) \<union> names ` {0..<cfg_n cfg}" using for_make_end [OF 2] c1 by auto
  moreover have "ends (cnet (start_peer i names c2)) = ends (cnet c2)"
    using same_ends_start_peer [of c2 i names] by (simp add: same_ends_def)
  ultimately show ?thesis using 1 2 by (simp add: start1_def)
qed

lemma start_all_returns:
  assumes "half_inv n ds cfg" and "set js \<subseteq> {0..<n}" and "distinct js"
    and "inj_on (\<lambda>(i, j). names i j) (set js \<times> {0..<n})"
    and "(\<lambda>(i, j). names i j) ` (set js \<times> {0..<n}) \<inter> ends (cnet cfg) = {}"
  shows "\<exists>cfg'. for_go (\<lambda>i. start1 i (names i)) js cfg = Return cfg' \<and>
    ends (cnet cfg') = ends (cnet cfg) \<union> (\<lambda>(i, j). names i j) ` (set js \<times> {0..<n})"
  using assms
proof (induction js arbitrary: cfg ds)
  case (Cons i js)
  have shape: "cfg_shape cfg" and n: "cfg_n cfg = n" using Cons.prems(1) by (simp_all add: half_inv_def ends_inv_def)
  have "inj_on (names i) {0..<n}"
  proof (rule inj_onI)
    fix a b assume "a \<in> {0..<n}" "b \<in> {0..<n}" "names i a = names i b"
    then show "a = b" using inj_onD [OF Cons.prems(4), of "(i, a)" "(i, b)"] by simp
  qed
  moreover have "names i ` {0..<n} \<subseteq> (\<lambda>(i, j). names i j) ` (set (i # js) \<times> {0..<n})" by auto
  then have "names i ` {0..<n} \<inter> ends (cnet cfg) = {}" using Cons.prems(5) by blast
  ultimately obtain c where c: "start1 i (names i) cfg = Return c" "ends (cnet c) = ends (cnet cfg) \<union> names i ` {0..<n}"
    using start1_returns [OF shape, of i "names i"] Cons.prems(2) n by auto
  have half: "half_inv n (insert i ds) c" by (rule start1_half [OF Cons.prems(1) c(1)])
  have "inj_on (\<lambda>(i, j). names i j) (set js \<times> {0..<n})" using Cons.prems(4) by (rule inj_on_subset) auto
  moreover have "(\<lambda>(i, j). names i j) ` (set js \<times> {0..<n}) \<inter> ends (cnet c) = {}"
  proof -
    have "names a b \<noteq> names i j" if "a \<in> set js" "b < n" "j < n" for a b j
      using Cons.prems(3) that inj_onD [OF Cons.prems(4), of "(a, b)" "(i, j)"] by auto
    then have "(\<lambda>(i, j). names i j) ` (set js \<times> {0..<n}) \<inter> names i ` {0..<n} = {}" by fastforce
    moreover have "(\<lambda>(i, j). names i j) ` (set js \<times> {0..<n}) \<subseteq> (\<lambda>(i, j). names i j) ` (set (i # js) \<times> {0..<n})"
      by auto
    ultimately show ?thesis using Cons.prems(5) unfolding c(2) by blast
  qed
  ultimately obtain c' where "for_go (\<lambda>i. start1 i (names i)) js c = Return c'"
    "ends (cnet c') = ends (cnet c) \<union> (\<lambda>(i, j). names i j) ` (set js \<times> {0..<n})"
    using Cons.IH [OF half] Cons.prems(2,3) by auto
  then show ?case using c by auto
qed simp

lemma join_all_returns:
  "cfg_inv n cfg \<Longrightarrow> set js \<subseteq> {0..<n} \<Longrightarrow>
   \<exists>cfg'. for_go connect js cfg = Return cfg' \<and> ends (cnet cfg') = ends (cnet cfg)"
proof (induction js arbitrary: cfg)
  case (Cons i js)
  have shape: "cfg_shape cfg" and i: "i < cfg_n cfg" and st: "\<And>k. k < cfg_n cfg \<Longrightarrow> started k cfg"
    using Cons.prems by (auto simp: cfg_inv_def ends_inv_def)
  obtain c where c: "connect i cfg = Return c" "ends (cnet c) = ends (cnet cfg)"
    using connect_value [OF shape i st] by simp
  have "cfg_inv n c" by (rule connect_inv(1) [OF Cons.prems(1) c(1)])
  then show ?case using Cons.IH [of c] Cons.prems(2) c by auto
qed simp

lemma make_config_returns:
  assumes "inj_on (\<lambda>(i, j). names i j) ({0..<n} \<times> {0..<n})"
  shows "\<exists>cfg :: 'c config. make_config n unreliable names = Return cfg \<and> cfg_inv n cfg \<and>
    ends (cnet cfg) = (\<lambda>(i, j). names i j) ` ({0..<n} \<times> {0..<n})"
proof -
  have e: "ends (cnet (empty_config n unreliable :: 'c config)) = {}"
    by (simp add: empty_config_def MakeNetwork_def Reliable_def LongDelays_def)
  obtain c :: "'c config" where c: "for_go (\<lambda>i. start1 i (names i)) [0..<n] (empty_config n unreliable) = Return c"
    "ends (cnet c) = (\<lambda>(i, j). names i j) ` ({0..<n} \<times> {0..<n})"
    using start_all_returns [OF half_inv_empty [where 'c = 'c], of "[0..<n]" n names unreliable] assms e by auto
  have inv: "cfg_inv n c" using half_inv_all start_all [OF c(1) half_inv_empty] by simp
  obtain c' where c': "for_go connect [0..<n] c = Return c'" "ends (cnet c') = ends (cnet c)"
    using join_all_returns [OF inv, of "[0..<n]"] by auto
  have "cfg_inv n c'" using c'(1) inv by (rule for_go_invariant) (rule connect_inv(1))
  then show ?thesis using c c' by (simp add: make_config_def)
qed

section \<open>The guarantees of the cluster\<close>

text \<open>
  C15: who can call whom. Whatever servers a test crashes, restarts, connects and disconnects, in
  whatever order, the end by which the running instance of server \<open>i\<close> calls server \<open>j\<close> leads to \<open>j\<close> and
  is enabled exactly if both are connected; all these ends are different; and no other end of the
  network is enabled, so an instance that has been crashed or replaced cannot reach anybody.
\<close>
theorem ends_enabled_iff_connected:
  assumes "cfg_run n unreliable names ops = Return cfg" and "i < n" and "j < n"
  shows "connections (cnet cfg) (row i cfg ! j) = Some j \<and>
    enabled (cnet cfg) (row i cfg ! j) = (connected cfg ! i \<and> connected cfg ! j) \<and>
    (\<forall>i'<n. \<forall>j'<n. row i cfg ! j = row i' cfg ! j' \<longrightarrow> i = i' \<and> j = j') \<and>
    (\<forall>e. enabled (cnet cfg) e \<longrightarrow> (\<exists>i'<n. \<exists>j'<n. e = row i' cfg ! j'))"
proof -
  have inv: "cfg_inv n cfg" by (rule cfg_run_inv [OF assms(1)])
  then have e: "ends_inv cfg" and cur: "current a b cfg \<longleftrightarrow> a < n \<and> b < n" for a b
    by (auto simp: cfg_inv_def current_def)
  note e = e [unfolded ends_inv_def cur]
  show ?thesis
  proof (intro conjI)
    show "connections (cnet cfg) (row i cfg ! j) = Some j" using e assms(2,3) by blast
    show "enabled (cnet cfg) (row i cfg ! j) = (connected cfg ! i \<and> connected cfg ! j)" using e assms(2,3) by blast
    show "\<forall>i'<n. \<forall>j'<n. row i cfg ! j = row i' cfg ! j' \<longrightarrow> i = i' \<and> j = j'" using e assms(2,3) by blast
    show "\<forall>e. enabled (cnet cfg) e \<longrightarrow> (\<exists>i'<n. \<exists>j'<n. e = row i' cfg ! j')" using e by blast
  qed
qed

text \<open>
  C16: what survives a crash. In every cluster a test can reach, whatever peers persist while they run
  and after they have been killed, crashing, restarting, connecting and disconnecting servers changes
  nobody's persisted state; a peer that persists changes the Raft state of its server, and not the
  snapshot, if it is that server's running instance; and an instance that has been crashed or replaced
  changes nothing, although it still holds a persister that once was the server's.
\<close>
theorem persisted_state_survives:
  assumes "cfg_run n unreliable names ops = Return cfg" and "cfg_do op cfg = Return cfg'" and "k < n"
  shows "saved_bytes k cfg' = persists_value op k cfg \<and>
    (\<forall>i r. i < n \<and> rafts cfg ! i = Some r \<longrightarrow> saved cfg ! i = Some (persister (peers_made cfg ! r)))"
proof -
  have inv: "cfg_inv n cfg" by (rule cfg_run_inv [OF assms(1)])
  then have inst: "inst_inv cfg" and n: "cfg_n cfg = n" by (simp_all add: cfg_inv_def)
  have "saved cfg ! i = Some (persister (peers_made cfg ! r))" if "i < n" "rafts cfg ! i = Some r" for i r
  proof -
    have "i < cfg_n cfg" using that(1) n by simp
    from inst_invD(7) [OF inst this that(2)] show ?thesis by (auto simp: owner_def)
  qed
  then show ?thesis using cfg_do_inv [OF inv assms(2)] assms(3) by blast
qed

text \<open>Two servers: one is taken off the network, one crashes.\<close>

definition demo_names :: "nat \<Rightarrow> nat \<Rightarrow> string" where
  "demo_names i j = replicate (2 * i + j) CHR ''x''"

lemma demo_cluster: "\<exists>cfg :: 'c config. make_config 2 False demo_names = Return cfg \<and> cfg_inv 2 cfg"
proof -
  have "inj_on (\<lambda>(i, j). demo_names i j) ({0..<2} \<times> {0..<2})"
    by (auto simp: inj_on_def demo_names_def replicate_eq_replicate) presburger
  then show ?thesis using make_config_returns by blast
qed

theorem ends_enabled_iff_connected_witness:
  "\<exists>cfg :: nat config. cfg_run 2 False demo_names [OpPersist 0 [1, 2], OpLeave 1] = Return cfg \<and>
     \<not> enabled (cnet cfg) (row 0 cfg ! 1) \<and> connections (cnet cfg) (row 0 cfg ! 1) = Some 1"
proof -
  obtain c :: "nat config" where c: "make_config 2 False demo_names = Return c" "cfg_inv 2 c"
    using demo_cluster by blast
  let ?d = "raft_persists 0 [1, 2] c"
  have "cfg_inv 2 ?d" using cfg_do_inv [OF c(2), of "OpPersist 0 [1, 2]"] by simp
  then have shape: "cfg_shape ?d" and n: "cfg_n ?d = 2" by (simp_all add: cfg_inv_def ends_inv_def)
  obtain e where e: "disconnect 1 ?d = Return e" "connected e = (connected ?d)[1 := False]"
    using disconnect_value [OF shape, of 1] n by simp
  have run: "cfg_run 2 False demo_names [OpPersist 0 [1, 2], OpLeave 1] = Return e"
    using c e by (simp add: cfg_run_def)
  have "length (connected ?d) = 2" using shape n by (simp add: cfg_shape_def)
  then have "\<not> connected e ! 1" using e by simp
  then show ?thesis using ends_enabled_iff_connected [OF run, of 0 1] run by auto
qed

theorem persisted_state_survives_witness:
  "\<exists>(cfg :: nat config) cfg'. cfg_run 2 False demo_names [OpPersist 0 [1, 2]] = Return cfg \<and>
     cfg_do (OpCrash 0) cfg = Return cfg' \<and> saved_bytes 0 cfg' = saved_bytes 0 cfg"
proof -
  obtain c :: "nat config" where c: "make_config 2 False demo_names = Return c" "cfg_inv 2 c"
    using demo_cluster by blast
  let ?d = "raft_persists 0 [1, 2] c"
  have run: "cfg_run 2 False demo_names [OpPersist 0 [1, 2]] = Return ?d"
    using c by (simp add: cfg_run_def)
  have "cfg_inv 2 ?d" using cfg_do_inv [OF c(2), of "OpPersist 0 [1, 2]"] by simp
  then have shape: "cfg_shape ?d" and n: "cfg_n ?d = 2" by (simp_all add: cfg_inv_def ends_inv_def)
  obtain e where e: "crash1 0 ?d = Return e" using crash1_returns [OF shape, of 0] n by auto
  then have step: "cfg_do (OpCrash 0) ?d = Return e" by simp
  have "saved_bytes 0 e = saved_bytes 0 ?d" using persisted_state_survives [OF run step, of 0] by simp
  then show ?thesis using run step by blast
qed

end
