(* ===== verification/RaftCheck.thy ===== *)
theory RaftCheck
  imports RaftCluster
begin

text \<open>
  lab3/raft/config.go, what the tester checks: the logs its appliers collect, how many servers have
  committed an entry, who is leader in which term, and the agreement on a command. What the peers
  answer (\<open>GetState\<close>, \<open>Start\<close>), what the clock shows and what the appliers have collected when a loop
  looks again are arguments: one observation per turn. \<open>t.Fatalf\<close> ends the test: \<open>Fails\<close>.
\<close>

section \<open>Appliers\<close>

text \<open>
  \<open>checkLogs\<close> compares with every server's log and keeps the last mismatch: the server it is with.
\<close>

fun find_mismatch :: "(int \<rightharpoonup> 'c) list \<Rightarrow> nat \<Rightarrow> int \<Rightarrow> 'c \<Rightarrow> nat option \<Rightarrow> nat option" where
  "find_mismatch [] j idx v err = err"
| "find_mismatch (lg # lgs) j idx v err =
     find_mismatch lgs (j + 1) idx v
       (case lg idx of Some old \<Rightarrow> if old \<noteq> v then Some j else err | None \<Rightarrow> err)"

definition checkLogs :: "nat \<Rightarrow> 'c ApplyMsg \<Rightarrow> 'c config \<Rightarrow> (string, (nat option \<times> bool) \<times> 'c config) go_result" where
  "checkLogs i m cfg =
     (let v = Command m;
          err_msg = find_mismatch (logs cfg) 0 (CommandIndex m) v None
      in bind_go (idx_get (logs cfg) i) (\<lambda>lg.
         let prevok = (lg (CommandIndex m - 1) \<noteq> None);
             cfg = cfg\<lparr>logs := (logs cfg)[i := lg(CommandIndex m \<mapsto> v)]\<rparr>;
             cfg = (if CommandIndex m > maxIndex cfg then cfg\<lparr>maxIndex := CommandIndex m\<rparr> else cfg)
         in Return ((err_msg, prevok), cfg)))"

text \<open>
  One turn of an applier. \<open>log.Fatalf\<close> ends the process, so \<open>applyErr\<close> is never set. The critical section
  that writes the log and the \<open>log.Fatalf\<close> that follows it are one step here: the moment between them, in
  which the other goroutines still run beside a log that disagrees, is no state of this model, and what
  holds of every run of \<open>appliers\<close> is said of the runs that no such error has ended.
\<close>

definition applier :: "nat \<Rightarrow> 'c ApplyMsg \<Rightarrow> 'c config \<Rightarrow> 'c cfg_outcome" where
  "applier i m cfg =
     (if \<not> CommandValid m then Return cfg
      else bind_go (checkLogs i m cfg) (\<lambda>r. case r of ((err_msg, prevok), cfg) \<Rightarrow>
             if (CommandIndex m > 1 \<and> \<not> prevok) \<or> err_msg \<noteq> None then Panics LogFatal else Return cfg))"

section \<open>Committed entries\<close>

fun count_committed :: "nat list \<Rightarrow> int \<Rightarrow> 'c config \<Rightarrow> nat \<times> 'c option \<Rightarrow> (string, nat \<times> 'c option) go_result" where
  "count_committed [] index cfg acc = Return acc"
| "count_committed (i # is) index cfg (count, cmd) =
     bind_go (idx_get (applyErr cfg) i) (\<lambda>e.
       if e \<noteq> [] then Fails e
       else bind_go (idx_get (logs cfg) i) (\<lambda>lg.
         case lg index of
           Some cmd1 \<Rightarrow>
             if count > 0 \<and> cmd \<noteq> Some cmd1 then Fails ''committed values do not match''
             else count_committed is index cfg (count + 1, Some cmd1)
         | None \<Rightarrow> count_committed is index cfg (count, cmd)))"

text \<open>\<open>None\<close> is the nil interface.\<close>

definition nCommitted :: "int \<Rightarrow> 'c config \<Rightarrow> (string, nat \<times> 'c option) go_result" where
  "nCommitted index cfg = count_committed [0..<length (rafts cfg)] index cfg (0, None)"

text \<open>
  \<open>wait\<close>: in each of at most 30 turns, and once more at the end, it counts; \<open>obs\<close> gives the cluster at
  that moment and the terms that its peers then report. \<open>LaterTerm\<close> is the -1 that is returned when a
  later term has begun.
\<close>

datatype 'c waited = LaterTerm | Decided "'c option"

fun some_later_term :: "(nat \<Rightarrow> int) \<Rightarrow> nat list \<Rightarrow> int \<Rightarrow> bool" where
  "some_later_term terms [] startTerm \<longleftrightarrow> False"
| "some_later_term terms (i # is) startTerm \<longleftrightarrow>
     (if terms i > startTerm then True else some_later_term terms is startTerm)"

definition wait_end :: "'c config \<Rightarrow> int \<Rightarrow> nat \<Rightarrow> (string, 'c waited) go_result" where
  "wait_end cfg index n =
     bind_go (nCommitted index cfg) (\<lambda>(nd, cmd). if nd < n then Fails ''too few decided'' else Return (Decided cmd))"

fun wait_loop :: "nat \<Rightarrow> nat \<Rightarrow> (nat \<Rightarrow> 'c config \<times> (nat \<Rightarrow> int)) \<Rightarrow> int \<Rightarrow> nat \<Rightarrow> int \<Rightarrow>
    (string, 'c waited) go_result" where
  "wait_loop 0 k obs index n startTerm = wait_end (fst (obs k)) index n"
| "wait_loop (Suc iters) k obs index n startTerm =
     bind_go (nCommitted index (fst (obs k))) (\<lambda>(nd, _).
       if nd \<ge> n then wait_end (fst (obs (k + 1))) index n
       else if startTerm > -1 \<and> some_later_term (snd (obs k)) [0..<length (rafts (fst (obs k)))] startTerm
         then Return LaterTerm
       else wait_loop iters (k + 1) obs index n startTerm)"

definition wait :: "(nat \<Rightarrow> 'c config \<times> (nat \<Rightarrow> int)) \<Rightarrow> int \<Rightarrow> nat \<Rightarrow> int \<Rightarrow> (string, 'c waited) go_result" where
  "wait obs index n startTerm = wait_loop 30 0 obs index n startTerm"

section \<open>Leaders and terms\<close>

text \<open>\<open>map[int][]int\<close> as an association list; a range loop visits it in an order \<open>order\<close> gives.\<close>

fun add_leader :: "int \<Rightarrow> nat \<Rightarrow> (int \<times> nat list) list \<Rightarrow> (int \<times> nat list) list" where
  "add_leader t i [] = [(t, [i])]"
| "add_leader t i ((t', ls) # rest) = (if t' = t then (t', ls @ [i]) # rest else (t', ls) # add_leader t i rest)"

fun collect_leaders :: "(nat \<Rightarrow> int \<times> bool) \<Rightarrow> bool list \<Rightarrow> nat list \<Rightarrow> (int \<times> nat list) list \<Rightarrow> (int \<times> nat list) list" where
  "collect_leaders state conn [] leaders = leaders"
| "collect_leaders state conn (i # is) leaders =
     collect_leaders state conn is
       (if conn ! i then (case state i of (term, leader) \<Rightarrow> if leader then add_leader term i leaders else leaders)
        else leaders)"

fun last_term :: "(int \<times> nat list) list \<Rightarrow> int \<Rightarrow> (string, int) go_result" where
  "last_term [] sofar = Return sofar"
| "last_term ((term, ls) # rest) sofar =
     (if length ls > 1 then Fails ''more than one leader in a term''
      else last_term rest (if term > sofar then term else sofar))"

fun check_leader_loop :: "nat \<Rightarrow> nat \<Rightarrow> (nat \<Rightarrow> nat \<Rightarrow> int \<times> bool) \<Rightarrow>
    ((int \<times> nat list) list \<Rightarrow> (int \<times> nat list) list) \<Rightarrow> 'c config \<Rightarrow> (string, nat) go_result" where
  "check_leader_loop 0 k obs order cfg = Fails ''expected one leader, got none''"
| "check_leader_loop (Suc iters) k obs order cfg =
     (let leaders = collect_leaders (obs k) (connected cfg) [0..<cfg_n cfg] []
      in bind_go (last_term (order leaders) (-1)) (\<lambda>lastTermWithLeader.
           if leaders \<noteq> []
           then idx_get (case map_of leaders lastTermWithLeader of None \<Rightarrow> [] | Some ls \<Rightarrow> ls) 0
           else check_leader_loop iters (k + 1) obs order cfg))"

definition checkOneLeader :: "(nat \<Rightarrow> nat \<Rightarrow> int \<times> bool) \<Rightarrow> ((int \<times> nat list) list \<Rightarrow> (int \<times> nat list) list) \<Rightarrow>
    'c config \<Rightarrow> (string, nat) go_result" where
  "checkOneLeader obs order cfg = check_leader_loop 10 0 obs order cfg"

fun terms_agree :: "(nat \<Rightarrow> int \<times> bool) \<Rightarrow> bool list \<Rightarrow> nat list \<Rightarrow> int \<Rightarrow> (string, int) go_result" where
  "terms_agree state conn [] term = Return term"
| "terms_agree state conn (i # is) term =
     (if conn ! i
      then let xterm = fst (state i)
           in if term = -1 then terms_agree state conn is xterm
              else if term \<noteq> xterm then Fails ''servers disagree on term''
              else terms_agree state conn is term
      else terms_agree state conn is term)"

definition checkTerms :: "(nat \<Rightarrow> int \<times> bool) \<Rightarrow> 'c config \<Rightarrow> (string, int) go_result" where
  "checkTerms state cfg = terms_agree state (connected cfg) [0..<cfg_n cfg] (-1)"

fun nobody_leads :: "(nat \<Rightarrow> int \<times> bool) \<Rightarrow> bool list \<Rightarrow> nat list \<Rightarrow> (string, unit) go_result" where
  "nobody_leads state conn [] = Return ()"
| "nobody_leads state conn (i # is) =
     (if conn ! i \<and> snd (state i) then Fails ''expected no leader'' else nobody_leads state conn is)"

definition checkNoLeader :: "(nat \<Rightarrow> int \<times> bool) \<Rightarrow> 'c config \<Rightarrow> (string, unit) go_result" where
  "checkNoLeader state cfg = nobody_leads state (connected cfg) [0..<cfg_n cfg]"

section \<open>Agreement on a command\<close>

text \<open>
  One turn of the loop of \<open>one\<close>: the time since it began, in milliseconds, the cluster, what \<open>Start\<close>
  would answer at each peer, and the looks at the cluster while waiting, with the time since the wait
  began. \<open>Return None\<close> stands for a call still running when the observations end.
\<close>

record 'c one_round =
  r_now :: nat
  r_cfg :: "'c config"
  r_start :: "nat \<Rightarrow> int \<times> int \<times> bool"
  r_polls :: "(nat \<times> 'c config) list"

fun try_starts :: "nat \<Rightarrow> 'c one_round \<Rightarrow> nat \<Rightarrow> int \<times> nat" where
  "try_starts 0 r starts = (-1, starts)"
| "try_starts (Suc si) r starts =
     (let starts = (starts + 1) mod cfg_n (r_cfg r)
      in if connected (r_cfg r) ! starts \<and> rafts (r_cfg r) ! starts \<noteq> None
         then (case r_start r starts of
                 (index1, _, ok) \<Rightarrow> if ok then (index1, starts) else try_starts si r starts)
         else try_starts si r starts)"

fun poll_committed :: "(nat \<times> 'c config) list \<Rightarrow> int \<Rightarrow> 'c \<Rightarrow> nat \<Rightarrow> (string, bool option) go_result" where
  "poll_committed [] index cmd expectedServers = Return None"
| "poll_committed ((elapsed, cfg) # polls) index cmd expectedServers =
     (if elapsed < 5000
      then bind_go (nCommitted index cfg) (\<lambda>(nd, cmd1).
             if nd > 0 \<and> nd \<ge> expectedServers \<and> cmd1 = Some cmd then Return (Some True)
             else poll_committed polls index cmd expectedServers)
      else Return (Some False))"

fun one_loop :: "'c one_round list \<Rightarrow> 'c \<Rightarrow> nat \<Rightarrow> bool \<Rightarrow> nat \<Rightarrow> (string, int option) go_result" where
  "one_loop [] cmd expectedServers retry starts = Return None"
| "one_loop (r # rs) cmd expectedServers retry starts =
     (if r_now r < 25000
      then (case try_starts (cfg_n (r_cfg r)) r starts of
              (index, starts) \<Rightarrow>
                if index \<noteq> -1
                then bind_go (poll_committed (r_polls r) index cmd expectedServers) (\<lambda>agreed.
                       case agreed of
                         None \<Rightarrow> Return None
                       | Some True \<Rightarrow> Return (Some index)
                       | Some False \<Rightarrow>
                           if \<not> retry then Fails ''failed to reach agreement''
                           else one_loop rs cmd expectedServers retry starts)
                else one_loop rs cmd expectedServers retry starts)
      else Fails ''failed to reach agreement'')"

definition one :: "'c one_round list \<Rightarrow> 'c \<Rightarrow> nat \<Rightarrow> bool \<Rightarrow> (string, int option) go_result" where
  "one rounds cmd expectedServers retry = one_loop rounds cmd expectedServers retry 0"

section \<open>Statistics\<close>

definition rpcCount :: "nat \<Rightarrow> 'c config \<Rightarrow> int outcome" where
  "rpcCount server cfg = GetCount ((!) (servers_made cfg)) server (cnet cfg)"

definition rpcTotal :: "'c config \<Rightarrow> int" where
  "rpcTotal cfg = GetTotalCount (cnet cfg)"

definition bytesTotal :: "'c config \<Rightarrow> int" where
  "bytesTotal cfg = GetTotalBytes (cnet cfg)"

definition begin_test :: "'c config \<Rightarrow> 'c config" where
  "begin_test cfg = cfg\<lparr>rpcs0 := rpcTotal cfg, bytes0 := bytesTotal cfg, cmds0 := 0, maxIndex0 := maxIndex cfg\<rparr>"

text \<open>
  The time limit: \<open>failed\<close> tells whether the test has failed before, \<open>elapsed\<close> is the time since the
  cluster was made, in nanoseconds.
\<close>

definition checkTimeout :: "bool \<Rightarrow> int \<Rightarrow> (string, unit) go_result" where
  "checkTimeout failed elapsed =
     (if \<not> failed \<and> elapsed > 120 * 1000000000 then Fails ''test took longer than 120 seconds'' else Return ())"

text \<open>What \<open>end\<close> prints, of a test that has not failed: peers, RPCs, bytes and agreements.\<close>

definition end_test :: "bool \<Rightarrow> int \<Rightarrow> 'c config \<Rightarrow> (string, (nat \<times> int \<times> int \<times> int) option) go_result" where
  "end_test failed elapsed cfg =
     bind_go (checkTimeout failed elapsed) (\<lambda>_.
       Return (if \<not> failed
         then Some (cfg_n cfg, rpcTotal cfg - rpcs0 cfg, bytesTotal cfg - bytes0 cfg, maxIndex cfg - maxIndex0 cfg)
         else None))"

fun log_size_loop :: "nat list \<Rightarrow> nat \<Rightarrow> 'c config \<Rightarrow> (string, nat) go_result" where
  "log_size_loop [] logsize cfg = Return logsize"
| "log_size_loop (i # is) logsize cfg =
     (case saved cfg ! i of
        None \<Rightarrow> Panics NilPointerDereference
      | Some p \<Rightarrow>
          let n = RaftStateSize p (store cfg)
          in log_size_loop is (if n > logsize then n else logsize) cfg)"

definition LogSize :: "'c config \<Rightarrow> (string, nat) go_result" where
  "LogSize cfg = log_size_loop [0..<cfg_n cfg] 0 cfg"

text \<open>\<open>cleanup\<close> kills the peers, closes the network and looks at the time.\<close>

fun kill_all :: "nat list \<Rightarrow> 'c config \<Rightarrow> 'c config" where
  "kill_all [] cfg = cfg"
| "kill_all (i # is) cfg =
     kill_all is (case rafts cfg ! i of
       None \<Rightarrow> cfg
     | Some r \<Rightarrow> cfg\<lparr>peers_made := (peers_made cfg)[r := Kill (peers_made cfg ! r)]\<rparr>)"

definition cleanup :: "bool \<Rightarrow> int \<Rightarrow> 'c config \<Rightarrow> 'c cfg_outcome" where
  "cleanup failed elapsed cfg =
     (let cfg = kill_all [0..<length (rafts cfg)] cfg
      in case Cleanup (cnet cfg) of
           Return rn \<Rightarrow> bind_go (checkTimeout failed elapsed) (\<lambda>_. Return (cfg\<lparr>cnet := rn\<rparr>))
         | Panics p \<Rightarrow> Panics p
         | Fails e \<Rightarrow> Fails (st_message e)
         | Blocks \<Rightarrow> Blocks)"

section \<open>The applied logs\<close>

lemma find_mismatch_None:
  "find_mismatch lgs j idx v err = None \<longleftrightarrow>
     err = None \<and> (\<forall>lg\<in>set lgs. \<forall>old. lg idx = Some old \<longrightarrow> old = v)"
  by (induction lgs arbitrary: j err) (auto split: option.splits)

definition logs_ok :: "nat \<Rightarrow> 'c config \<Rightarrow> bool" where
  "logs_ok n cfg \<longleftrightarrow>
     length (logs cfg) = n \<and>
     (\<forall>i<n. \<forall>j<n. \<forall>idx v w. (logs cfg ! i) idx = Some v \<and> (logs cfg ! j) idx = Some w \<longrightarrow> v = w) \<and>
     (\<forall>i<n. \<forall>idx. idx > 1 \<and> (logs cfg ! i) idx \<noteq> None \<longrightarrow> (logs cfg ! i) (idx - 1) \<noteq> None) \<and>
     (\<forall>i<n. \<forall>idx. (logs cfg ! i) idx \<noteq> None \<longrightarrow> idx \<le> maxIndex cfg)"

lemma applier_value:
  assumes "CommandValid m" and "applier i m cfg = Return cfg'"
  shows "i < length (logs cfg) \<and> (\<forall>lg\<in>set (logs cfg). \<forall>old. lg (CommandIndex m) = Some old \<longrightarrow> old = Command m) \<and>
    (CommandIndex m > 1 \<longrightarrow> (logs cfg ! i) (CommandIndex m - 1) \<noteq> None) \<and>
    logs cfg' = (logs cfg)[i := (logs cfg ! i)(CommandIndex m \<mapsto> Command m)] \<and>
    maxIndex cfg' = max (maxIndex cfg) (CommandIndex m) \<and> rafts cfg' = rafts cfg \<and> applyErr cfg' = applyErr cfg \<and>
    cfg_n cfg' = cfg_n cfg"
  using assms
  by (auto simp: applier_def checkLogs_def bind_go_Return_iff idx_get_def Let_def find_mismatch_None max_def
      split: if_splits)

lemma logs_ok_applier:
  assumes ok: "logs_ok n cfg" and step: "applier i m cfg = Return cfg'"
  shows "logs_ok n cfg'"
proof (cases "CommandValid m")
  case False
  then show ?thesis using assms by (simp add: applier_def)
next
  case True
  let ?idx = "CommandIndex m" and ?v = "Command m"
  note a = applier_value [OF True step]
  have len: "length (logs cfg) = n" using ok by (simp add: logs_ok_def)
  have i: "i < n" using a len by simp
  have lg: "(logs cfg' ! j) idx = (if j = i \<and> idx = ?idx then Some ?v else (logs cfg ! j) idx)" if "j < n" for j idx
    using a that len by (simp add: nth_list_update)
  have old: "v = ?v" if "j < n" "(logs cfg ! j) ?idx = Some v" for j v
    using a that len by (metis nth_mem)
  have "v = w" if "j < n" "k < n" "(logs cfg' ! j) idx = Some v" "(logs cfg' ! k) idx = Some w" for j k idx v w
  proof (cases "idx = ?idx")
    case True
    have "u = ?v" if "l < n" "(logs cfg' ! l) ?idx = Some u" for l u
      using that old [of l u] by (cases "l = i") (simp_all add: lg)
    then show ?thesis using that True by metis
  next
    case False
    then have "(logs cfg ! j) idx = Some v" "(logs cfg ! k) idx = Some w" using that by (simp_all add: lg)
    then show ?thesis using ok that(1,2) unfolding logs_ok_def by blast
  qed
  moreover have "(logs cfg' ! j) (idx - 1) \<noteq> None" if "j < n" "idx > 1" "(logs cfg' ! j) idx \<noteq> None" for j idx
  proof (cases "j = i \<and> idx = ?idx")
    case True
    then show ?thesis using a that lg [OF i, of "?idx - 1"] by auto
  next
    case False
    then have "(logs cfg ! j) idx \<noteq> None" using that by (auto simp: lg)
    then have "(logs cfg ! j) (idx - 1) \<noteq> None" using ok that unfolding logs_ok_def by blast
    then show ?thesis using that by (simp add: lg)
  qed
  moreover have "idx \<le> maxIndex cfg'" if "j < n" "(logs cfg' ! j) idx \<noteq> None" for j idx
  proof (cases "j = i \<and> idx = ?idx")
    case True
    then show ?thesis using a by simp
  next
    case False
    then have "(logs cfg ! j) idx \<noteq> None" using that by (auto simp: lg)
    then have "idx \<le> maxIndex cfg" using ok that(1) unfolding logs_ok_def by blast
    then show ?thesis using a by simp
  qed
  moreover have "length (logs cfg') = n" using a len by simp
  ultimately show ?thesis unfolding logs_ok_def by blast
qed

text \<open>Counting over logs that agree.\<close>

definition have_index :: "int \<Rightarrow> nat list \<Rightarrow> 'c config \<Rightarrow> nat list" where
  "have_index index is cfg = filter (\<lambda>i. (logs cfg ! i) index \<noteq> None) is"

lemma count_committed_value:
  assumes agree: "\<And>i j v w. i < n \<Longrightarrow> j < n \<Longrightarrow> (logs cfg ! i) index = Some v \<Longrightarrow> (logs cfg ! j) index = Some w \<Longrightarrow> v = w"
    and len: "length (logs cfg) = n" "applyErr cfg = replicate n []" and "set is \<subseteq> {0..<n}"
    and "count > 0 \<longrightarrow> (\<exists>i<n. cmd = (logs cfg ! i) index \<and> cmd \<noteq> None)"
  shows "count_committed is index cfg (count, cmd) =
    Return (count + length (have_index index is cfg),
            if have_index index is cfg = [] then cmd else (logs cfg ! last (have_index index is cfg)) index)"
  using assms(4,5)
proof (induction "is" arbitrary: count cmd)
  case Nil
  then show ?case by (simp add: have_index_def)
next
  case (Cons i "is")
  have i: "i < n" using Cons.prems(1) by simp
  show ?case
  proof (cases "(logs cfg ! i) index")
    case None
    then show ?thesis
      using Cons.IH [of count cmd] Cons.prems len i by (simp add: idx_get_def have_index_def)
  next
    case (Some v)
    have "count > 0 \<longrightarrow> cmd = Some v"
    proof
      assume "count > 0"
      then obtain j where j: "j < n" "cmd = (logs cfg ! j) index" "cmd \<noteq> None" using Cons.prems(2) by blast
      then show "cmd = Some v" using agree [OF j(1) i] Some by auto
    qed
    moreover have "\<exists>j<n. Some v = (logs cfg ! j) index \<and> Some v \<noteq> None" using i Some by (intro exI [of _ i]) simp
    then have "count_committed is index cfg (count + 1, Some v) =
        Return (count + 1 + length (have_index index is cfg),
          if have_index index is cfg = [] then Some v else (logs cfg ! last (have_index index is cfg)) index)"
      using Cons.IH [of "count + 1" "Some v"] Cons.prems(1) by simp
    moreover have "have_index index (i # is) cfg = i # have_index index is cfg" using Some by (simp add: have_index_def)
    ultimately show ?thesis using len i Some by (auto simp: idx_get_def)
  qed
qed

definition committed :: "nat \<Rightarrow> int \<Rightarrow> 'c config \<Rightarrow> nat set" where
  "committed n index cfg = {i. i < n \<and> (logs cfg ! i) index \<noteq> None}"

text \<open>What the appliers keep of a cluster of \<open>n\<close> servers.\<close>

definition applied :: "nat \<Rightarrow> 'c config \<Rightarrow> bool" where
  "applied n cfg \<longleftrightarrow> logs_ok n cfg \<and> applyErr cfg = replicate n [] \<and> length (rafts cfg) = n \<and> cfg_n cfg = n"

lemma nCommitted_value:
  assumes "applied n cfg"
  shows "\<exists>cmd. nCommitted index cfg = Return (card (committed n index cfg), cmd) \<and>
    (\<forall>i\<in>committed n index cfg. (logs cfg ! i) index = cmd) \<and> (committed n index cfg = {} \<longrightarrow> cmd = None)"
proof -
  let ?l = "have_index index [0..<n] cfg"
  have ok: "logs_ok n cfg" using assms by (simp add: applied_def)
  then have agree: "v = w" if "i < n" "j < n" "(logs cfg ! i) index = Some v" "(logs cfg ! j) index = Some w" for i j v w
    using that unfolding logs_ok_def by blast
  have set: "set ?l = committed n index cfg" by (auto simp: have_index_def committed_def)
  have 1: "length ?l = card (committed n index cfg)"
    using distinct_card [of ?l] set by (simp add: have_index_def)
  have 2: "nCommitted index cfg = Return (length ?l, if ?l = [] then None else (logs cfg ! last ?l) index)"
    using count_committed_value [of n cfg index "[0..<n]" 0 None] agree assms ok
    by (simp add: nCommitted_def applied_def logs_ok_def)
  have 3: "(logs cfg ! i) index = (logs cfg ! last ?l) index" if i: "i \<in> committed n index cfg" for i
  proof -
    have "last ?l \<in> committed n index cfg" using i set by (metis empty_iff empty_set last_in_set)
    then obtain v w where "last ?l < n" "(logs cfg ! last ?l) index = Some w" "i < n" "(logs cfg ! i) index = Some v"
      using i by (auto simp: committed_def)
    then show ?thesis using agree [of i "last ?l" v w] by simp
  qed
  have 4: "?l = [] \<longleftrightarrow> committed n index cfg = {}" using set by (metis set_empty)
  show ?thesis
  proof (cases "committed n index cfg = {}")
    case True
    then show ?thesis using 1 2 4 by simp
  next
    case False
    then have "nCommitted index cfg = Return (card (committed n index cfg), (logs cfg ! last ?l) index)"
      using 1 2 4 by simp
    then show ?thesis using 3 False by blast
  qed
qed

text \<open>The messages of all appliers, in the order in which they take the mutex.\<close>

definition appliers :: "(nat \<times> 'c ApplyMsg) list \<Rightarrow> 'c config \<Rightarrow> 'c cfg_outcome" where
  "appliers ms cfg = for_go (\<lambda>(i, m). applier i m) ms cfg"

lemma applied_applier:
  assumes "applied n cfg" and "applier i m cfg = Return cfg'"
  shows "applied n cfg'"
proof (cases "CommandValid m")
  case False
  then show ?thesis using assms by (simp add: applier_def)
next
  case True
  then show ?thesis
    using assms applier_value [OF True assms(2)] logs_ok_applier [OF _ assms(2)] by (simp add: applied_def)
qed

lemma appliers_applied: "appliers ms cfg = Return cfg' \<Longrightarrow> applied n cfg \<Longrightarrow> applied n cfg'"
  unfolding appliers_def
  by (erule for_go_invariant [where P = "applied n"]) (auto intro: applied_applier)

lemma applied_empty: "applied n (empty_config n unreliable)"
  by (simp add: applied_def logs_ok_def empty_config_def)

text \<open>
  C18: applied entries agree. However the servers' apply messages interleave, as long as the tester has
  not ended the process with an apply error: no two servers have applied different commands at one
  index (nor one server two of them in turn), every server has applied its entries in order without a
  gap, \<open>maxIndex\<close> bounds them all, and \<open>nCommitted\<close> never fails: it returns the number of servers that
  have applied the index and the command they all applied.
\<close>
theorem applied_entries_agree:
  assumes "appliers ms (empty_config n unreliable) = Return cfg"
  shows "(\<forall>i<n. \<forall>j<n. \<forall>idx v w. (logs cfg ! i) idx = Some v \<and> (logs cfg ! j) idx = Some w \<longrightarrow> v = w) \<and>
    (\<forall>i<n. \<forall>idx>1. (logs cfg ! i) idx \<noteq> None \<longrightarrow> (logs cfg ! i) (idx - 1) \<noteq> None) \<and>
    (\<forall>i<n. \<forall>idx. (logs cfg ! i) idx \<noteq> None \<longrightarrow> idx \<le> maxIndex cfg) \<and>
    (\<exists>cmd. nCommitted index cfg = Return (card (committed n index cfg), cmd) \<and>
      (\<forall>i\<in>committed n index cfg. (logs cfg ! i) index = cmd))"
proof -
  have ap: "applied n cfg" by (rule appliers_applied [OF assms applied_empty])
  then have ok: "logs_ok n cfg" by (simp add: applied_def)
  have 4: "\<exists>cmd. nCommitted index cfg = Return (card (committed n index cfg), cmd) \<and>
      (\<forall>i\<in>committed n index cfg. (logs cfg ! i) index = cmd)"
    using nCommitted_value [OF ap, of index] by blast
  show ?thesis using ok 4 unfolding logs_ok_def by simp
qed

definition msg :: "int \<Rightarrow> 'c \<Rightarrow> 'c ApplyMsg" where
  "msg idx c = \<lparr>CommandValid = True, Command = c, CommandIndex = idx\<rparr>"

theorem applied_entries_agree_witness:
  "\<exists>cfg. appliers [(0, msg 1 7), (1, msg 1 7), (0, msg 2 8)] (empty_config 2 True) = Return cfg \<and>
     (logs cfg ! 0) 1 = Some (7::nat) \<and> maxIndex cfg = 2 \<and>
     (\<exists>cmd. nCommitted 1 cfg = Return (card (committed 2 1 cfg), cmd) \<and>
       (\<forall>i\<in>committed 2 1 cfg. (logs cfg ! i) 1 = cmd))"
proof -
  have "\<exists>cfg. appliers [(0, msg 1 7), (1, msg 1 7), (0, msg 2 8)] (empty_config 2 True) = Return cfg \<and>
     (logs cfg ! 0) 1 = Some (7::nat) \<and> maxIndex cfg = 2"
    by (simp add: appliers_def applier_def checkLogs_def msg_def empty_config_def idx_get_def Let_def numeral_2_eq_2)
  then obtain cfg where c: "appliers [(0, msg 1 7), (1, msg 1 7), (0, msg 2 8)] (empty_config 2 True) = Return cfg"
    "(logs cfg ! 0) 1 = Some (7::nat)" "maxIndex cfg = 2" by blast
  then show ?thesis using applied_entries_agree [OF c(1), of 1] by blast
qed

section \<open>The leader\<close>

definition lookup :: "int \<Rightarrow> (int \<times> nat list) list \<Rightarrow> nat list" where
  "lookup t leaders = (case map_of leaders t of None \<Rightarrow> [] | Some ls \<Rightarrow> ls)"

definition leaders_ok :: "(int \<times> nat list) list \<Rightarrow> bool" where
  "leaders_ok leaders \<longleftrightarrow> distinct (map fst leaders) \<and> (\<forall>(t, ls)\<in>set leaders. ls \<noteq> [])"

lemma lookup_add_leader: "lookup t (add_leader t' i leaders) = (if t = t' then lookup t leaders @ [i] else lookup t leaders)"
  by (induction t' i leaders rule: add_leader.induct) (auto simp: lookup_def)

lemma fst_add_leader: "fst ` set (add_leader t i leaders) = insert t (fst ` set leaders)"
  by (induction t i leaders rule: add_leader.induct) auto

lemma leaders_ok_add: "leaders_ok leaders \<Longrightarrow> leaders_ok (add_leader t i leaders)"
proof (induction t i leaders rule: add_leader.induct)
  case (2 t i t' ls rest)
  have "t' \<notin> fst ` set rest" "leaders_ok rest" "ls \<noteq> []" "distinct (map fst rest)" "\<forall>(t, ls)\<in>set rest. ls \<noteq> []"
    using "2.prems" by (auto simp: leaders_ok_def)
  moreover have "set (map fst (add_leader t i rest)) = insert t (fst ` set rest)" by (simp add: fst_add_leader)
  ultimately show ?case using 2 by (auto simp: leaders_ok_def simp del: set_map)
qed (simp add: leaders_ok_def)

lemma lookup_collect:
  "lookup t (collect_leaders state conn is leaders) =
     lookup t leaders @ filter (\<lambda>i. conn ! i \<and> state i = (t, True)) is"
  by (induction "is" arbitrary: leaders) (auto simp: lookup_add_leader split: prod.splits)

lemma leaders_ok_collect: "leaders_ok leaders \<Longrightarrow> leaders_ok (collect_leaders state conn is leaders)"
  by (induction "is" arbitrary: leaders) (auto simp: leaders_ok_add split: prod.splits)

lemma lookup_entry: "leaders_ok leaders \<Longrightarrow> (t, ls) \<in> set leaders \<longleftrightarrow> ls \<noteq> [] \<and> lookup t leaders = ls"
  by (auto simp: leaders_ok_def lookup_def split: option.splits dest: map_of_SomeD eq_key_imp_eq_value)

lemma last_term_value:
  "last_term leaders m =
     (if \<exists>(t, ls)\<in>set leaders. 1 < length ls then Fails ''more than one leader in a term''
      else Return (foldl max m (map fst leaders)))"
proof (induction leaders m rule: last_term.induct)
  case (2 t ls rest sofar)
  have "(if t > sofar then t else sofar) = max sofar t" by (simp add: max_def)
  then show ?case using 2 by simp
qed simp

lemma foldl_max: "foldl max m ts = Max (insert (m::int) (set ts))"
proof (induction ts arbitrary: m)
  case (Cons t ts)
  have "Max (insert m (insert t (set ts))) = max (max m t) (Max (set ts))" if "ts \<noteq> []"
    using that by (simp add: Max_insert max.assoc)
  then show ?case using Cons by (cases "ts = []") (simp_all add: Max_insert)
qed simp

text \<open>Server \<open>i\<close> is connected and claims to lead term \<open>t\<close>.\<close>

definition leads :: "(nat \<Rightarrow> int \<times> bool) \<Rightarrow> 'c config \<Rightarrow> int \<Rightarrow> nat \<Rightarrow> bool" where
  "leads state cfg t i \<longleftrightarrow> i < cfg_n cfg \<and> connected cfg ! i \<and> state i = (t, True)"

text \<open>One turn of \<open>checkOneLeader\<close>.\<close>

definition two_leaders :: "(nat \<Rightarrow> int \<times> bool) \<Rightarrow> 'c config \<Rightarrow> bool" where
  "two_leaders state cfg \<longleftrightarrow> (\<exists>t i j. i \<noteq> j \<and> leads state cfg t i \<and> leads state cfg t j)"

lemma filter_one_iff: "1 < length (filter P [0..<n]) \<longleftrightarrow> (\<exists>i j. i \<noteq> j \<and> i < n \<and> j < n \<and> P i \<and> P j)"
proof -
  have "length (filter P [0..<n]) = card {i. i < n \<and> P i}"
    by (subst distinct_card [symmetric]) (auto intro!: arg_cong [where f = card])
  moreover have "1 < card {i. i < n \<and> P i} \<longleftrightarrow> (\<exists>i j. i \<noteq> j \<and> i < n \<and> j < n \<and> P i \<and> P j)"
  proof -
    have "finite {i. i < n \<and> P i}" by simp
    then have "card {i. i < n \<and> P i} \<le> 1 \<longleftrightarrow> (\<forall>x\<in>{i. i < n \<and> P i}. \<forall>y\<in>{i. i < n \<and> P i}. x = y)"
      by (simp add: card_le_Suc0_iff_eq)
    then show ?thesis unfolding not_le [symmetric] by auto
  qed
  ultimately show ?thesis by simp
qed

lemma turn_value:
  fixes cfg :: "'c config" and order :: "(int \<times> nat list) list \<Rightarrow> (int \<times> nat list) list"
  assumes order: "set (order (collect_leaders state (connected cfg) [0..<cfg_n cfg] [])) =
      set (collect_leaders state (connected cfg) [0..<cfg_n cfg] [])"
    and nonneg: "\<And>i. 0 \<le> fst (state i)"
  defines "leaders \<equiv> collect_leaders state (connected cfg) [0..<cfg_n cfg] []"
  shows "two_leaders state cfg \<Longrightarrow> last_term (order leaders) (-1) = Fails ''more than one leader in a term''"
    and "\<not> two_leaders state cfg \<Longrightarrow> leaders \<noteq> [] \<Longrightarrow>
      \<exists>t i. last_term (order leaders) (-1) = Return t \<and> leads state cfg t i \<and> lookup t leaders = [i] \<and>
        (\<forall>t' j. leads state cfg t' j \<longrightarrow> t' \<le> t)"
    and "leaders = [] \<longleftrightarrow> (\<forall>t i. \<not> leads state cfg t i)"
    and "leaders = [] \<Longrightarrow> last_term (order leaders) (-1) = Return (-1)"
proof -
  have ok: "leaders_ok leaders" unfolding leaders_def by (rule leaders_ok_collect) (simp add: leaders_ok_def)
  have lk: "lookup t leaders = filter (\<lambda>i. connected cfg ! i \<and> state i = (t, True)) [0..<cfg_n cfg]" for t
    unfolding leaders_def lookup_collect by (simp add: lookup_def)
  have in_lk: "i \<in> set (lookup t leaders) \<longleftrightarrow> leads state cfg t i" for t i by (auto simp: lk leads_def)
  have set: "set (order leaders) = set leaders" using order unfolding leaders_def .
  have entry: "(t, ls) \<in> set leaders \<longleftrightarrow> ls \<noteq> [] \<and> lookup t leaders = ls" for t ls by (rule lookup_entry [OF ok])
  have many: "(\<exists>(t, ls)\<in>set leaders. 1 < length ls) \<longleftrightarrow> two_leaders state cfg"
  proof -
    have "(\<exists>(t, ls)\<in>set leaders. 1 < length ls) \<longleftrightarrow> (\<exists>t. 1 < length (lookup t leaders))"
    proof
      assume "\<exists>t. 1 < length (lookup t leaders)"
      then obtain t where t: "1 < length (lookup t leaders)" by blast
      then have "lookup t leaders \<noteq> []" by auto
      then have "(t, lookup t leaders) \<in> set leaders" by (simp add: entry)
      then show "\<exists>(t, ls)\<in>set leaders. 1 < length ls" using t by blast
    qed (auto simp: entry)
    then show ?thesis unfolding lk filter_one_iff by (auto simp: two_leaders_def leads_def)
  qed
  show "two_leaders state cfg \<Longrightarrow> last_term (order leaders) (-1) = Fails ''more than one leader in a term''"
    unfolding last_term_value set many by simp
  show none: "leaders = [] \<longleftrightarrow> (\<forall>t i. \<not> leads state cfg t i)"
  proof
    assume "leaders = []"
    then show "\<forall>t i. \<not> leads state cfg t i" by (auto simp flip: in_lk simp: lookup_def)
  next
    assume no: "\<forall>t i. \<not> leads state cfg t i"
    show "leaders = []"
    proof (rule ccontr)
      assume "leaders \<noteq> []"
      then obtain t ls where "(t, ls) \<in> set leaders" by (cases leaders) auto
      then have "lookup t leaders \<noteq> []" by (simp add: entry)
      then show False using no in_lk [of "hd (lookup t leaders)" t] by simp
    qed
  qed
  show "leaders = [] \<Longrightarrow> last_term (order leaders) (-1) = Return (-1)"
    using set by simp
  assume one: "\<not> two_leaders state cfg" and ne: "leaders \<noteq> []"
  let ?t = "Max (insert (-1) (fst ` set leaders))"
  have ret: "last_term (order leaders) (-1) = Return ?t"
    unfolding last_term_value set many using one by (simp add: foldl_max set)
  obtain t0 i0 where t0: "leads state cfg t0 i0" using ne none by blast
  have in_map: "t \<in> fst ` set leaders \<longleftrightarrow> (\<exists>i. leads state cfg t i)" for t
  proof -
    have "t \<in> fst ` set leaders \<longleftrightarrow> (\<exists>ls. (t, ls) \<in> set leaders)" by force
    then have "t \<in> fst ` set leaders \<longleftrightarrow> lookup t leaders \<noteq> []" by (simp add: entry)
    also have "\<dots> \<longleftrightarrow> (\<exists>i. i \<in> set (lookup t leaders))" by (metis empty_iff empty_set last_in_set)
    finally show ?thesis by (simp add: in_lk)
  qed
  have fin: "finite (insert (-1) (fst ` set leaders))" by simp
  have "0 \<le> t0" using t0 nonneg [of i0] by (simp add: leads_def)
  moreover have "t0 \<le> ?t" using in_map t0 by (intro Max_ge [OF fin]) blast
  ultimately have "?t \<noteq> -1" by linarith
  then have "?t \<in> fst ` set leaders" using Max_in [OF fin] by auto
  then obtain i where i: "leads state cfg ?t i" using in_map by blast
  have "\<not> 1 < length (lookup ?t leaders)" using many one entry [of ?t "lookup ?t leaders"] by fastforce
  then have "lookup ?t leaders = [i]" using i in_lk [of i ?t]
    by (cases "lookup ?t leaders" rule: remdups_adj.cases) auto
  moreover have "t' \<le> ?t" if "leads state cfg t' j" for t' j
    using in_map that by (intro Max_ge [OF fin]) blast
  ultimately show "\<exists>t i. last_term (order leaders) (-1) = Return t \<and> leads state cfg t i \<and> lookup t leaders = [i] \<and>
        (\<forall>t' j. leads state cfg t' j \<longrightarrow> t' \<le> t)"
    using ret i by blast
qed

definition no_leader :: "(nat \<Rightarrow> int \<times> bool) \<Rightarrow> 'c config \<Rightarrow> bool" where
  "no_leader state cfg \<longleftrightarrow> (\<forall>t i. \<not> leads state cfg t i)"

lemma leader_turn_none:
  assumes "\<And>l. set (order l) = set l" and "\<And>i. 0 \<le> fst (obs k i)" and "no_leader (obs k) cfg"
  shows "check_leader_loop (Suc iters) k obs order cfg = check_leader_loop iters (k + 1) obs order cfg"
  using turn_value(3,4) [of order "obs k" cfg] assms by (simp add: no_leader_def Let_def)

lemma leader_turns_none:
  "(\<And>l. set (order l) = set l) \<Longrightarrow> (\<And>k i. 0 \<le> fst (obs k i)) \<Longrightarrow> (\<And>j. j < m \<Longrightarrow> no_leader (obs (k + j)) cfg) \<Longrightarrow>
   check_leader_loop (m + iters) k obs order cfg = check_leader_loop iters (k + m) obs order cfg"
proof (induction m arbitrary: k)
  case (Suc m)
  have "check_leader_loop (Suc (m + iters)) k obs order cfg = check_leader_loop (m + iters) (k + 1) obs order cfg"
    by (rule leader_turn_none) (use Suc.prems(1,2) Suc.prems(3) [of 0] in simp_all)
  also have "\<dots> = check_leader_loop iters (k + 1 + m) obs order cfg"
    by (rule Suc.IH) (use Suc.prems(1,2) in simp, use Suc.prems(2) in simp, use Suc.prems(3) [of "Suc j" for j] in simp)
  finally show ?case by simp
qed simp

lemma leader_turn_some:
  assumes "\<And>l. set (order l) = set l" and "\<And>i. 0 \<le> fst (obs k i)" and some: "\<not> no_leader (obs k) cfg"
  shows "(two_leaders (obs k) cfg \<longrightarrow>
      check_leader_loop (Suc iters) k obs order cfg = Fails ''more than one leader in a term'') \<and>
    (\<not> two_leaders (obs k) cfg \<longrightarrow>
      (\<exists>t i. check_leader_loop (Suc iters) k obs order cfg = Return i \<and> leads (obs k) cfg t i \<and>
        (\<forall>t' j. leads (obs k) cfg t' j \<longrightarrow> t' \<le> t)))"
proof -
  let ?l = "collect_leaders (obs k) (connected cfg) [0..<cfg_n cfg] []"
  note turn = turn_value [of order "obs k" cfg, OF assms(1,2)]
  have ne: "?l \<noteq> []" using turn(3) some by (simp add: no_leader_def)
  show ?thesis
  proof (cases "two_leaders (obs k) cfg")
    case True
    then show ?thesis using turn(1) by (simp add: Let_def)
  next
    case False
    then obtain t i where t: "last_term (order ?l) (-1) = Return t" "leads (obs k) cfg t i" "lookup t ?l = [i]"
      "\<forall>t' j. leads (obs k) cfg t' j \<longrightarrow> t' \<le> t"
      using turn(2) ne by blast
    then have "check_leader_loop (Suc iters) k obs order cfg = Return i"
      using ne by (simp add: Let_def lookup_def idx_get_def)
    then show ?thesis using False t by blast
  qed
qed

text \<open>
  C19: \<open>checkOneLeader\<close> finds the leader. It looks at the connected servers up to ten times, until some
  of them claims to lead; it then fails the test if two of them claim the same term, and otherwise
  returns the one of the latest term, in whatever order the map of leaders is gone through; if nobody
  ever claims to lead it fails. Servers off the network do not count.
\<close>
theorem check_one_leader:
  assumes order: "\<And>l. set (order l) = set l" and terms: "\<And>k i. 0 \<le> fst (obs k i)"
  shows "((\<forall>k<10. no_leader (obs k) cfg) \<longrightarrow>
      checkOneLeader obs order cfg = Fails ''expected one leader, got none'') \<and>
    (\<forall>k<10. (\<forall>j<k. no_leader (obs j) cfg) \<and> \<not> no_leader (obs k) cfg \<longrightarrow>
      (if two_leaders (obs k) cfg then checkOneLeader obs order cfg = Fails ''more than one leader in a term''
       else \<exists>t i. checkOneLeader obs order cfg = Return i \<and> leads (obs k) cfg t i \<and>
         (\<forall>t' j. leads (obs k) cfg t' j \<longrightarrow> t' \<le> t)))"
proof (intro conjI allI impI)
  assume "\<forall>k<10. no_leader (obs k) cfg"
  then show "checkOneLeader obs order cfg = Fails ''expected one leader, got none''"
    using leader_turns_none [where obs = obs and order = order, OF order terms, where m = 10 and iters = 0 and k = 0 and cfg = cfg] by (simp add: checkOneLeader_def)
next
  fix k :: nat assume k: "k < 10" and first: "(\<forall>j<k. no_leader (obs j) cfg) \<and> \<not> no_leader (obs k) cfg"
  have "10 - k = Suc (9 - k)" using k by simp
  then have "checkOneLeader obs order cfg = check_leader_loop (Suc (9 - k)) k obs order cfg"
    using leader_turns_none [where obs = obs and order = order, OF order terms, where m = k and iters = "10 - k" and k = 0 and cfg = cfg] first k
    by (simp add: checkOneLeader_def del: check_leader_loop.simps)
  then show "if two_leaders (obs k) cfg then checkOneLeader obs order cfg = Fails ''more than one leader in a term''
       else \<exists>t i. checkOneLeader obs order cfg = Return i \<and> leads (obs k) cfg t i \<and>
         (\<forall>t' j. leads (obs k) cfg t' j \<longrightarrow> t' \<le> t)"
    using leader_turn_some [where obs = obs and order = order, OF order terms, where k = k and iters = "9 - k" and cfg = cfg] first by simp
qed

text \<open>Three servers, the last one off the network; in the second look server 1 leads term 4, and the
  disconnected server 2 still believes to lead term 3.\<close>

definition demo_state :: "nat \<Rightarrow> nat \<Rightarrow> int \<times> bool" where
  "demo_state k i = (if k = 0 then (3, i = 2) else if i = 1 then (4, True) else (3, i = 2))"

theorem check_one_leader_witness:
  "checkOneLeader demo_state rev ((empty_config 3 False :: nat config)\<lparr>connected := [True, True, False]\<rparr>) = Return 1"
proof -
  let ?cfg = "(empty_config 3 False :: nat config)\<lparr>connected := [True, True, False]\<rparr>"
  have n: "cfg_n ?cfg = 3" by (simp add: empty_config_def)
  have conn: "i < 3 \<and> connected ?cfg ! i \<longleftrightarrow> i = 0 \<or> i = 1" for i
    by (auto simp: numeral_3_eq_3 less_Suc_eq nth_Cons')
  have l: "leads (demo_state k) ?cfg t i \<longleftrightarrow> k \<noteq> 0 \<and> i = 1 \<and> t = 4" for k t i
    using conn [of i] unfolding leads_def n by (auto simp: demo_state_def)
  have "0 \<le> fst (demo_state k i)" for k i by (simp add: demo_state_def)
  from check_one_leader [of rev demo_state ?cfg, OF set_rev this]
  have "(\<forall>j<1. no_leader (demo_state j) ?cfg) \<and> \<not> no_leader (demo_state 1) ?cfg \<longrightarrow>
      (if two_leaders (demo_state 1) ?cfg then checkOneLeader demo_state rev ?cfg = Fails ''more than one leader in a term''
       else \<exists>t i. checkOneLeader demo_state rev ?cfg = Return i \<and> leads (demo_state 1) ?cfg t i \<and>
         (\<forall>t' j. leads (demo_state 1) ?cfg t' j \<longrightarrow> t' \<le> t))"
    by (rule allE [OF conjunct2, where x = 1]) simp
  then show ?thesis by (simp add: no_leader_def two_leaders_def l)
qed

section \<open>What an agreement means\<close>

text \<open>Some connected peer of the round claimed to lead and to put the command at \<open>index\<close>.\<close>

definition claimed :: "'c one_round \<Rightarrow> int \<Rightarrow> bool" where
  "claimed r index \<longleftrightarrow>
     (\<exists>s t. connected (r_cfg r) ! s \<and> rafts (r_cfg r) ! s \<noteq> None \<and> r_start r s = (index, t, True))"

definition agreed :: "'c \<Rightarrow> nat \<Rightarrow> int \<Rightarrow> 'c config \<Rightarrow> bool" where
  "agreed cmd expectedServers index cfg \<longleftrightarrow>
     (let is = committed (length (rafts cfg)) index cfg
      in 0 < card is \<and> expectedServers \<le> card is \<and> (\<forall>i\<in>is. (logs cfg ! i) index = Some cmd))"

text \<open>
  Counting verifies agreement: whatever the logs hold, even logs that disagree, a count that comes to
  its end has compared the entries with each other and found them equal.
\<close>

lemma count_committed_compares:
  "count_committed is index cfg (count, cmd) = Return (nd, res) \<Longrightarrow>
   nd = count + length (have_index index is cfg) \<and>
   (\<forall>i\<in>set (have_index index is cfg). (logs cfg ! i) index = res) \<and> (count > 0 \<longrightarrow> res = cmd)"
proof (induction "is" arbitrary: count cmd)
  case (Cons i "is")
  let ?lg = "logs cfg ! i"
  have lg: "idx_get (applyErr cfg) i = Return []" "idx_get (logs cfg) i = Return ?lg"
    using Cons.prems by (auto simp: bind_go_Return_iff idx_get_def split: if_splits)
  show ?case
  proof (cases "?lg index")
    case None
    then have "count_committed is index cfg (count, cmd) = Return (nd, res)"
      using Cons.prems by (simp_all add: lg split: if_splits)
    then show ?thesis using Cons.IH None by (simp add: have_index_def)
  next
    case (Some v)
    then have "count_committed is index cfg (count + 1, Some v) = Return (nd, res)" "count = 0 \<or> cmd = Some v"
      using Cons.prems by (simp_all add: lg split: if_splits)
    then show ?thesis using Cons.IH [of "count + 1" "Some v"] Some by (auto simp: have_index_def)
  qed
qed (simp add: have_index_def)

lemma nCommitted_compares:
  assumes "nCommitted index cfg = Return (nd, res)"
  shows "nd = card (committed (length (rafts cfg)) index cfg) \<and>
    (\<forall>i\<in>committed (length (rafts cfg)) index cfg. (logs cfg ! i) index = res)"
proof -
  let ?l = "have_index index [0..<length (rafts cfg)] cfg"
  have "set ?l = committed (length (rafts cfg)) index cfg" "distinct ?l" by (auto simp: have_index_def committed_def)
  then show ?thesis
    using count_committed_compares [of "[0..<length (rafts cfg)]" index cfg 0 None nd res] assms
    by (metis add_0 distinct_card nCommitted_def)
qed

lemma try_starts_claimed:
  "try_starts si r starts = (index, starts') \<Longrightarrow> index \<noteq> -1 \<Longrightarrow> claimed r index"
  by (induction si arbitrary: starts) (auto simp: Let_def claimed_def split: if_splits prod.splits)

lemma poll_committed_agreed:
  "poll_committed polls index cmd expectedServers = Return (Some True) \<Longrightarrow>
   \<exists>(t, c)\<in>set polls. t < 5000 \<and> (\<exists>nd. nCommitted index c = Return (nd, Some cmd) \<and> nd > 0 \<and> nd \<ge> expectedServers)"
proof (induction polls)
  case (Cons p polls)
  obtain t c where p: "p = (t, c)" by (rule prod.exhaust)
  then have t: "t < 5000" using Cons.prems by (auto split: if_splits)
  then obtain nd cmd1 where nd: "nCommitted index c = Return (nd, cmd1)"
    using Cons.prems p by (auto simp: bind_go_Return_iff)
  then show ?case using Cons p t by (auto split: if_splits)
qed simp

lemma one_loop_agreed:
  "one_loop rounds cmd expectedServers retry starts = Return (Some index) \<Longrightarrow>
   index \<noteq> -1 \<and> (\<exists>r\<in>set rounds. r_now r < 25000 \<and> claimed r index \<and>
     poll_committed (r_polls r) index cmd expectedServers = Return (Some True))"
proof (induction rounds arbitrary: starts)
  case (Cons r rs)
  obtain ix st where tried: "try_starts (cfg_n (r_cfg r)) r starts = (ix, st)" by (rule prod.exhaust)
  have now: "r_now r < 25000" using Cons.prems by (auto split: if_splits)
  have rest: ?case if "one_loop rs cmd expectedServers retry st = Return (Some index)"
    using Cons.IH [OF that] by auto
  show ?case
  proof (cases "ix = -1")
    case True
    then show ?thesis using Cons.prems now tried rest by simp
  next
    case False
    then obtain a where a: "poll_committed (r_polls r) ix cmd expectedServers = Return a"
      "(case a of None \<Rightarrow> Return None | Some True \<Rightarrow> Return (Some ix)
        | Some False \<Rightarrow> if \<not> retry then Fails ''failed to reach agreement''
                       else one_loop rs cmd expectedServers retry st) = Return (Some index)"
      using Cons.prems now tried by (auto simp: bind_go_Return_iff)
    show ?thesis
    proof (cases "a = Some True")
      case True
      then show ?thesis using a now False try_starts_claimed [OF tried False] by auto
    next
      case False
      then have "one_loop rs cmd expectedServers retry st = Return (Some index)"
        using a(2) by (auto split: option.splits bool.splits if_splits)
      then show ?thesis by (rule rest)
    qed
  qed
qed simp

text \<open>
  \<open>one\<close> ends once the clock has shown 25 seconds, provided that every wait has seen its 5 seconds.
\<close>

lemma poll_committed_ends:
  "\<exists>(t, c)\<in>set polls. 5000 \<le> t \<Longrightarrow> poll_committed polls index cmd expectedServers \<noteq> Return None"
proof (induction polls)
  case (Cons p polls)
  obtain t c where p: "p = (t, c)" by (rule prod.exhaust)
  show ?case
  proof (cases "t < 5000")
    case True
    then have "poll_committed polls index cmd expectedServers \<noteq> Return None" using Cons p by auto
    then show ?thesis using p True by (auto simp: bind_go_Return_iff)
  qed (simp add: p)
qed simp

lemma one_loop_ends:
  assumes "\<And>r. r \<in> set rounds \<Longrightarrow> \<exists>(t, c)\<in>set (r_polls r). 5000 \<le> t" and "\<exists>r\<in>set rounds. 25000 \<le> r_now r"
  shows "one_loop rounds cmd expectedServers retry starts \<noteq> Return None"
  using assms
proof (induction rounds arbitrary: starts)
  case (Cons r rs)
  show ?case
  proof (cases "r_now r < 25000")
    case True
    then have rest: "one_loop rs cmd expectedServers retry st \<noteq> Return None" for st
      using Cons.IH Cons.prems by auto
    obtain ix st where tried: "try_starts (cfg_n (r_cfg r)) r starts = (ix, st)" by (rule prod.exhaust)
    have "poll_committed (r_polls r) ix cmd expectedServers \<noteq> Return None"
      by (rule poll_committed_ends) (use Cons.prems(1) in simp)
    then show ?thesis
      using True tried rest by (auto simp: bind_go_Return_iff split: option.splits bool.splits if_splits)
  qed simp
qed simp

text \<open>
  C20: an agreement is one. If \<open>one\<close> returns an index, then within its 25 seconds some connected peer
  claimed to lead and to have put the command there, and within the 5 seconds it then waited it saw the
  cluster with at least the expected number of servers having applied that index, all of them the very
  command it submitted: whatever logs the tester looks at, since \<open>nCommitted\<close> compares the entries that
  it counts. And \<open>one\<close> does end, with an index or with a failed test, once its clock has shown 25
  seconds and each wait its 5 seconds.
\<close>
theorem one_returns_agreement:
  "(one rounds cmd expectedServers retry = Return (Some index) \<longrightarrow>
      index \<noteq> -1 \<and> (\<exists>r\<in>set rounds. r_now r < 25000 \<and> claimed r index \<and>
        (\<exists>(t, c)\<in>set (r_polls r). t < 5000 \<and> agreed cmd expectedServers index c))) \<and>
    ((\<forall>r\<in>set rounds. \<exists>(t, c)\<in>set (r_polls r). 5000 \<le> t) \<and> (\<exists>r\<in>set rounds. 25000 \<le> r_now r) \<longrightarrow>
      one rounds cmd expectedServers retry \<noteq> Return None)"
proof (rule conjI; rule impI)
  assume ret: "one rounds cmd expectedServers retry = Return (Some index)"
  obtain r where ix: "index \<noteq> -1" and r: "r \<in> set rounds" "r_now r < 25000" "claimed r index"
    and poll: "poll_committed (r_polls r) index cmd expectedServers = Return (Some True)"
    using one_loop_agreed ret unfolding one_def by metis
  obtain t c nd where c: "(t, c) \<in> set (r_polls r)" "t < 5000" "nCommitted index c = Return (nd, Some cmd)"
    "nd > 0" "nd \<ge> expectedServers"
    using poll_committed_agreed [OF poll] by blast
  have "agreed cmd expectedServers index c"
    using nCommitted_compares [OF c(3)] c(4,5) by (simp add: agreed_def Let_def)
  then show "index \<noteq> -1 \<and> (\<exists>r\<in>set rounds. r_now r < 25000 \<and> claimed r index \<and>
      (\<exists>(t, c)\<in>set (r_polls r). t < 5000 \<and> agreed cmd expectedServers index c))"
    using ix r c by blast
next
  assume "(\<forall>r\<in>set rounds. \<exists>(t, c)\<in>set (r_polls r). 5000 \<le> t) \<and> (\<exists>r\<in>set rounds. 25000 \<le> r_now r)"
  then show "one rounds cmd expectedServers retry \<noteq> Return None"
    unfolding one_def by (intro one_loop_ends) blast+
qed

definition demo_cluster_log :: "nat config" where
  "demo_cluster_log = (empty_config 2 False)\<lparr>connected := [True, True], rafts := [Some 0, Some 1],
     logs := [[1 \<mapsto> 7], [1 \<mapsto> 7]], maxIndex := 1\<rparr>"

definition demo_round :: "nat one_round" where
  "demo_round = \<lparr>r_now = 0, r_cfg = demo_cluster_log, r_start = (\<lambda>i. if i = 0 then (1, 1, True) else (-1, 1, False)),
     r_polls = [(0, demo_cluster_log)]\<rparr>"

theorem one_returns_agreement_witness:
  "one [demo_round] 7 2 False = Return (Some 1) \<and> agreed 7 2 1 demo_cluster_log"
proof -
  have "nCommitted 1 demo_cluster_log = Return (2, Some 7)"
    by (simp add: nCommitted_def demo_cluster_log_def empty_config_def idx_get_def upt_rec numeral_2_eq_2)
  moreover have "try_starts 2 demo_round 0 = (1, 0)"
    by (simp add: demo_round_def demo_cluster_log_def empty_config_def numeral_2_eq_2 Let_def)
  moreover have "cfg_n (r_cfg demo_round) = 2" "r_now demo_round = 0" "r_polls demo_round = [(0, demo_cluster_log)]"
    by (simp_all add: demo_round_def demo_cluster_log_def empty_config_def)
  ultimately have run: "one [demo_round] 7 2 False = Return (Some 1)" by (simp add: one_def)
  from one_returns_agreement [where rounds = "[demo_round]" and cmd = 7 and expectedServers = 2 and retry = False
      and index = 1]
  show ?thesis using run by (auto simp: demo_round_def)
qed

text \<open>\<open>wait\<close> decides only what enough servers have applied.\<close>

lemma wait_end_decided:
  assumes "applied n c" and "wait_end c index m = Return w"
  shows "\<exists>cmd. w = Decided cmd \<and> m \<le> card (committed n index c) \<and> (\<forall>i\<in>committed n index c. (logs c ! i) index = cmd)"
proof -
  obtain cmd where nd: "nCommitted index c = Return (card (committed n index c), cmd)"
    "\<forall>i\<in>committed n index c. (logs c ! i) index = cmd"
    using nCommitted_value [OF assms(1), of index] by blast
  then show ?thesis using assms(2) by (auto simp: wait_end_def split: if_splits)
qed

lemma wait_decided:
  assumes "\<And>k. applied n (fst (obs k))" and "wait obs index m startTerm = Return (Decided cmd)"
  shows "\<exists>k\<le>30. m \<le> card (committed n index (fst (obs k))) \<and>
    (\<forall>i\<in>committed n index (fst (obs k)). (logs (fst (obs k)) ! i) index = cmd)"
proof -
  have "wait_loop iters k obs index m startTerm = Return (Decided cmd) \<Longrightarrow>
    \<exists>j\<le>k + iters. m \<le> card (committed n index (fst (obs j))) \<and>
      (\<forall>i\<in>committed n index (fst (obs j)). (logs (fst (obs j)) ! i) index = cmd)" for iters k
  proof (induction iters arbitrary: k)
    case 0
    then show ?case using wait_end_decided [OF assms(1) [of k]] by fastforce
  next
    case (Suc iters)
    show ?case
    proof (cases "wait_end (fst (obs (k + 1))) index m = Return (Decided cmd)")
      case True
      have "k + 1 \<le> k + Suc iters" by simp
      then show ?thesis using wait_end_decided [OF assms(1) [of "k + 1"] True] by blast
    next
      case False
      then have "wait_loop iters (k + 1) obs index m startTerm = Return (Decided cmd)"
        using Suc.prems by (auto simp: bind_go_Return_iff split: if_splits)
      then show ?thesis using Suc.IH [of "k + 1"] by simp
    qed
  qed
  from this [of 30 0] show ?thesis using assms(2) by (simp add: wait_def)
qed

text \<open>
  The outline of raft.go as it stands: no peer leads, although \<open>Start\<close> always answers that it does, at
  the index -1; so no leader is found and no agreement is reached.
\<close>

lemma outline_has_no_leader:
  assumes "\<And>l. set (order l) = set l"
  shows "checkOneLeader (\<lambda>k i. GetState (rf i)) order cfg = Fails ''expected one leader, got none''"
proof -
  have "no_leader (\<lambda>i. GetState (rf i)) cfg" by (simp add: no_leader_def leads_def GetState_def)
  then show ?thesis
    using leader_turns_none [where obs = "\<lambda>k i. GetState (rf i)" and order = order and m = 10 and iters = 0 and k = 0
        and cfg = cfg, OF assms] by (simp add: checkOneLeader_def GetState_def)
qed

lemma outline_reaches_no_agreement:
  assumes "\<And>r i. r \<in> set rounds \<Longrightarrow> r_start r i = Start cmd (rf i)"
  shows "one rounds cmd expectedServers retry \<noteq> Return (Some index)"
proof
  assume "one rounds cmd expectedServers retry = Return (Some index)"
  then obtain r where "index \<noteq> -1" "r \<in> set rounds" "claimed r index" using one_loop_agreed unfolding one_def by metis
  then show False using assms by (auto simp: claimed_def Start_def)
qed

text \<open>\<open>LogSize\<close> is the size of the largest Raft state persisted.\<close>

lemma LogSize_value:
  assumes "cfg_inv n cfg"
  shows "LogSize cfg = Return (foldl max 0 (map (\<lambda>i. length (fst (the (saved_bytes i cfg)))) [0..<n]))"
proof -
  have "log_size_loop is m cfg = Return (foldl max m (map (\<lambda>i. length (fst (the (saved_bytes i cfg)))) is))"
    if "set is \<subseteq> {0..<n}" for "is" m
    using that
  proof (induction "is" arbitrary: m)
    case (Cons i "is")
    then obtain p where p: "saved cfg ! i = Some p"
      using assms by (auto simp: cfg_inv_def saved_bytes_def)
    have "RaftStateSize p (store cfg) = length (fst (the (saved_bytes i cfg)))"
      by (simp add: p saved_bytes_def held_def contents_of_def RaftStateSize_def)
    then show ?case using Cons p by (simp add: Let_def max_def)
  qed simp
  then show ?thesis using assms by (simp add: LogSize_def cfg_inv_def)
qed

text \<open>\<open>begin\<close> and \<open>end\<close> bracket what happened between them.\<close>

lemma end_after_begin:
  "elapsed \<le> 120000000000 \<Longrightarrow> end_test False elapsed (begin_test cfg) = Return (Some (cfg_n cfg, 0, 0, 0))"
  by (simp add: end_test_def checkTimeout_def begin_test_def rpcTotal_def bytesTotal_def)

end
