(* ===== verification/RaftNames.thy ===== *)
theory RaftNames
  imports RaftCluster Base64
begin

text \<open>
  The small helpers of lab3/raft/config.go and raft.go: random end names, the seed and
  \<open>sendRequestVote\<close>; and what the random names are for: with fresh ones no operation of the
  tester on a cluster fails. The random bytes are arguments; base64 with the alphabet for URLs is
  standard library and written out.
\<close>

section \<open>Random strings\<close>

definition url_alphabet :: bytes where
  "url_alphabet = map of_char
     ''ABCDEFGHIJKLMNOPQRSTUVWXYZabcdefghijklmnopqrstuvwxyz0123456789-_''"

definition url6 :: "nat \<Rightarrow> u8" where
  "url6 n = url_alphabet ! n"

fun url_encode :: "bytes \<Rightarrow> bytes" where
  "url_encode [] = []"
| "url_encode [a] = [url6 (unat a div 4), url6 (unat a mod 4 * 16), pad, pad]"
| "url_encode [a, b] =
     [url6 (unat a div 4), url6 (unat a mod 4 * 16 + unat b div 16), url6 (unat b mod 16 * 4), pad]"
| "url_encode (a # b # c # rest) =
     url6 (unat a div 4) # url6 (unat a mod 4 * 16 + unat b div 16) #
     url6 (unat b mod 16 * 4 + unat c div 64) # url6 (unat c mod 64) # url_encode rest"

text \<open>\<open>b\<close> is what \<open>crand.Read\<close> fills the slice of \<open>2 * n\<close> bytes with.\<close>

definition randstring :: "nat \<Rightarrow> bytes \<Rightarrow> ('e, bytes) go_result" where
  "randstring n b = (let s = url_encode b in go_slice s 0 n)"

definition end_name :: "bytes \<Rightarrow> string" where
  "end_name b = (case randstring 20 b :: (string, bytes) go_result of Return s \<Rightarrow> map (\<lambda>x. char_of (unat x)) s | _ \<Rightarrow> [])"

text \<open>\<open>crand.Int\<close> draws a number from 0 to one less than its bound; here it is the argument \<open>draw_below\<close>.\<close>

definition makeSeed :: "(int \<Rightarrow> int) \<Rightarrow> int" where
  "makeSeed draw_below = (let max = 2 ^ 62; bigx = draw_below max; x = bigx in x)"

section \<open>The vote request\<close>

text \<open>Both argument structures are still empty.\<close>

datatype RequestVoteArgs = RequestVoteArgs
datatype RequestVoteReply = RequestVoteReply

definition sendRequestVote :: "(string \<Rightarrow> string \<Rightarrow> RequestVoteArgs \<Rightarrow> RequestVoteReply \<Rightarrow> ('e, bool \<times> RequestVoteReply) go_result) \<Rightarrow>
    Raft \<Rightarrow> nat \<Rightarrow> RequestVoteArgs \<Rightarrow> RequestVoteReply \<Rightarrow> ('e, bool \<times> RequestVoteReply) go_result" where
  "sendRequestVote call rf server args reply =
     bind_go (idx_get (peers rf) server) (\<lambda>end_name. call end_name ''Raft.RequestVote'' args reply)"

section \<open>Different bytes, different names\<close>

lemma length_url_alphabet: "length url_alphabet = 64"
  by (simp add: url_alphabet_def)

lemma distinct_url_alphabet: "distinct url_alphabet"
  unfolding url_alphabet_def by code_simp

lemma url6_eq: "m < 64 \<Longrightarrow> n < 64 \<Longrightarrow> url6 m = url6 n \<longleftrightarrow> m = n"
  by (simp add: url6_def nth_eq_iff_index_eq distinct_url_alphabet length_url_alphabet)

lemma length_url_encode: "length (url_encode b) = 4 * ((length b + 2) div 3)"
  by (induction b rule: url_encode.induct) (simp_all, presburger)

lemma quantum_eq:
  fixes a b c a' b' c' :: u8
  shows "url6 (unat a div 4) = url6 (unat a' div 4) \<and>
    url6 (unat a mod 4 * 16 + unat b div 16) = url6 (unat a' mod 4 * 16 + unat b' div 16) \<and>
    url6 (unat b mod 16 * 4 + unat c div 64) = url6 (unat b' mod 16 * 4 + unat c' div 64) \<and>
    url6 (unat c mod 64) = url6 (unat c' mod 64) \<longleftrightarrow> a = a' \<and> b = b' \<and> c = c'"
proof -
  have r: "unat a < 256" "unat b < 256" "unat c < 256" "unat a' < 256" "unat b' < 256" "unat c' < 256"
    by (rule unat_u8)+
  have d: "unat a div 4 < 64" "unat a' div 4 < 64" "unat b div 16 < 16" "unat b' div 16 < 16" "unat c div 64 < 4" "unat c' div 64 < 4"
    using r by auto
  have pair: "x mod k * m + p = y mod k * m + q \<longleftrightarrow> x mod k = y mod k \<and> p = q" if "p < m" "q < m" for x y k m p q :: nat
  proof
    assume eq: "x mod k * m + p = y mod k * m + q"
    have "(x mod k * m + p) div m = x mod k" "(y mod k * m + q) div m = y mod k" using that by auto
    moreover from this eq have "x mod k = y mod k" by metis
    ultimately show "x mod k = y mod k \<and> p = q" using eq by simp
  qed simp
  have join: "u = v \<longleftrightarrow> unat u div k = unat v div k \<and> unat u mod k = unat v mod k" for u v :: u8 and k
    by (metis div_mult_mod_eq word_unat_eq_iff)
  show ?thesis
    using d pair [of "unat b div 16" 16 "unat b' div 16" "unat a" 4 "unat a'"]
      pair [of "unat c div 64" 4 "unat c' div 64" "unat b" 16 "unat b'"]
      join [of a a' 4] join [of b b' 16] join [of c c' 64]
    by (auto simp: url6_eq)
qed

lemma take_url_encode_eq:
  "3 * k \<le> length b \<Longrightarrow> 3 * k \<le> length b' \<Longrightarrow>
   take (4 * k) (url_encode b) = take (4 * k) (url_encode b') \<longleftrightarrow> take (3 * k) b = take (3 * k) b'"
proof (induction k arbitrary: b b')
  case (Suc k)
  obtain x y z r where b: "b = x # y # z # r" "3 * k \<le> length r"
    using Suc.prems(1) by (auto simp: Suc_le_length_iff numeral_3_eq_3)
  obtain x' y' z' r' where b': "b' = x' # y' # z' # r'" "3 * k \<le> length r'"
    using Suc.prems(2) by (auto simp: Suc_le_length_iff numeral_3_eq_3)
  have k: "4 * Suc k = Suc (Suc (Suc (Suc (4 * k))))" "3 * Suc k = Suc (Suc (Suc (3 * k)))" by simp_all
  show ?case
    using Suc.IH [OF b(2) b'(2)] quantum_eq [of x x' y y' z z'] unfolding b(1) b'(1) k by simp blast
qed simp

lemma randstring_20: "length b = 40 \<Longrightarrow> randstring 20 b = Return (take 20 (url_encode b))"
  by (simp add: randstring_def go_slice_def length_url_encode Let_def)

lemma end_name_eq:
  assumes "length b = 40" and "length b' = 40"
  shows "end_name b = end_name b' \<longleftrightarrow> take 15 b = take 15 b'"
proof -
  have "inj (\<lambda>x :: u8. char_of (unat x) :: char)"
  proof (rule injI)
    fix x y :: u8
    assume "char_of (unat x) = (char_of (unat y) :: char)"
    then have "of_char (char_of (unat x) :: char) = (of_char (char_of (unat y) :: char) :: nat)" by simp
    then have "unat x mod 256 = unat y mod 256" by (simp add: take_bit_eq_mod)
    then show "x = y" using unat_u8 [of x] unat_u8 [of y] by (simp add: word_unat_eq_iff)
  qed
  then have "end_name b = end_name b' \<longleftrightarrow> take 20 (url_encode b) = take 20 (url_encode b')"
    by (simp add: end_name_def randstring_20 assms inj_map_eq_map)
  also have "\<dots> \<longleftrightarrow> take 15 b = take 15 b'"
    using take_url_encode_eq [of 5 b b'] assms by simp
  finally show ?thesis .
qed

section \<open>Properties\<close>

text \<open>
  The random end names. \<open>randstring(20)\<close> always returns 20 characters, and two of its strings are
  equal exactly if the first 15 of the 40 random bytes they are made from are; the other 25 bytes do not
  matter. So the ends of a cluster have different names unless two draws agree in 120 random bits.
\<close>
lemma randstring_names:
  assumes "length b = 40" and "length b' = 40"
  shows "\<exists>s. randstring 20 b = Return s \<and> length s = 20 \<and> end_name b = map (\<lambda>x. char_of (unat x)) s"
    and "end_name b = end_name b' \<longleftrightarrow> take 15 b = take 15 b'"
proof -
  show "\<exists>s. randstring 20 b = Return s \<and> length s = 20 \<and> end_name b = map (\<lambda>x. char_of (unat x)) s"
    by (intro exI [of _ "take 20 (url_encode b)"])
      (simp add: randstring_20 assms length_url_encode end_name_def)
qed (rule end_name_eq [OF assms])

lemma randstring_names_witness:
  "end_name (replicate 40 0) = end_name (replicate 15 0 @ replicate 25 1) \<and>
   end_name (replicate 40 0) \<noteq> end_name (replicate 14 0 @ replicate 26 1)"
  using randstring_names(2) [of "replicate 40 0" "replicate 15 0 @ replicate 25 1"]
    randstring_names(2) [of "replicate 40 0" "replicate 14 0 @ replicate 26 1"]
  by (simp add: numeral_eq_Suc)

text \<open>The clusters on which every operation of the tester is defined.\<close>

definition well_formed :: "nat \<Rightarrow> 'c config \<Rightarrow> bool" where
  "well_formed n cfg \<longleftrightarrow>
     cfg_n cfg = n \<and> length (rafts cfg) = n \<and> length (connected cfg) = n \<and> length (saved cfg) = n \<and>
     length (endnames cfg) = n \<and>
     (\<forall>i<n. \<exists>es p. endnames cfg ! i = Some es \<and> length es = n \<and> saved cfg ! i = Some p \<and>
        p < length (persisters (store cfg)) \<and>
        (\<forall>r. rafts cfg ! i = Some r \<longrightarrow> r < length (peers_made cfg) \<and> persister (peers_made cfg ! r) = p))"

fun applicable :: "cfg_op \<Rightarrow> 'c config \<Rightarrow> bool" where
  "applicable (OpStart i names) cfg \<longleftrightarrow> i < cfg_n cfg \<and> inj_on names {0..<cfg_n cfg} \<and>
     names ` {0..<cfg_n cfg} \<inter> ends (cnet cfg) = {}"
| "applicable (OpCrash i) cfg \<longleftrightarrow> i < cfg_n cfg"
| "applicable (OpJoin i) cfg \<longleftrightarrow> i < cfg_n cfg"
| "applicable (OpLeave i) cfg \<longleftrightarrow> i < cfg_n cfg"
| "applicable _ cfg \<longleftrightarrow> True"

lemma cfg_inv_well_formed:
  assumes "cfg_inv n cfg"
  shows "well_formed n cfg"
proof -
  have n: "cfg_n cfg = n" and shape: "cfg_shape cfg" and inst: "inst_inv cfg"
    and all: "\<And>k. k < n \<Longrightarrow> started k cfg \<and> saved_bytes k cfg \<noteq> None"
    using assms by (auto simp: cfg_inv_def ends_inv_def)
  have "\<exists>es p. endnames cfg ! i = Some es \<and> length es = n \<and> saved cfg ! i = Some p \<and>
      p < length (persisters (store cfg)) \<and>
      (\<forall>r. rafts cfg ! i = Some r \<longrightarrow> r < length (peers_made cfg) \<and> persister (peers_made cfg ! r) = p)"
    if i: "i < n" for i
  proof -
    obtain es p where es: "endnames cfg ! i = Some es" and p: "saved cfg ! i = Some p"
      using all [OF i] by (auto simp: started_def saved_bytes_def)
    have "length es = n" using shape es i n by (simp add: cfg_shape_def)
    moreover have "p < length (persisters (store cfg))" using inst_invD(4) [OF inst _ p] i n by simp
    moreover have "r < length (peers_made cfg) \<and> persister (peers_made cfg ! r) = p" if "rafts cfg ! i = Some r" for r
      using inst_invD(7) [OF inst _ that] i n p by (simp add: owner_def)
    ultimately show ?thesis using es p by blast
  qed
  then show ?thesis using shape n by (simp add: well_formed_def cfg_shape_def)
qed

lemma applicable_returns:
  assumes inv: "cfg_inv n cfg" and "applicable op cfg"
  shows "\<exists>cfg'. cfg_do op cfg = Return cfg'"
proof -
  have shape: "cfg_shape cfg" and st: "\<And>k. k < cfg_n cfg \<Longrightarrow> started k cfg"
    using inv by (auto simp: cfg_inv_def ends_inv_def)
  show ?thesis
  proof (cases op)
    case (OpStart i names)
    then show ?thesis using assms(2) start1_returns [OF shape, of i names] by auto
  next
    case (OpCrash i)
    then show ?thesis using assms(2) crash1_returns [OF shape, of i] by auto
  next
    case (OpJoin i)
    then show ?thesis using assms(2) connect_value [OF shape _ st, of i] by simp
  next
    case (OpLeave i)
    then show ?thesis using assms(2) disconnect_value [OF shape, of i] by simp
  qed simp_all
qed

text \<open>
  C17: the tester's cluster is well formed, and its operations are defined on it. If the random draws for
  the end names differ in their first 15 bytes, \<open>make_config\<close> returns, and every cluster that any
  sequence of operations leads to from there is well formed: each of its five slices has one entry per server, every server
  has a row of end names of full length and a persister of the store, and every running peer exists and
  uses the persister that is saved for it. On every such cluster each operation on a server that exists,
  a start with new and different names included, returns, without a panic and without ending the
  process, and leaves a well-formed cluster.
\<close>
theorem tester_operations_defined:
  assumes len: "\<And>i j. i < n \<Longrightarrow> j < n \<Longrightarrow> length (draws i j) = 40"
    and inj: "inj_on (\<lambda>(i, j). take 15 (draws i j)) ({0..<n} \<times> {0..<n})"
  shows "(\<exists>cfg :: 'c config. make_config n unreliable (\<lambda>i j. end_name (draws i j)) = Return cfg) \<and>
    (\<forall>ops cfg. cfg_run n unreliable (\<lambda>i j. end_name (draws i j)) ops = Return (cfg :: 'c config) \<longrightarrow>
       well_formed n cfg \<and>
       (\<forall>op. applicable op cfg \<longrightarrow> (\<exists>cfg'. cfg_do op cfg = Return cfg' \<and> well_formed n cfg')))"
proof (intro conjI allI impI)
  have "inj_on (\<lambda>(i, j). end_name (draws i j)) ({0..<n} \<times> {0..<n})"
  proof (rule inj_onI, clarify)
    fix i j k l
    assume r: "i \<in> {0..<n}" "j \<in> {0..<n}" "k \<in> {0..<n}" "l \<in> {0..<n}"
      and "end_name (draws i j) = end_name (draws k l)"
    then have "take 15 (draws i j) = take 15 (draws k l)" using end_name_eq [OF len len, of i j k l] by simp
    then show "i = k \<and> j = l" using inj_onD [OF inj, of "(i, j)" "(k, l)"] r by simp
  qed
  then show "\<exists>cfg :: 'c config. make_config n unreliable (\<lambda>i j. end_name (draws i j)) = Return cfg"
    using make_config_returns by blast
next
  fix ops and cfg :: "'c config"
  assume "cfg_run n unreliable (\<lambda>i j. end_name (draws i j)) ops = Return cfg"
  note inv = cfg_run_inv [OF this]
  show "well_formed n cfg" by (rule cfg_inv_well_formed [OF inv])
  fix op
  assume "applicable op cfg"
  then obtain cfg' where "cfg_do op cfg = Return cfg'" using applicable_returns [OF inv] by blast
  then show "\<exists>cfg'. cfg_do op cfg = Return cfg' \<and> well_formed n cfg'"
    using cfg_do_inv [OF inv] cfg_inv_well_formed by blast
qed

text \<open>A cluster of two; a server of it can be crashed and started again.\<close>

definition demo_draw :: "nat \<Rightarrow> nat \<Rightarrow> bytes" where
  "demo_draw i j = [of_nat i, of_nat j] @ replicate 38 0"

lemma demo_draw_inj: "inj_on (\<lambda>(i, j). take 15 (demo_draw i j)) ({0..<2} \<times> {0..<2})"
  by (auto simp: inj_on_def demo_draw_def less_2_cases_iff)

theorem tester_operations_defined_witness:
  "\<exists>cfg cfg' :: nat config. make_config 2 False (\<lambda>i j. end_name (demo_draw i j)) = Return cfg \<and>
     crash1 1 cfg = Return cfg' \<and> well_formed 2 cfg'"
proof -
  have "\<And>i j. i < 2 \<Longrightarrow> j < 2 \<Longrightarrow> length (demo_draw i j) = 40" by (simp add: demo_draw_def)
  note all = tester_operations_defined [OF this demo_draw_inj, where unreliable = False and 'c = nat]
  obtain cfg :: "nat config" where cfg: "make_config 2 False (\<lambda>i j. end_name (demo_draw i j)) = Return cfg"
    using all by blast
  have "cfg_run 2 False (\<lambda>i j. end_name (demo_draw i j)) [] = Return cfg" by (simp add: cfg_run_def cfg)
  then have "well_formed 2 cfg"
    and step: "applicable (OpCrash 1) cfg \<longrightarrow> (\<exists>cfg'. cfg_do (OpCrash 1) cfg = Return cfg' \<and> well_formed 2 cfg')"
    using all by blast+
  then have "applicable (OpCrash 1) cfg" by (simp add: well_formed_def)
  with step cfg show ?thesis by auto
qed

end
