(* ===== verification/Spec2Isabelle.thy ===== *)
theory Spec2Isabelle
  imports QueueThreads SemaphoreCas MergeFetch ParallelFetch LoadGen StatsTool VideoRecAnswers VideoRecBatches VideoRecRace VideoRecSim ServerPrograms LabGob LabRpcCalls RaftCheck RaftNames
begin

text \<open>
  A verification library for the Go programs of this repository: three course labs. Lab 0 is a set of
  concurrent data structures, lab 1 a video recommendation system of three gRPC services with its
  clients, lab 3 the outline of a Raft peer with the simulated network and the tester it is run in.

  \<^bold>\<open>Conventions.\<close> GoPrelude has the outcome of a Go call (\<open>Return\<close>, \<open>Fails\<close> an error, \<open>Panics\<close>, or
  \<open>Blocks\<close> forever), checked indexing and slicing, and the loop \<open>for_go\<close>. A machine integer that can
  wrap in the code is a word; \<open>int\<close> stands for a Go \<open>int\<close> whose value stays far from its bounds.
  Sequential code is a function on an explicit state. Concurrent code is an inductive step relation,
  one step per critical section, atomic operation or channel operation, over a state with the control
  point of every goroutine; its properties hold in every reachable state. Functions and fields keep
  their names, with a prefix where two packages share one.

  \<^bold>\<open>Lab 0\<close> (src/lab0).
  \<^item> queue.go: FifoQueue has the ring buffer of \<open>Queue\<close>, refined to a list through the locale of a FIFO
    queue; QueueThreads has \<open>ConcurrentQueue\<close>, where every goroutine that calls \<open>Push\<close> or \<open>Pop\<close> takes
    the mutex: the results are those of the list in the order of the critical sections.
  \<^item> semaphore.go: SemaphoreCas, with the load and the compare-and-swap of \<open>Wait\<close> as separate steps.
  \<^item> merge_channels.go: MergeChan (\<open>MergeChannels\<close>, \<open>MergeChannelsOrCancel\<close>: the select loop, the nil
    channels, the close) and MergeFetch (\<open>MergeFetches\<close>: two goroutines and the WaitGroup).
  \<^item> parallel_fetcher.go: ParallelFetch, the weighted semaphore around a fetcher.

  \<^bold>\<open>Lab 1\<close> (src/lab1).
  \<^item> det_bcrypt: Decimal and Base64 are the parts of strconv and encoding/base64 it uses, DetBcrypt the
    package. Ranker is ranker/ranker.go. Messages holds the protobuf messages as records.
  \<^item> failure_injection: FailureInjection. user_service and video_service: RandGen and the two theories of
    those names, the generated databases and the handlers; Backends has what the handlers answer.
  \<^item> video_rec_service: VideoRec is \<open>GetTopVideos\<close> (its two batching loops, retries, the fallback, ranking
    and cutting, and the deferred counters), \<open>GetStats\<close> and the cache refresh. VideoRecProps holds for
    any clients, and VideoRecAnswers computes a response from the answers they gave; VideoRecClients states what the server needs of its clients as locales, proves the
    handler against them once, and interprets them on the mock clients of the two backends.
    VideoRecThreads runs any number of \<open>GetTopVideos\<close> calls beside the refresh, one step per atomic
    addition, critical section, client call and access to the array of the cache, with the requests that
    each counter counts as a set of control points and every stale answer traced back to the step that
    installed its array; VideoRecRace builds
    the run in which two requests that sort this array lose a video. VideoRecSim shows that a request
    that runs alone in this model does what the sequential handler does (its in-place sort included),
    and the same of a turn of the refresh. VideoRecBatches bounds what a request asks of the backends.
  \<^item> logging: Logging, the interceptor and both loggers. The server programs: ServerPrograms, which also
    interprets the client contract on the backends behind their interceptors.
  \<^item> cmd: ClientTools has the frontend (its contract again a locale) and what stats asks for
    and prints, StatsTool the rest of stats, LoadGen the load generator with its shared counters.

  \<^bold>\<open>Lab 3\<close> (src/lab3).
  \<^item> raft/persister.go: Persister, with byte slices as addresses of a heap, refined to pairs of byte strings.
  \<^item> labgob: LabGob, the recursive check of types and values, on type and value trees.
  \<^item> labrpc: LabRpc has the services, servers and the administration of the network, LabRpcCalls the
    goroutines that carry each \<open>Call\<close>: lookup, the drops and delays, the handler, the watch for a
    removed server, and reordered replies.
  \<^item> raft/raft.go: RaftPeer is the outline of the peer (its elections and replication are still empty).
  \<^item> raft/config.go: RaftConfig (make, connect, disconnect, crash, start), RaftCheck (the appliers,
    \<open>nCommitted\<close>, \<open>wait\<close>, \<open>one\<close>, the leader and term checks), RaftNames (random end names). RaftEnds and
    RaftPersisted prove the invariants of the network ends and of the persisters for each operation,
    RaftCluster puts them together over every sequence of operations.

  \<^bold>\<open>What is shown.\<close> For lab 0 safety in every interleaving (order, conservation, no double close, no
  panic) and, for the merge, that it can always be driven to its end. For lab 1 what the services
  answer to every request, up to the whole system: the recommendations of the three services behind
  their interceptors, request after request; the accounting of requests, termination, retry and
  fallback against arbitrary clients, what a response is made of, what is asked of the backends, and the same service under
  concurrent requests; that the frontend passes or fails exactly by its two tests; what
  the counters of the load generator mean. For lab 3 that a call is executed at most once and exactly
  once if it returned true, that each call can return, that the tester's network admits exactly the
  calls between connected instances, that persisted state survives crashes and old instances, that the
  tester's verdicts mean what they say, and that none of its operations can panic on a cluster it made.
  The properties carry the numbers C1 to C40 in the text before them. Where the code does something
  else than its comments or its purpose say, the theorem states what the code does and the text says so.

  \<^bold>\<open>Bounds and fuel.\<close> The batching loops of \<open>GetTopVideos\<close> are partial functions into an option, \<open>None\<close> a
  loop that never ends; they end for every positive batch size. \<open>ContinuallyRefreshCache\<close> is given the
  number of turns to run, a loop without end in the code. \<open>checkOneLeader\<close> looks 10 times and \<open>wait\<close>
  counts 30 times, as in the code. \<open>one\<close> and \<open>ticker\<close> run over the list of what they observe; \<open>one\<close> is
  shown to end once its clock has shown 25 seconds. \<open>checkType\<close> descends into types that can be cyclic
  and is shown to end, because each type is checked once. All other loops are structural.

  \<^bold>\<open>Parameters.\<close> Code outside the repository: the Blowfish cipher, gofakeit, gRPC's dialling and
  serving, encoding/gob, InfluxDB, the weighted semaphore of x/sync (as its documentation describes it)
  and float division are arguments, with what is assumed of them in named predicates (\<open>blowfish_ok\<close>,
  \<open>rand_ok\<close>, \<open>sort_ok\<close>) that the witnesses instantiate; \<open>go_sort\<close> adds that up to 12 elements are sorted
  by insertion, as \<open>slices.SortFunc\<close> does, and \<open>insertion_sort\<close> is shown to satisfy it. So are the random source, the clock, reverse
  lookups and the order in which a map is visited.

  \<^bold>\<open>Not modelled.\<close> What is printed, but for the lines of loadgen and stats; sleeping, except as the freedom of the scheduler; deadlines of
  contexts, whose effect is an error of the call; flag parsing and sockets; the generated protobuf code;
  the debugging output of raft/util.go; the memory model below the granularity of atomic operations and
  mutexes (the array of cached videos excepted, whose writes are steps of their own); quicksort, which
  \<open>slices.SortFunc\<close> uses for more than 12 videos and which VideoRecThreads lets make any exchanges.
\<close>

end
